(* ===== verification/Prelude.thy ===== *)
theory Prelude
  imports Main "HOL-Library.Word" "HOL-Library.Signed_Division"
begin

text \<open>
  Shared vocabulary of the development: C++ integer conventions, the collections of
  rewrite rules that carry the component proofs, and the generic list lemmas that more
  than one component needs.

  Integers. A C++ \<open>long long\<close> or \<open>int64_t\<close> that the code only adds, compares and copies is
  an \<open>int\<close>; where a multiplication or a conversion could leave the 64-bit range the component
  proves, with \<open>in_i64\<close>, that it does not. Division of signed integers truncates towards zero
  (\<open>sdiv\<close>). Sizes and counters are \<open>nat\<close>.
\<close>

section \<open>Machine integers\<close>

definition in_i64 :: "int \<Rightarrow> bool" where
  "in_i64 x \<longleftrightarrow> - (2 ^ 63) \<le> x \<and> x < 2 ^ 63"

text \<open>The bit pattern \<open>0x8000000000000000\<close> read as a signed 64-bit integer: kdb+'s null long.\<close>

definition null_long :: int where
  "null_long = sint (0x8000000000000000 :: 64 word)"

lemma null_long_val: "null_long = - (2 ^ 63)"
  by (simp add: null_long_def)

lemma in_i64_null_long [simp]: "in_i64 null_long"
  by (simp add: in_i64_def null_long_val)

lemma sdiv_nonneg: "(0::int) \<le> a \<Longrightarrow> 0 < b \<Longrightarrow> a sdiv b = a div b"
  by (cases "a = 0") (simp_all add: signed_divide_int_def)

lemma sdiv_neg: "(a::int) < 0 \<Longrightarrow> 0 < b \<Longrightarrow> a sdiv b = - ((- a) div b)"
  by (simp add: signed_divide_int_def)

lemma sdiv_mono_pos:
  assumes "(a::int) \<le> b" and "0 < c"
  shows "a sdiv c \<le> b sdiv c"
proof (cases "a < 0")
  case True
  show ?thesis
  proof (cases "b < 0")
    case True
    with \<open>a < 0\<close> assms show ?thesis
      by (simp add: sdiv_neg zdiv_mono1)
  next
    case False
    with \<open>a < 0\<close> assms have "a sdiv c \<le> 0" "0 \<le> b sdiv c"
      by (simp_all add: sdiv_neg sdiv_nonneg pos_imp_zdiv_nonneg_iff)
    then show ?thesis by linarith
  qed
next
  case False
  with assms show ?thesis by (simp add: sdiv_nonneg zdiv_mono1)
qed

lemma sdiv_abs_le:
  assumes "0 < b"
  shows "\<bar>(a::int) sdiv b\<bar> \<le> \<bar>a\<bar>"
proof -
  have nn: "x div b \<le> x" "0 \<le> x div b" if "0 \<le> x" for x :: int
    using zdiv_mono2 [of x 1 b] that assms by (simp_all add: pos_imp_zdiv_nonneg_iff)
  show ?thesis
  proof (cases "a < 0")
    case True
    with nn [of "- a"] assms show ?thesis by (simp add: sdiv_neg)
  next
    case False
    with nn [of a] assms show ?thesis by (simp add: sdiv_nonneg)
  qed
qed

section \<open>Lists\<close>

definition upd_nth :: "'a list \<Rightarrow> nat \<Rightarrow> ('a \<Rightarrow> 'a) \<Rightarrow> 'a list" where
  "upd_nth xs i f = xs[i := f (xs ! i)]"

lemma length_upd_nth [simp]: "length (upd_nth xs i f) = length xs"
  by (simp add: upd_nth_def)

lemma nth_upd_nth: "j < length xs \<Longrightarrow> upd_nth xs i f ! j = (if i = j then f (xs ! j) else xs ! j)"
  by (simp add: upd_nth_def)

text \<open>Elements past the last \<open>n\<close> of a list: what \<open>erase(begin, begin + size - n)\<close> leaves.\<close>

definition last_n :: "nat \<Rightarrow> 'a list \<Rightarrow> 'a list" where
  "last_n n xs = drop (length xs - n) xs"

lemma length_last_n [simp]: "length (last_n n xs) = min n (length xs)"
  by (simp add: last_n_def)

lemma last_n_ge [simp]: "length xs \<le> n \<Longrightarrow> last_n n xs = xs"
  by (simp add: last_n_def)

lemma set_last_n: "set (last_n n xs) \<subseteq> set xs"
  by (simp add: last_n_def set_drop_subset)

lemma last_n_split: "\<exists>pre. xs = pre @ last_n n xs"
  by (metis append_take_drop_id last_n_def)

lemma rev_last_n: "rev (last_n n xs) = take n (rev xs)"
  by (simp add: last_n_def take_rev)

lemma sorted_wrt_takeWhile_dropWhile:
  assumes "sorted_wrt R xs" and "x \<in> set (takeWhile P xs)" and "y \<in> set (dropWhile P xs)"
  shows "R x y"
  using assms by (metis sorted_wrt_append takeWhile_dropWhile_id)

lemma sorted_wrt_last_n: "sorted_wrt R xs \<Longrightarrow> sorted_wrt R (last_n n xs)"
  by (simp add: last_n_def sorted_wrt_drop)

lemma map_of_append_None:
  "map_of xs k = None \<Longrightarrow> map_of (xs @ ys) k = map_of ys k"
  by (simp add: map_add_def)

lemma map_of_map_None:
  "k \<notin> f ` set xs \<Longrightarrow> map_of (map (\<lambda>x. (f x, g x)) xs) k = None"
  by (auto simp: map_of_eq_None_iff)

section \<open>Bounded queues\<close>

text \<open>
  A queue that drops its oldest item when it is full. The delta buffer of a book, the resend ring and
  the queues of the snapshot worker are all of this kind; each is an interpretation of the locale in
  its own theory.
\<close>

lemma last_n_push:
  assumes "length xs \<le> n" "0 < n"
  shows "last_n n (xs @ [x]) = (if length xs < n then xs @ [x] else tl xs @ [x])"
proof (cases "length xs < n")
  case False
  with assms have "length xs = n" by simp
  with assms show ?thesis by (cases xs) (simp_all add: last_n_def)
qed simp

lemma last_n_last_n_append: "last_n n (last_n n xs @ ys) = last_n n (xs @ ys)"
proof (cases "n \<le> length xs")
  case True
  then have "last_n n (xs @ ys) = drop (length ys + (length xs - n)) (xs @ ys)" by (simp add: last_n_def add.commute)
  also have "\<dots> = drop (length ys) (drop (length xs - n) (xs @ ys))" by (simp only: drop_drop add.commute)
  also have "drop (length xs - n) (xs @ ys) = last_n n xs @ ys" using True by (simp add: last_n_def)
  finally show ?thesis using True by (simp add: last_n_def)
qed simp

locale bounded_fifo =
  fixes ok :: "'q \<Rightarrow> bool" and items :: "'q \<Rightarrow> 'a list" and push :: "'a \<Rightarrow> 'q \<Rightarrow> 'q" and cap :: nat
  assumes cap_pos: "0 < cap"
    and push_ok: "ok q \<Longrightarrow> ok (push x q)"
    and push_items: "ok q \<Longrightarrow> items (push x q) = last_n cap (items q @ [x])"
begin

lemma pushes_ok: "ok q \<Longrightarrow> ok (fold push xs q)"
  by (induction xs arbitrary: q) (auto simp: push_ok)

text \<open>After any number of pushes the queue holds the newest \<open>cap\<close> items, in order.\<close>

lemma pushes_items: "ok q \<Longrightarrow> length (items q) \<le> cap \<Longrightarrow> items (fold push xs q) = last_n cap (items q @ xs)"
proof (induction xs arbitrary: q)
  case (Cons x xs)
  have "items (fold push xs (push x q)) = last_n cap (items (push x q) @ xs)"
    by (rule Cons.IH) (use Cons.prems in \<open>simp_all add: push_ok push_items\<close>)
  also have "\<dots> = last_n cap ((items q @ [x]) @ xs)"
    by (simp only: push_items [OF Cons.prems(1)] last_n_last_n_append)
  finally show ?case by simp
qed simp

lemma push_keeps_newest: "ok q \<Longrightarrow> x \<in> set (items (push x q)) \<and> length (items (push x q)) \<le> cap"
  using cap_pos by (simp add: push_items) (simp add: last_n_def)

lemma push_subset: "ok q \<Longrightarrow> set (items (push x q)) \<subseteq> insert x (set (items q))"
  using set_last_n [of cap "items q @ [x]"] by (simp add: push_items)

end

end
