(* ===== verification/Doubles.thy ===== *)
theory Doubles
  imports Prelude "HOL-Library.Log_Nat" Complex_Main
begin

text \<open>
  C++ \<open>double\<close>. Two uses of it are modelled separately.

  \<^item> Prices and quantities are only stored and compared. They are the type \<open>double\<close>: a rational,
    an infinity, or NaN, with the IEEE comparisons \<open>flt\<close> and \<open>feq\<close>, which are false when an operand
    is NaN. The two zeros are one value, since no comparison tells them apart.
  \<^item> The request budget and the jitter of the snapshot scheduler are computed. They are rationals,
    and every arithmetic operation is followed by \<open>rnd64\<close>, round to nearest, ties to even, to a
    53-bit significand. Overflow and subnormals are not modelled: the numbers there lie between
    a fraction of one unit of request weight and a few million.

  The laws the scheduler uses of rounding are the locale \<open>fp_rounding\<close>; its interpretation on
  \<open>rnd64\<close> is the last declaration of the theory.
\<close>

section \<open>Stored doubles\<close>

datatype double = NaN | NegInf | Fin rat | PosInf

instantiation double :: zero
begin

definition zero_double :: double where
  "zero_double = Fin 0"

instance ..

end

text \<open>
  A total order that extends the IEEE one, with NaN on top. Only proofs use it: the code's
  comparisons are \<open>flt\<close> and \<open>feq\<close>.
\<close>

fun double_key :: "double \<Rightarrow> nat \<times> rat" where
  "double_key NegInf = (0, 0)"
| "double_key (Fin r) = (1, r)"
| "double_key PosInf = (2, 0)"
| "double_key NaN = (3, 0)"

instantiation double :: linorder
begin

definition less_eq_double :: "double \<Rightarrow> double \<Rightarrow> bool" where
  "less_eq_double a b \<longleftrightarrow>
     fst (double_key a) < fst (double_key b) \<or>
     (fst (double_key a) = fst (double_key b) \<and> snd (double_key a) \<le> snd (double_key b))"

definition less_double :: "double \<Rightarrow> double \<Rightarrow> bool" where
  "less_double a b \<longleftrightarrow> a \<le> b \<and> \<not> b \<le> a"

instance
proof
  fix x y z :: double
  show "(x < y) = (x \<le> y \<and> \<not> y \<le> x)" by (simp add: less_double_def)
  show "x \<le> x" by (simp add: less_eq_double_def)
  show "x \<le> y \<Longrightarrow> y \<le> z \<Longrightarrow> x \<le> z" by (auto simp: less_eq_double_def)
  show "x \<le> y \<Longrightarrow> y \<le> x \<Longrightarrow> x = y"
    by (cases x; cases y) (auto simp: less_eq_double_def)
  show "x \<le> y \<or> y \<le> x" by (auto simp: less_eq_double_def)
qed

end

lemma Fin_less_Fin [simp]: "Fin a < Fin b \<longleftrightarrow> a < b"
  by (auto simp: less_double_def less_eq_double_def)

lemma Fin_le_Fin [simp]: "Fin a \<le> Fin b \<longleftrightarrow> a \<le> b"
  by (auto simp: less_eq_double_def)

text \<open>The IEEE comparisons \<open>a < b\<close> and \<open>a == b\<close>.\<close>

definition flt :: "double \<Rightarrow> double \<Rightarrow> bool" where
  "flt a b \<longleftrightarrow> a \<noteq> NaN \<and> b \<noteq> NaN \<and> a < b"

definition feq :: "double \<Rightarrow> double \<Rightarrow> bool" where
  "feq a b \<longleftrightarrow> a \<noteq> NaN \<and> a = b"

lemma flt_Fin [simp]: "flt (Fin a) (Fin b) \<longleftrightarrow> a < b"
  by (simp add: flt_def)

lemma feq_Fin [simp]: "feq (Fin a) (Fin b) \<longleftrightarrow> a = b"
  by (simp add: feq_def)

lemma flt_NaN [simp]: "\<not> flt NaN b" "\<not> flt a NaN"
  by (simp_all add: flt_def)

lemma feq_NaN [simp]: "\<not> feq NaN b" "\<not> feq a NaN"
  by (auto simp: feq_def)

lemma flt_num: "a \<noteq> NaN \<Longrightarrow> b \<noteq> NaN \<Longrightarrow> flt a b \<longleftrightarrow> a < b"
  by (simp add: flt_def)

lemma feq_num: "a \<noteq> NaN \<Longrightarrow> feq a b \<longleftrightarrow> a = b"
  by (simp add: feq_def)

lemma zero_double_num [simp]: "(0 :: double) \<noteq> NaN" "NaN \<noteq> (0 :: double)"
  by (simp_all add: zero_double_def)

lemma feq_zero [simp]: "feq q 0 \<longleftrightarrow> q = 0"
  by (auto simp: feq_def)

section \<open>Rounded arithmetic\<close>

text \<open>Round half to even on the rationals.\<close>

definition rne :: "rat \<Rightarrow> int" where
  "rne x = (let f = \<lfloor>x\<rfloor>; d = x - of_int f in
     if d < 1/2 then f else if 1/2 < d then f + 1 else if even f then f else f + 1)"

lemma rne_of_int [simp]: "rne (of_int n) = n"
  by (simp add: rne_def)

lemma rne_cases:
  "(rne x = \<lfloor>x\<rfloor> \<and> x - of_int \<lfloor>x\<rfloor> \<le> 1/2) \<or> (rne x = \<lfloor>x\<rfloor> + 1 \<and> 1/2 \<le> x - of_int \<lfloor>x\<rfloor>)"
  by (auto simp: rne_def Let_def)

lemma rne_bounds: "of_int (rne x) \<le> x + 1/2" "x - 1/2 \<le> of_int (rne x)"
proof -
  have f: "of_int \<lfloor>x\<rfloor> \<le> x" "x < of_int \<lfloor>x\<rfloor> + 1"
    by linarith+
  have "of_int (rne x) \<le> x + 1/2 \<and> x - 1/2 \<le> of_int (rne x)"
    using rne_cases [of x] f by (elim disjE conjE) (simp only: of_int_add of_int_1, linarith)+
  then show "of_int (rne x) \<le> x + 1/2" "x - 1/2 \<le> of_int (rne x)" by blast+
qed

lemma rne_mono:
  assumes "x \<le> y"
  shows "rne x \<le> rne y"
proof (cases "\<lfloor>x\<rfloor> = \<lfloor>y\<rfloor>")
  case True
  with assms show ?thesis by (auto simp: rne_def Let_def)
next
  case False
  with assms have "\<lfloor>x\<rfloor> + 1 \<le> \<lfloor>y\<rfloor>"
    by (metis floor_mono order_le_less zless_imp_add1_zle)
  moreover have "rne x \<le> \<lfloor>x\<rfloor> + 1" "\<lfloor>y\<rfloor> \<le> rne y"
    by (auto simp: rne_def Let_def)
  ultimately show ?thesis by linarith
qed

text \<open>
  The binary exponent of a positive rational: the \<open>e\<close> with \<open>2 ^ e \<le> x < 2 ^ (e + 1)\<close>, computed from
  the bit length of the integer part, or of the reciprocal's.
\<close>

definition bin_exp :: "rat \<Rightarrow> int" where
  "bin_exp x = (if 1 \<le> x then bitlen \<lfloor>x\<rfloor> - 1 else - bitlen (\<lceil>1 / x\<rceil> - 1))"

lemma bitlen_pos: "0 < n \<Longrightarrow> 0 < bitlen n"
  using bitlen_nonneg [of n] bitlen_eq_zero_iff [of n] by linarith

lemma bin_exp_bounds:
  assumes "0 < x"
  shows "2 powi bin_exp x \<le> x" "x < 2 powi (bin_exp x + 1)"
proof -
  have "2 powi bin_exp x \<le> x \<and> x < 2 powi (bin_exp x + 1)"
  proof (cases "1 \<le> x")
    case True
    then have "0 < \<lfloor>x\<rfloor>" by simp
    then have b: "2 ^ nat (bitlen \<lfloor>x\<rfloor> - 1) \<le> \<lfloor>x\<rfloor>" "\<lfloor>x\<rfloor> < 2 ^ nat (bitlen \<lfloor>x\<rfloor>)"
      and pos: "0 < bitlen \<lfloor>x\<rfloor>"
      using bitlen_bounds bitlen_pos by blast+
    from b(1) have "(2::rat) ^ nat (bitlen \<lfloor>x\<rfloor> - 1) \<le> of_int \<lfloor>x\<rfloor>"
      by (metis of_int_le_iff of_int_numeral of_int_power)
    then have "2 ^ nat (bitlen \<lfloor>x\<rfloor> - 1) \<le> x" using of_int_floor_le [of x] by linarith
    moreover from b(2) have "of_int (\<lfloor>x\<rfloor> + 1) \<le> (2::rat) ^ nat (bitlen \<lfloor>x\<rfloor>)"
      by (metis of_int_le_iff of_int_numeral of_int_power zless_imp_add1_zle)
    moreover have "x < of_int (\<lfloor>x\<rfloor> + 1)" by linarith
    ultimately show ?thesis
      using True pos by (simp add: bin_exp_def power_int_def)
  next
    case False
    define m where "m = \<lceil>1 / x\<rceil> - 1"
    from assms False have inv: "1 < 1 / x" by simp
    then have "0 < m" by (simp add: m_def less_ceiling_iff)
    then have b: "2 ^ nat (bitlen m - 1) \<le> m" "m < 2 ^ nat (bitlen m)"
      and pos: "0 < bitlen m"
      using bitlen_bounds bitlen_pos by blast+
    from b(2) have "of_int (m + 1) \<le> (2::rat) ^ nat (bitlen m)"
      by (metis of_int_le_iff of_int_numeral of_int_power zless_imp_add1_zle)
    moreover have "1 / x \<le> of_int (m + 1)" by (simp add: m_def)
    ultimately have up: "1 / x \<le> 2 ^ nat (bitlen m)" by linarith
    from b(1) have "(2::rat) ^ nat (bitlen m - 1) \<le> of_int m"
      by (metis of_int_le_iff of_int_numeral of_int_power)
    moreover have "of_int m < 1 / x" using ceiling_correct [of "1 / x"] by (simp add: m_def)
    ultimately have low: "2 ^ nat (bitlen m - 1) < 1 / x" by linarith
    have e: "bin_exp x = - bitlen m" using False by (simp add: bin_exp_def m_def)
    have p1: "(2::rat) powi (- bitlen m) = 1 / 2 ^ nat (bitlen m)"
      using pos by (simp add: power_int_def field_simps)
    have p2: "(2::rat) powi (1 - bitlen m) = 1 / 2 ^ nat (bitlen m - 1)"
    proof (cases "bitlen m = 1")
      case True then show ?thesis by simp
    next
      case False
      with pos have "nat (- (1 - bitlen m)) = nat (bitlen m - 1)" "\<not> 0 \<le> 1 - bitlen m" by linarith+
      then show ?thesis by (simp add: power_int_def field_simps)
    qed
    have "1 / 2 ^ nat (bitlen m) \<le> x"
      using up assms by (simp add: field_simps)
    moreover have "x < 1 / 2 ^ nat (bitlen m - 1)"
      using low assms by (simp add: field_simps)
    ultimately show ?thesis by (simp add: e p1 p2 add.commute)
  qed
  then show "2 powi bin_exp x \<le> x" "x < 2 powi (bin_exp x + 1)" by blast+
qed

lemma bin_exp_mono:
  assumes "0 < x" "x \<le> y"
  shows "bin_exp x \<le> bin_exp y"
proof (rule ccontr)
  assume "\<not> bin_exp x \<le> bin_exp y"
  then have "bin_exp y + 1 \<le> bin_exp x" by simp
  then have "(2::rat) powi (bin_exp y + 1) \<le> 2 powi bin_exp x"
    by (rule power_int_increasing) simp_all
  with bin_exp_bounds(1)[OF assms(1)] bin_exp_bounds(2)[of y] assms show False by linarith
qed

definition rnd_pos :: "rat \<Rightarrow> rat" where
  "rnd_pos x = (let e = bin_exp x - 52 in of_int (rne (x / 2 powi e)) * 2 powi e)"

definition rnd64 :: "rat \<Rightarrow> rat" where
  "rnd64 x = (if x = 0 then 0 else if x < 0 then - rnd_pos (- x) else rnd_pos x)"

lemma powi_shift: "(2::rat) powi (e + int n) = 2 powi e * 2 ^ n"
  by (simp add: power_int_add)

lemma rnd_pos_bounds:
  assumes "0 < x"
  shows "2 powi bin_exp x \<le> rnd_pos x" "rnd_pos x \<le> 2 powi (bin_exp x + 1)"
proof -
  define e where "e = bin_exp x - 52"
  have p: "0 < (2::rat) powi e" by simp
  have lo: "2 powi bin_exp x = 2 powi e * (2::rat) ^ 52" "2 powi (bin_exp x + 1) = 2 powi e * (2::rat) ^ 53"
    using powi_shift [of e 52] powi_shift [of e 53] by (simp_all add: e_def add.commute)
  have "of_int (2 ^ 52) \<le> x / 2 powi e"
    using bin_exp_bounds(1) [OF assms] p unfolding lo by (simp add: field_simps)
  then have 1: "2 ^ 52 \<le> rne (x / 2 powi e)"
    by (metis rne_mono rne_of_int)
  have "x / 2 powi e \<le> of_int (2 ^ 53)"
    using bin_exp_bounds(2) [OF assms] p unfolding lo by (simp add: field_simps)
  then have 2: "rne (x / 2 powi e) \<le> 2 ^ 53"
    by (metis rne_mono rne_of_int)
  from 1 have "of_int (2 ^ 52) \<le> (of_int (rne (x / 2 powi e)) :: rat)" by (simp only: of_int_le_iff)
  moreover from 2 have "(of_int (rne (x / 2 powi e)) :: rat) \<le> of_int (2 ^ 53)" by (simp only: of_int_le_iff)
  ultimately show "2 powi bin_exp x \<le> rnd_pos x" "rnd_pos x \<le> 2 powi (bin_exp x + 1)"
    unfolding lo rnd_pos_def Let_def e_def [symmetric] using p by (simp_all add: mult.commute)
qed

lemma rnd_pos_mono:
  assumes "0 < x" "x \<le> y"
  shows "rnd_pos x \<le> rnd_pos y"
proof (cases "bin_exp x = bin_exp y")
  case True
  have "rne (x / 2 powi (bin_exp x - 52)) \<le> rne (y / 2 powi (bin_exp x - 52))"
    using assms by (intro rne_mono divide_right_mono) simp_all
  then show ?thesis by (simp add: rnd_pos_def Let_def True)
next
  case False
  with bin_exp_mono [OF assms] have "bin_exp x + 1 \<le> bin_exp y" by simp
  then have "(2::rat) powi (bin_exp x + 1) \<le> 2 powi bin_exp y"
    by (rule power_int_increasing) simp_all
  with rnd_pos_bounds(2) [OF assms(1)] rnd_pos_bounds(1) [of y] assms show ?thesis by linarith
qed

lemma rnd_pos_error:
  assumes "0 < x"
  shows "\<bar>rnd_pos x - x\<bar> \<le> x / 2 ^ 53"
proof -
  define e where "e = bin_exp x - 52"
  define q where "q = x / 2 powi e"
  have p: "0 < (2::rat) powi e" by simp
  have x: "x = q * 2 powi e" using p by (simp add: q_def)
  have "rnd_pos x - x = (of_int (rne q) - q) * 2 powi e"
    unfolding rnd_pos_def Let_def e_def [symmetric] q_def [symmetric] by (subst x) (simp add: algebra_simps)
  moreover have "\<bar>of_int (rne q) - q\<bar> \<le> 1/2" using rne_bounds [of q] by linarith
  ultimately have "\<bar>rnd_pos x - x\<bar> \<le> 1/2 * 2 powi e"
    using p by (simp add: abs_mult)
  moreover have "2 powi e * (2::rat) ^ 52 \<le> x"
    using bin_exp_bounds(1) [OF assms] powi_shift [of e 52] by (simp add: e_def)
  ultimately show ?thesis by (simp add: field_simps)
qed

lemma rnd64_zero [simp]: "rnd64 0 = 0"
  by (simp add: rnd64_def)

lemma rnd64_uminus: "rnd64 (- x) = - rnd64 x"
  by (simp add: rnd64_def)

lemma rnd64_pos: "0 < x \<Longrightarrow> rnd64 x = rnd_pos x"
  by (simp add: rnd64_def)

lemma rnd_pos_pos: "0 < x \<Longrightarrow> 0 < rnd_pos x"
  using rnd_pos_bounds(1) [of x] by (meson less_le_trans zero_less_numeral zero_less_power_int)

lemma rnd64_mono: "x \<le> y \<Longrightarrow> rnd64 x \<le> rnd64 y"
  using rnd_pos_mono [of x y] rnd_pos_mono [of "- y" "- x"] rnd_pos_pos [of y] rnd_pos_pos [of "- x"]
  by (auto simp: rnd64_def)

lemma rnd64_error: "\<bar>rnd64 x - x\<bar> \<le> \<bar>x\<bar> / 2 ^ 53"
proof (cases "x < 0")
  case True
  have "\<bar>- rnd_pos (- x) - x\<bar> = \<bar>rnd_pos (- x) - (- x)\<bar>" by linarith
  with True rnd_pos_error [of "- x"] show ?thesis by (simp add: rnd64_def)
next
  case False
  with rnd_pos_error [of x] show ?thesis by (auto simp: rnd64_def)
qed

text \<open>Numbers with at most 53 significant bits are kept: in particular every integer up to \<open>2 ^ 53\<close>.\<close>

lemma rnd_pos_exact:
  assumes "0 < x" "x = of_int m * 2 powi k" "bin_exp x - 52 \<le> k"
  shows "rnd_pos x = x"
proof -
  define e where "e = bin_exp x - 52"
  obtain n where n: "k = e + int n" using assms(3) by (metis e_def zle_iff_zadd)
  have "x / 2 powi e = of_int (m * 2 ^ n)"
    by (simp add: assms(2) n powi_shift)
  then show ?thesis
    unfolding rnd_pos_def Let_def e_def [symmetric] by (metis rne_of_int nonzero_eq_divide_eq power_int_not_zero zero_neq_numeral)
qed

text \<open>A rounded number is a number of the format: rounding it again changes nothing.\<close>

lemma bin_exp_less:
  assumes "0 < y" "y < 2 powi (k + 1)"
  shows "bin_exp y \<le> k"
proof (rule ccontr)
  assume "\<not> bin_exp y \<le> k"
  then have "(2::rat) powi (k + 1) \<le> 2 powi bin_exp y" by (intro power_int_increasing) simp_all
  with bin_exp_bounds(1) [OF assms(1)] assms(2) show False by linarith
qed

lemma rnd_pos_idem:
  assumes "0 < x"
  shows "rnd_pos (rnd_pos x) = rnd_pos x"
proof (cases "rnd_pos x = 2 powi (bin_exp x + 1)")
  case True
  have "(0::rat) < 2 powi (bin_exp x + 1)" by simp
  moreover have "(2::rat) powi (bin_exp x + 1) < 2 powi (bin_exp x + 1 + 1)"
    by (rule power_int_strict_increasing) simp_all
  ultimately have "bin_exp (2 powi (bin_exp x + 1)) \<le> bin_exp x + 1" by (rule bin_exp_less)
  then show ?thesis unfolding True by (intro rnd_pos_exact [of _ 1 "bin_exp x + 1"]) simp_all
next
  case False
  with rnd_pos_bounds(2) [OF assms] have "rnd_pos x < 2 powi (bin_exp x + 1)" by simp
  moreover have pos: "0 < rnd_pos x"
    using rnd_pos_bounds(1) [OF assms] by (rule less_le_trans [rotated]) simp
  ultimately have b: "bin_exp (rnd_pos x) \<le> bin_exp x" by (intro bin_exp_less)
  show ?thesis
    by (rule rnd_pos_exact [OF pos, of "rne (x / 2 powi (bin_exp x - 52))" "bin_exp x - 52"])
      (use b in \<open>simp_all add: rnd_pos_def Let_def\<close>)
qed

lemma rnd64_idem [simp]: "rnd64 (rnd64 x) = rnd64 x"
  using rnd_pos_idem [of x] rnd_pos_idem [of "- x"] rnd_pos_pos [of x] rnd_pos_pos [of "- x"]
  by (auto simp: rnd64_def)

lemma bin_exp_le: "0 < x \<Longrightarrow> x < 2 ^ Suc n \<Longrightarrow> bin_exp x \<le> int n"
proof (rule ccontr)
  assume a: "0 < x" "x < 2 ^ Suc n" "\<not> bin_exp x \<le> int n"
  then have "int (Suc n) \<le> bin_exp x" by simp
  then have "(2::rat) powi int (Suc n) \<le> 2 powi bin_exp x" by (rule power_int_increasing) simp_all
  then have "2 ^ Suc n \<le> (2::rat) powi bin_exp x" by (simp only: power_int_of_nat)
  with bin_exp_bounds(1) [OF a(1)] a(2) show False by linarith
qed

lemma rnd_pos_of_int:
  assumes "0 < n" "n \<le> 2 ^ 53"
  shows "rnd_pos (of_int n) = of_int n"
proof (cases "n = 2 ^ 53")
  case True
  have "bin_exp (2 ^ 53) \<le> int 53" by (rule bin_exp_le) simp_all
  then show ?thesis using True by (intro rnd_pos_exact [of _ "2 ^ 52" 1]) simp_all
next
  case False
  with assms have "n < 2 ^ 53" by simp
  then have "(of_int n :: rat) < of_int (2 ^ 53)" by (simp only: of_int_less_iff)
  then have "bin_exp (of_int n) \<le> int 52" using assms by (intro bin_exp_le) simp_all
  then show ?thesis using assms by (intro rnd_pos_exact [of _ n 0]) simp_all
qed

lemma rnd64_of_int: "\<bar>n\<bar> \<le> 2 ^ 53 \<Longrightarrow> rnd64 (of_int n) = of_int n"
  using rnd_pos_of_int [of n] rnd_pos_of_int [of "- n"] by (auto simp: rnd64_def)

lemma rnd64_numeral [simp]: "numeral w \<le> (2 ^ 53 :: int) \<Longrightarrow> rnd64 (numeral w) = numeral w"
  using rnd64_of_int [of "numeral w"] by simp

lemma rnd64_one [simp]: "rnd64 1 = 1"
  using rnd64_of_int [of 1] by simp

section \<open>The interface to rounding\<close>

text \<open>What the scheduler's arithmetic relies on.\<close>

locale fp_rounding =
  fixes rnd :: "rat \<Rightarrow> rat" and eps :: rat
  assumes eps_nonneg: "0 \<le> eps"
    and rnd_zero: "rnd 0 = 0"
    and rnd_mono: "x \<le> y \<Longrightarrow> rnd x \<le> rnd y"
    and rnd_error: "\<bar>rnd x - x\<bar> \<le> \<bar>x\<bar> * eps"
begin

lemma rnd_nonneg: "0 \<le> x \<Longrightarrow> 0 \<le> rnd x"
  using rnd_mono [of 0 x] by (simp add: rnd_zero)

lemma rnd_upper: "0 \<le> x \<Longrightarrow> rnd x \<le> x * (1 + eps)"
  using rnd_error [of x] by (simp add: algebra_simps)

lemma rnd_upper_le:
  assumes "0 \<le> x" "x \<le> y"
  shows "rnd x \<le> x + y * eps"
proof -
  have "rnd x \<le> x + x * eps" using rnd_upper [OF assms(1)] by (simp add: algebra_simps)
  moreover have "x * eps \<le> y * eps" using assms(2) eps_nonneg by (rule mult_right_mono)
  ultimately show ?thesis by linarith
qed

end

definition eps64 :: rat where
  "eps64 = 1 / 2 ^ 53"

interpretation fp64: fp_rounding rnd64 eps64
proof unfold_locales
  show "0 \<le> eps64" by (simp add: eps64_def)
  show "rnd64 0 = 0" by simp
  show "x \<le> y \<Longrightarrow> rnd64 x \<le> rnd64 y" for x y by (rule rnd64_mono)
  show "\<bar>rnd64 x - x\<bar> \<le> \<bar>x\<bar> * eps64" for x using rnd64_error [of x] by (simp add: eps64_def)
qed

end
