(* ===== verification/Book_Side.thy ===== *)
theory Book_Side
  imports Doubles
begin

text \<open>
  One side of one order book: \<open>PriceLevel\<close>, \<open>Side\<close> and its operations, \<open>Book\<close> and
  \<open>applyLevels\<close> of \<open>cpp/include/order_book_manager.hpp\<close>.

  A side is a vector of levels sorted worst to best, and a horizon: the exchange may have levels
  worse than the horizon that the side does not know. \<open>side_wf\<close> is the representation invariant,
  \<open>side_view\<close> the map from price to quantity a side stands for, and \<open>sees\<close> says that a side agrees
  with the exchange's complete side \<open>M\<close> on every price inside its horizon. Every operation keeps
  both, so what the side knows stays exact although it never sees the whole book.

  The locale \<open>tracked_side\<close> is the interface the book uses: a step that keeps the invariant and
  follows the exchange, lifted once to lists of updates and interpreted for bids and asks.
\<close>

section \<open>Levels and sides\<close>

record PriceLevel =
  price :: double
  qty :: double

definition isEmpty :: "PriceLevel \<Rightarrow> bool" where
  "isEmpty l \<longleftrightarrow> feq (price l) 0 \<and> feq (qty l) 0"

text \<open>\<open>better isBid a b\<close>: price \<open>a\<close> is strictly better than price \<open>b\<close> on this side.\<close>

definition better :: "bool \<Rightarrow> double \<Rightarrow> double \<Rightarrow> bool" where
  "better isBid a b = (if isBid then flt b a else flt a b)"

record Side =
  levels :: "PriceLevel list"
  bounded :: bool
  horizon :: double

definition emptySide :: Side where
  "emptySide = \<lparr>levels = [], bounded = False, horizon = 0\<rparr>"

definition below :: "nat \<Rightarrow> Side \<Rightarrow> bool" where
  "below n s \<longleftrightarrow> bounded s \<and> length (levels s) < n"

definition inHorizon :: "bool \<Rightarrow> double \<Rightarrow> Side \<Rightarrow> bool" where
  "inHorizon isBid p s \<longleftrightarrow> \<not> bounded s \<or> \<not> better isBid (horizon s) p"

definition trim :: "nat \<Rightarrow> Side \<Rightarrow> Side" where
  "trim maxLevels s =
     (if length (levels s) \<le> maxLevels then s
      else let ls = last_n maxLevels (levels s)
           in \<lparr>levels = ls, bounded = True, horizon = price (hd ls)\<rparr>)"

text \<open>
  \<open>std::sort\<close> with the comparator "the price of \<open>b\<close> is better than the price of \<open>a\<close>". The standard
  leaves the order of equivalent levels open; the model keeps their order. A snapshot with distinct
  prices has only one sorted order.
\<close>

fun insert_level :: "bool \<Rightarrow> PriceLevel \<Rightarrow> PriceLevel list \<Rightarrow> PriceLevel list" where
  "insert_level isBid l [] = [l]"
| "insert_level isBid l (m # ms) =
     (if better isBid (price l) (price m) then m # insert_level isBid l ms else l # m # ms)"

definition sort_levels :: "bool \<Rightarrow> PriceLevel list \<Rightarrow> PriceLevel list" where
  "sort_levels isBid ls = foldr (insert_level isBid) ls []"

definition load :: "bool \<Rightarrow> PriceLevel list \<Rightarrow> nat \<Rightarrow> nat \<Rightarrow> Side" where
  "load isBid snapshot snapshotLimit maxLevels =
     (let ls = sort_levels isBid (filter (\<lambda>l. flt 0 (qty l)) snapshot);
          b = (snapshotLimit \<le> length snapshot);
          h = (if b \<and> ls \<noteq> [] then price (hd ls) else 0)
      in trim maxLevels \<lparr>levels = ls, bounded = (if ls = [] then False else b), horizon = h\<rparr>)"

text \<open>
  \<open>std::lower_bound\<close> finds the first level that is not worse than the updated price: the levels
  before it are \<open>worse\<close>, the rest is \<open>rest\<close>.
\<close>

definition update :: "bool \<Rightarrow> PriceLevel \<Rightarrow> nat \<Rightarrow> Side \<Rightarrow> Side" where
  "update isBid u maxLevels s =
     (let worse = takeWhile (\<lambda>l. better isBid (price u) (price l)) (levels s);
          rest = dropWhile (\<lambda>l. better isBid (price u) (price l)) (levels s);
          found = (rest \<noteq> [] \<and> feq (price (hd rest)) (price u))
      in if feq (qty u) 0
         then (if found then s\<lparr>levels := worse @ tl rest\<rparr> else s)
         else if found then s\<lparr>levels := worse @ (hd rest)\<lparr>qty := qty u\<rparr> # tl rest\<rparr>
         else if \<not> inHorizon isBid (price u) s then s
         else trim maxLevels (s\<lparr>levels := worse @ u # rest\<rparr>))"

record Book =
  bid :: Side
  ask :: Side

definition emptyBook :: Book where
  "emptyBook = \<lparr>bid = emptySide, ask = emptySide\<rparr>"

definition side_updates :: "bool \<Rightarrow> nat \<Rightarrow> PriceLevel list \<Rightarrow> Side \<Rightarrow> Side" where
  "side_updates isBid maxLevels us s = foldl (\<lambda>s u. update isBid u maxLevels s) s us"

definition applyLevels :: "nat \<Rightarrow> Book \<Rightarrow> PriceLevel list \<Rightarrow> PriceLevel list \<Rightarrow> Book" where
  "applyLevels maxLevels b bidUpdates askUpdates =
     \<lparr>bid = side_updates True maxLevels bidUpdates (bid b),
      ask = side_updates False maxLevels askUpdates (ask b)\<rparr>"

section \<open>The order of a side\<close>

lemma better_irrefl [simp]: "\<not> better isBid p p"
  by (simp add: better_def flt_def)

lemma better_trans: "better isBid a b \<Longrightarrow> better isBid b c \<Longrightarrow> better isBid a c"
  by (auto simp: better_def flt_def split: if_splits)

lemma better_asym: "better isBid a b \<Longrightarrow> \<not> better isBid b a"
  by (auto simp: better_def flt_def split: if_splits)

lemma better_total: "a \<noteq> NaN \<Longrightarrow> b \<noteq> NaN \<Longrightarrow> a \<noteq> b \<Longrightarrow> better isBid a b \<or> better isBid b a"
  by (auto simp: better_def flt_def)

lemma better_num: "better isBid a b \<Longrightarrow> a \<noteq> NaN \<and> b \<noteq> NaN"
  by (auto simp: better_def flt_def split: if_splits)

lemma not_better_trans:
  assumes "b \<noteq> NaN" "c \<noteq> NaN" "\<not> better isBid a b" "\<not> better isBid b c"
  shows "\<not> better isBid a c"
  using assms by (auto simp: better_def flt_def split: if_splits)

text \<open>The vector's order: strictly worse prices first.\<close>

definition side_sorted :: "bool \<Rightarrow> PriceLevel list \<Rightarrow> bool" where
  "side_sorted isBid ls \<longleftrightarrow> sorted_wrt (\<lambda>a b. better isBid (price b) (price a)) ls"

definition side_wf :: "bool \<Rightarrow> nat \<Rightarrow> Side \<Rightarrow> bool" where
  "side_wf isBid maxLevels s \<longleftrightarrow>
     side_sorted isBid (levels s) \<and>
     (\<forall>l \<in> set (levels s). price l \<noteq> NaN \<and> qty l \<noteq> 0) \<and>
     length (levels s) \<le> maxLevels \<and>
     (bounded s \<longrightarrow> horizon s \<noteq> NaN \<and>
        (\<forall>l \<in> set (levels s). \<not> better isBid (horizon s) (price l)))"

text \<open>What a side stands for: the quantity at each price it knows.\<close>

definition level_map :: "PriceLevel list \<Rightarrow> double \<rightharpoonup> double" where
  "level_map ls = map_of (map (\<lambda>l. (price l, qty l)) ls)"

definition side_view :: "Side \<Rightarrow> double \<rightharpoonup> double" where
  "side_view s = level_map (levels s)"

text \<open>A side agrees with the exchange's complete side \<open>M\<close> inside its horizon and knows nothing beyond it.\<close>

definition sees :: "bool \<Rightarrow> Side \<Rightarrow> (double \<rightharpoonup> double) \<Rightarrow> bool" where
  "sees isBid s M \<longleftrightarrow>
     (\<forall>p. p \<noteq> NaN \<longrightarrow> side_view s p = (if inHorizon isBid p s then M p else None))"

text \<open>What one update does to the exchange's side: the quantity is absolute, zero removes the level.\<close>

definition truth_update :: "(double \<rightharpoonup> double) \<Rightarrow> PriceLevel \<Rightarrow> (double \<rightharpoonup> double)" where
  "truth_update M u = M(price u := (if qty u = 0 then None else Some (qty u)))"

definition level_ok :: "PriceLevel \<Rightarrow> bool" where
  "level_ok u \<longleftrightarrow> price u \<noteq> NaN"

section \<open>Level maps\<close>

lemma level_map_Nil [simp]: "level_map [] = Map.empty"
  by (simp add: level_map_def)

lemma level_map_Cons [simp]: "level_map (l # ls) = (level_map ls)(price l \<mapsto> qty l)"
  by (simp add: level_map_def)

lemma level_map_append [simp]: "level_map (xs @ ys) = level_map ys ++ level_map xs"
  by (simp add: level_map_def)

lemma level_map_None: "(\<And>l. l \<in> set ls \<Longrightarrow> price l \<noteq> p) \<Longrightarrow> level_map ls p = None"
  by (induction ls) auto

lemma level_map_SomeD: "level_map ls p = Some q \<Longrightarrow> \<exists>l \<in> set ls. price l = p \<and> qty l = q"
  by (induction ls) (auto split: if_splits)

lemma side_sorted_Cons:
  "side_sorted isBid (l # ls) \<longleftrightarrow> (\<forall>m \<in> set ls. better isBid (price m) (price l)) \<and> side_sorted isBid ls"
  by (simp add: side_sorted_def)

lemma side_sorted_append:
  "side_sorted isBid (xs @ ys) \<longleftrightarrow> side_sorted isBid xs \<and> side_sorted isBid ys \<and>
     (\<forall>x \<in> set xs. \<forall>y \<in> set ys. better isBid (price y) (price x))"
  by (simp add: side_sorted_def sorted_wrt_append)

lemmas side_sorted_simps = side_sorted_Cons side_sorted_append

lemma level_map_in:
  assumes "side_sorted isBid ls" "l \<in> set ls"
  shows "level_map ls (price l) = Some (qty l)"
  using assms by (induction ls) (auto simp: side_sorted_Cons)

section \<open>The position of an update\<close>

text \<open>
  A sorted side splits at the updated price: the levels before it are worse, those after it are
  better, and the price itself is there or not.
\<close>

lemma split_at_price:
  assumes "side_sorted isBid ls" "\<forall>l \<in> set ls. price l \<noteq> NaN" "p \<noteq> NaN"
  obtains (found) worse r rs where "ls = worse @ r # rs" "price r = p"
      "takeWhile (\<lambda>l. better isBid p (price l)) ls = worse"
      "dropWhile (\<lambda>l. better isBid p (price l)) ls = r # rs"
      "\<And>l. l \<in> set worse \<Longrightarrow> better isBid p (price l)"
      "\<And>l. l \<in> set rs \<Longrightarrow> better isBid (price l) p"
    | (absent) worse rest where "ls = worse @ rest"
      "takeWhile (\<lambda>l. better isBid p (price l)) ls = worse"
      "dropWhile (\<lambda>l. better isBid p (price l)) ls = rest"
      "\<And>l. l \<in> set worse \<Longrightarrow> better isBid p (price l)"
      "\<And>l. l \<in> set rest \<Longrightarrow> better isBid (price l) p"
proof -
  let ?P = "\<lambda>l. better isBid p (price l)"
  define worse where "worse = takeWhile ?P ls"
  define rest where "rest = dropWhile ?P ls"
  have ls: "ls = worse @ rest" by (simp add: worse_def rest_def)
  have w: "better isBid p (price l)" if "l \<in> set worse" for l
    using that by (auto simp: worse_def dest: set_takeWhileD)
  have tw: "takeWhile ?P ls = worse" and dw: "dropWhile ?P ls = rest"
    by (simp_all only: worse_def rest_def)
  show thesis
  proof (cases rest)
    case Nil
    show thesis by (rule absent [OF ls tw dw w]) (simp_all add: Nil)
  next
    case (Cons r rs)
    then have nr: "\<not> ?P r" using hd_dropWhile [of ?P ls] dw by simp
    have num: "price r \<noteq> NaN" using assms(2) ls Cons by simp
    have rs: "better isBid (price l) (price r)" if "l \<in> set rs" for l
      using assms(1) that by (simp add: ls Cons side_sorted_simps)
    show thesis
    proof (cases "price r = p")
      case True
      show thesis by (rule found [of worse r rs]) (use True ls tw dw w rs Cons in simp_all)
    next
      case False
      then have r: "better isBid (price r) p" using nr num assms(3) better_total by blast
      have "better isBid (price l) p" if "l \<in> set rest" for l
        using that r rs better_trans unfolding Cons by (metis set_ConsD)
      note r' = this
      show thesis by (rule absent [OF ls tw dw w r'])
    qed
  qed
qed

section \<open>Trimming\<close>

text \<open>The invariant but for the length, which trimming restores.\<close>

definition side_pre :: "bool \<Rightarrow> Side \<Rightarrow> bool" where
  "side_pre isBid s \<longleftrightarrow>
     side_sorted isBid (levels s) \<and> (\<forall>l \<in> set (levels s). price l \<noteq> NaN \<and> qty l \<noteq> 0) \<and>
     (bounded s \<longrightarrow> horizon s \<noteq> NaN \<and> (\<forall>l \<in> set (levels s). \<not> better isBid (horizon s) (price l)))"

lemma side_wf_pre: "side_wf isBid n s \<longleftrightarrow> side_pre isBid s \<and> length (levels s) \<le> n"
  by (auto simp: side_wf_def side_pre_def)

lemma trim_cut:
  assumes "n < length (levels s)" "0 < n"
  obtains pre k ks where "levels s = pre @ k # ks" "last_n n (levels s) = k # ks"
    "trim n s = \<lparr>levels = k # ks, bounded = True, horizon = price k\<rparr>"
proof -
  obtain pre where pre: "levels s = pre @ last_n n (levels s)" using last_n_split by blast
  have "last_n n (levels s) \<noteq> []" using assms by (metis length_last_n length_greater_0_conv min_less_iff_conj order_less_trans)
  then obtain k ks where "last_n n (levels s) = k # ks" by (meson neq_Nil_conv)
  with pre assms show thesis by (intro that [of pre k ks]) (auto simp: trim_def)
qed

lemma trim_wf:
  assumes "side_pre isBid s" "0 < n"
  shows "side_wf isBid n (trim n s)"
proof (cases "length (levels s) \<le> n")
  case True
  with assms show ?thesis by (simp add: side_wf_pre trim_def)
next
  case False
  then obtain pre k ks where e: "levels s = pre @ k # ks" "last_n n (levels s) = k # ks"
      and t: "trim n s = \<lparr>levels = k # ks, bounded = True, horizon = price k\<rparr>"
    using trim_cut assms(2) by (metis not_le)
  have "length (k # ks) \<le> n" using e(2) by (metis length_last_n min.cobounded1)
  with assms(1) show ?thesis
    by (auto simp: t side_wf_def side_pre_def e(1) side_sorted_simps dest: better_asym)
qed

lemma trim_sees:
  assumes pre: "side_pre isBid s" and n: "0 < n" and sees: "sees isBid s M"
  shows "sees isBid (trim n s) M"
proof (cases "length (levels s) \<le> n")
  case True
  with sees show ?thesis by (simp add: trim_def)
next
  case False
  then obtain xs k ks where e: "levels s = xs @ k # ks"
      and t: "trim n s = \<lparr>levels = k # ks, bounded = True, horizon = price k\<rparr>"
    using trim_cut n by (metis not_le)
  have ks: "better isBid (price l) (price k)" if "l \<in> set ks" for l
    using pre that by (simp add: side_pre_def e side_sorted_simps)
  have xs: "better isBid (price k) (price l)" if "l \<in> set xs" for l
    using pre that by (simp add: side_pre_def e side_sorted_simps)
  show ?thesis unfolding sees_def
  proof (intro allI impI)
    fix p :: double assume p: "p \<noteq> NaN"
    show "side_view (trim n s) p = (if inHorizon isBid p (trim n s) then M p else None)"
    proof (cases "better isBid (price k) p")
      case True
      then have "better isBid (price l) p" if "l \<in> set (k # ks)" for l
        using that ks True better_trans by (metis set_ConsD)
      then have "level_map (k # ks) p = None"
        by (intro level_map_None) (metis better_irrefl)
      with True show ?thesis by (simp add: t side_view_def inHorizon_def)
    next
      case False
      then have "level_map xs p = None" by (intro level_map_None) (metis xs)
      then have "side_view (trim n s) p = side_view s p"
        by (simp add: t side_view_def e map_add_def)
      moreover have "inHorizon isBid p s"
      proof (cases "bounded s")
        case True
        then have "\<not> better isBid (horizon s) (price k)" using pre by (simp add: side_pre_def e)
        moreover have "price k \<noteq> NaN" using pre by (simp add: side_pre_def e)
        ultimately show ?thesis using False p not_better_trans by (metis inHorizon_def)
      qed (simp add: inHorizon_def)
      ultimately show ?thesis using sees p False by (simp add: sees_def t inHorizon_def)
    qed
  qed
qed

section \<open>Updating a level\<close>

text \<open>The three shapes of an update, with the position made explicit.\<close>

lemma update_shape:
  assumes wf: "side_pre isBid s" and ok: "level_ok u"
  obtains (found) worse r rs where "levels s = worse @ r # rs" "price r = price u"
      "update isBid u n s = s\<lparr>levels := worse @ (if qty u = 0 then rs else r\<lparr>qty := qty u\<rparr> # rs)\<rparr>"
      "\<And>l. l \<in> set worse \<Longrightarrow> better isBid (price u) (price l)"
      "\<And>l. l \<in> set rs \<Longrightarrow> better isBid (price l) (price u)"
    | (skip) "update isBid u n s = s" "\<And>l. l \<in> set (levels s) \<Longrightarrow> price l \<noteq> price u"
      "qty u = 0 \<or> \<not> inHorizon isBid (price u) s"
    | (add) worse rest where "levels s = worse @ rest"
      "update isBid u n s = trim n (s\<lparr>levels := worse @ u # rest\<rparr>)"
      "qty u \<noteq> 0" "inHorizon isBid (price u) s"
      "\<And>l. l \<in> set worse \<Longrightarrow> better isBid (price u) (price l)"
      "\<And>l. l \<in> set rest \<Longrightarrow> better isBid (price l) (price u)"
proof -
  have srt: "side_sorted isBid (levels s)" and num: "\<forall>l \<in> set (levels s). price l \<noteq> NaN"
    using wf by (simp_all add: side_pre_def)
  have u: "price u \<noteq> NaN" using ok by (simp add: level_ok_def)
  show thesis
  proof (cases rule: split_at_price [OF srt num u, case_names found absent])
    case (found worse r rs)
    have "feq (price r) (price u)" using found(2) u by (simp add: feq_def)
    then have "update isBid u n s = s\<lparr>levels := worse @ (if qty u = 0 then rs else r\<lparr>qty := qty u\<rparr> # rs)\<rparr>"
      by (simp add: update_def found(3,4))
    then show thesis by (rule that(1) [OF found(1,2) _ found(5,6)])
  next
    case (absent worse rest)
    have ne: "price l \<noteq> price u" if "l \<in> set (levels s)" for l
      using that absent(1,4,5) by (metis Un_iff better_irrefl set_append)
    have nf: "\<not> (rest \<noteq> [] \<and> feq (price (hd rest)) (price u))"
      using absent(5) by (metis better_irrefl feq_def hd_in_set)
    show thesis
    proof (cases "qty u = 0 \<or> \<not> inHorizon isBid (price u) s")
      case True
      then have "update isBid u n s = s"
        using nf by (auto simp: update_def absent(2,3))
      then show thesis using ne True by (rule that(2))
    next
      case False
      then have "update isBid u n s = trim n (s\<lparr>levels := worse @ u # rest\<rparr>)"
        using nf by (auto simp: update_def absent(2,3))
      then show thesis using False absent(1,4,5) by (intro that(3)) auto
    qed
  qed
qed

lemma add_pre:
  assumes "side_pre isBid s" "level_ok u" "levels s = worse @ rest" "qty u \<noteq> 0"
    "inHorizon isBid (price u) s"
    "\<And>l. l \<in> set worse \<Longrightarrow> better isBid (price u) (price l)"
    "\<And>l. l \<in> set rest \<Longrightarrow> better isBid (price l) (price u)"
  shows "side_pre isBid (s\<lparr>levels := worse @ u # rest\<rparr>)"
  using assms better_trans
  by (auto simp: side_pre_def level_ok_def side_sorted_simps inHorizon_def)

lemma update_wf:
  assumes wf: "side_wf isBid n s" and ok: "level_ok u" and n: "0 < n"
  shows "side_wf isBid n (update isBid u n s)"
proof -
  have pre: "side_pre isBid s" and len: "length (levels s) \<le> n"
    using wf by (simp_all add: side_wf_pre)
  show ?thesis
  proof (cases rule: update_shape [OF pre ok, of n, case_names found skip add])
    case (found worse r rs)
    then show ?thesis using pre len
      by (auto simp: side_wf_pre side_pre_def side_sorted_simps)
  next
    case skip
    then show ?thesis using wf by simp
  next
    case (add worse rest)
    have "side_pre isBid (s\<lparr>levels := worse @ u # rest\<rparr>)"
      by (rule add_pre [OF pre ok add(1,3,4,5,6)])
    then show ?thesis unfolding add(2) using n by (rule trim_wf)
  qed
qed

text \<open>Every known level lies inside the horizon, so an update at a known price is never dropped.\<close>

lemma known_in_horizon: "side_pre isBid s \<Longrightarrow> l \<in> set (levels s) \<Longrightarrow> inHorizon isBid (price l) s"
  by (auto simp: side_pre_def inHorizon_def)

lemma update_sees:
  assumes wf: "side_wf isBid n s" and ok: "level_ok u" and n: "0 < n" and sees: "sees isBid s M"
  shows "sees isBid (update isBid u n s) (truth_update M u)"
proof -
  have pre: "side_pre isBid s" using wf by (simp add: side_wf_pre)
  show ?thesis
  proof (cases rule: update_shape [OF pre ok, of n, case_names found skip add])
    case (found worse r rs)
    have h: "inHorizon isBid (price u) s"
      using known_in_horizon [OF pre, of r] found(1,2) by simp
    have none: "level_map worse (price u) = None" "level_map rs (price u) = None"
      using found(4,5) by (intro level_map_None; metis better_irrefl)+
    have "side_view (update isBid u n s) = (side_view s)(price u := (if qty u = 0 then None else Some (qty u)))"
      using none unfolding found(3) side_view_def found(1)
      by (auto simp: found(2) fun_eq_iff map_add_def split: option.splits)
    then show ?thesis using sees h
      by (auto simp: sees_def truth_update_def found(3) inHorizon_def)
  next
    case skip
    have "side_view s (price u) = None"
      unfolding side_view_def by (intro level_map_None skip(2))
    then show ?thesis using sees skip(1,3) ok
      by (auto simp: sees_def truth_update_def level_ok_def)
  next
    case (add worse rest)
    let ?t = "s\<lparr>levels := worse @ u # rest\<rparr>"
    have none: "level_map worse (price u) = None" "level_map rest (price u) = None"
      using add(5,6) by (intro level_map_None; metis better_irrefl)+
    have "side_view ?t = (side_view s)(price u \<mapsto> qty u)"
      using none by (auto simp: side_view_def add(1) fun_eq_iff map_add_def split: option.splits)
    then have "sees isBid ?t (truth_update M u)"
      using sees add(3,4) by (auto simp: sees_def truth_update_def inHorizon_def)
    moreover have "side_pre isBid ?t" by (rule add_pre [OF pre ok add(1,3,4,5,6)])
    ultimately show ?thesis unfolding add(2) using n by (intro trim_sees)
  qed
qed

section \<open>Lists of updates, for any tracked side\<close>

text \<open>
  The contract between a side and the book that owns it: a step keeps the invariant, and keeps
  the agreement with a truth that makes the same step. The book needs it for whole lists of updates.
\<close>

locale tracked_side =
  fixes wf :: "'s \<Rightarrow> bool"
    and agrees :: "'s \<Rightarrow> 'm \<Rightarrow> bool"
    and ok :: "'u \<Rightarrow> bool"
    and step :: "'s \<Rightarrow> 'u \<Rightarrow> 's"
    and truth :: "'m \<Rightarrow> 'u \<Rightarrow> 'm"
  assumes step_wf: "wf s \<Longrightarrow> ok u \<Longrightarrow> wf (step s u)"
    and step_agrees: "wf s \<Longrightarrow> ok u \<Longrightarrow> agrees s M \<Longrightarrow> agrees (step s u) (truth M u)"
begin

lemma steps_wf: "wf s \<Longrightarrow> list_all ok us \<Longrightarrow> wf (foldl step s us)"
  by (induction us arbitrary: s) (auto simp: step_wf)

lemma steps_agree: "wf s \<Longrightarrow> list_all ok us \<Longrightarrow> agrees s M \<Longrightarrow> agrees (foldl step s us) (foldl truth M us)"
  by (induction us arbitrary: s M) (auto simp: step_wf step_agrees)

end

definition truth_updates :: "(double \<rightharpoonup> double) \<Rightarrow> PriceLevel list \<Rightarrow> (double \<rightharpoonup> double)" where
  "truth_updates M us = foldl truth_update M us"

text \<open>A capped side: the cap goes with the invariant, since the code passes it to every update.\<close>

definition capped :: "nat \<Rightarrow> bool \<Rightarrow> Side \<Rightarrow> bool" where
  "capped n isBid s \<longleftrightarrow> 0 < n \<and> side_wf isBid n s"

interpretation bid_side: tracked_side "capped n True" "sees True" level_ok
    "\<lambda>s u. update True u n s" truth_update for n
  by unfold_locales (auto simp: capped_def update_wf update_sees)

interpretation ask_side: tracked_side "capped n False" "sees False" level_ok
    "\<lambda>s u. update False u n s" truth_update for n
  by unfold_locales (auto simp: capped_def update_wf update_sees)

definition levels_ok :: "PriceLevel list \<Rightarrow> bool" where
  "levels_ok us \<longleftrightarrow> list_all level_ok us"

definition book_wf :: "nat \<Rightarrow> Book \<Rightarrow> bool" where
  "book_wf n b \<longleftrightarrow> capped n True (bid b) \<and> capped n False (ask b)"

type_synonym exchange_book = "(double \<rightharpoonup> double) \<times> (double \<rightharpoonup> double)"

definition book_sees :: "Book \<Rightarrow> exchange_book \<Rightarrow> bool" where
  "book_sees b X \<longleftrightarrow> sees True (bid b) (fst X) \<and> sees False (ask b) (snd X)"

lemma applyLevels_wf:
  "book_wf n b \<Longrightarrow> levels_ok bs \<Longrightarrow> levels_ok as \<Longrightarrow> book_wf n (applyLevels n b bs as)"
  using bid_side.steps_wf [of n "bid b" bs] ask_side.steps_wf [of n "ask b" as]
  by (simp add: book_wf_def applyLevels_def side_updates_def levels_ok_def)

lemma applyLevels_sees:
  "book_wf n b \<Longrightarrow> levels_ok bs \<Longrightarrow> levels_ok as \<Longrightarrow> book_sees b X \<Longrightarrow>
     book_sees (applyLevels n b bs as) (truth_updates (fst X) bs, truth_updates (snd X) as)"
  using bid_side.steps_agree [of n "bid b" bs "fst X"] ask_side.steps_agree [of n "ask b" as "snd X"]
  by (simp add: book_wf_def book_sees_def applyLevels_def side_updates_def levels_ok_def truth_updates_def)

lemma emptyBook_wf: "0 < n \<Longrightarrow> book_wf n emptyBook"
  by (simp add: book_wf_def capped_def emptyBook_def emptySide_def side_wf_def side_sorted_def)

section \<open>Snapshots and the top of the book\<close>

text \<open>
  \<open>top_levels isBid n M L\<close>: \<open>L\<close> is the best \<open>n\<close> levels of \<open>M\<close>, best first, or all of them when there
  are fewer. A REST snapshot of a side is \<open>top_levels\<close> at its limit; a published quote must be
  \<open>top_levels\<close> at the published depth.
\<close>

definition top_levels :: "bool \<Rightarrow> nat \<Rightarrow> (double \<rightharpoonup> double) \<Rightarrow> PriceLevel list \<Rightarrow> bool" where
  "top_levels isBid n M L \<longleftrightarrow>
     length L \<le> n \<and>
     sorted_wrt (\<lambda>a b. better isBid (price a) (price b)) L \<and>
     (\<forall>l \<in> set L. price l \<noteq> NaN \<and> M (price l) = Some (qty l)) \<and>
     (\<forall>p. p \<noteq> NaN \<and> M p \<noteq> None \<and> p \<notin> price ` set L \<longrightarrow>
        length L = n \<and> (\<forall>l \<in> set L. better isBid (price l) p))"

lemma set_insert_level [simp]: "set (insert_level isBid l ms) = insert l (set ms)"
  by (induction ms) auto

lemma insert_level_sorted:
  assumes "side_sorted isBid ms" "price l \<noteq> NaN" "\<forall>m \<in> set ms. price m \<noteq> NaN \<and> price m \<noteq> price l"
  shows "side_sorted isBid (insert_level isBid l ms)"
  using assms
proof (induction ms)
  case Nil
  then show ?case by (simp add: side_sorted_def)
next
  case (Cons m ms)
  show ?case
  proof (cases "better isBid (price l) (price m)")
    case True
    with Cons show ?thesis by (auto simp: side_sorted_Cons)
  next
    case False
    with Cons.prems have "better isBid (price m) (price l)"
      by (metis better_total list.set_intros(1))
    with False Cons.prems better_trans show ?thesis by (auto simp: side_sorted_Cons)
  qed
qed

lemma set_sort_levels [simp]: "set (sort_levels isBid ls) = set ls"
  by (induction ls) (auto simp: sort_levels_def)

lemma sort_levels_sorted:
  "distinct (map price ls) \<Longrightarrow> \<forall>l \<in> set ls. price l \<noteq> NaN \<Longrightarrow> side_sorted isBid (sort_levels isBid ls)"
proof (induction ls)
  case Nil
  then show ?case by (simp add: sort_levels_def side_sorted_def)
next
  case (Cons l ls)
  then have "side_sorted isBid (insert_level isBid l (sort_levels isBid ls))"
    by (intro insert_level_sorted) (auto simp: image_iff)
  then show ?case by (simp add: sort_levels_def)
qed

lemma best_first_distinct: "sorted_wrt (\<lambda>a b. better isBid (price a) (price b)) L \<Longrightarrow> distinct (map price L)"
proof (induction L)
  case (Cons a L)
  then have "price a \<notin> price ` set L" by (metis better_irrefl imageE sorted_wrt.simps(2))
  with Cons show ?case by simp
qed simp

lemma top_levels_distinct: "top_levels isBid n M L \<Longrightarrow> distinct (map price L)"
  by (rule best_first_distinct [of isBid]) (simp add: top_levels_def)

lemma side_sorted_hd:
  "side_sorted isBid ls \<Longrightarrow> l \<in> set ls \<Longrightarrow> price l = price (hd ls) \<or> better isBid (price l) (price (hd ls))"
  by (cases ls) (auto simp: side_sorted_Cons)

text \<open>The invariant of a loaded side, for any snapshot without repeated or NaN prices.\<close>

lemma load_wf:
  assumes "distinct (map price snap)" "\<forall>l \<in> set snap. price l \<noteq> NaN" "0 < n"
  shows "side_wf isBid n (load isBid snap limit n)"
proof -
  let ?ls = "sort_levels isBid (filter (\<lambda>l. flt 0 (qty l)) snap)"
  have srt: "side_sorted isBid ?ls"
    using assms by (intro sort_levels_sorted) (auto simp: distinct_map_filter)
  have "\<not> better isBid (price (hd ?ls)) (price l)" if "l \<in> set ?ls" for l
    using side_sorted_hd [OF srt that] by (metis better_irrefl better_asym)
  moreover have "?ls \<noteq> [] \<Longrightarrow> price (hd ?ls) \<noteq> NaN"
    using assms(2) hd_in_set [of ?ls] by (metis filter_is_subset set_sort_levels subsetD)
  moreover have "qty l \<noteq> 0" if "l \<in> set ?ls" for l
    using that by (auto simp: flt_def)
  ultimately show ?thesis unfolding load_def Let_def
    by (intro trim_wf [OF _ assms(3)]) (use srt assms(2) in \<open>auto simp: side_pre_def\<close>)
qed

text \<open>A snapshot that lists the best levels of the exchange's side loads to a side that agrees with it.\<close>

lemma load_sees:
  assumes top: "top_levels isBid limit M snap" and pos: "\<forall>l \<in> set snap. flt 0 (qty l)"
    and lim: "0 < limit" and n: "0 < n"
  shows "sees isBid (load isBid snap limit n) M"
proof -
  let ?ls = "sort_levels isBid snap"
  let ?b = "?ls \<noteq> [] \<and> limit \<le> length snap"
  let ?s = "\<lparr>levels = ?ls, bounded = ?b, horizon = (if ?b then price (hd ?ls) else 0)\<rparr>"
  have num: "\<forall>l \<in> set snap. price l \<noteq> NaN" and M: "\<forall>l \<in> set snap. M (price l) = Some (qty l)"
    and rest: "\<And>p. p \<noteq> NaN \<Longrightarrow> M p \<noteq> None \<Longrightarrow> p \<notin> price ` set snap \<Longrightarrow>
       length snap = limit \<and> (\<forall>l \<in> set snap. better isBid (price l) p)"
    using top by (simp_all add: top_levels_def)
  have srt: "side_sorted isBid ?ls"
    by (rule sort_levels_sorted [OF top_levels_distinct [OF top] num])
  have hd: "?ls \<noteq> [] \<Longrightarrow> hd ?ls \<in> set snap" using hd_in_set [of ?ls] by simp
  have worst: "\<not> better isBid (price (hd ?ls)) (price l)" if "l \<in> set snap" for l
    using side_sorted_hd [OF srt, of l] that by (metis better_irrefl better_asym set_sort_levels)
  have pre: "side_pre isBid ?s"
    using srt num pos worst hd by (auto simp: side_pre_def flt_def)
  have "sees isBid ?s M" unfolding sees_def
  proof (intro allI impI)
    fix p :: double assume p: "p \<noteq> NaN"
    show "side_view ?s p = (if inHorizon isBid p ?s then M p else None)"
    proof (cases "p \<in> price ` set snap")
      case True
      then obtain l where l: "l \<in> set snap" "p = price l" by blast
      then have "level_map ?ls p = Some (qty l)" using level_map_in [OF srt, of l] by simp
      moreover have "inHorizon isBid p ?s" using known_in_horizon [OF pre, of l] l by simp
      ultimately show ?thesis using M l by (simp add: side_view_def)
    next
      case False
      then have none: "level_map ?ls p = None" by (intro level_map_None) auto
      have "M p = None" if "inHorizon isBid p ?s"
      proof (rule ccontr)
        assume "M p \<noteq> None"
        with rest p False have r: "length snap = limit" "\<forall>l \<in> set snap. better isBid (price l) p" by blast+
        with lim have "?ls \<noteq> []" by (metis length_greater_0_conv set_empty set_sort_levels)
        with r hd that show False by (simp add: inHorizon_def)
      qed
      with none show ?thesis by (simp add: side_view_def)
    qed
  qed
  then have "sees isBid (trim n ?s) M" by (rule trim_sees [OF pre n])
  moreover have "load isBid snap limit n = trim n ?s"
    using pos by (auto simp: load_def Let_def filter_True)
  ultimately show ?thesis by simp
qed

lemma top_levels_load_wf:
  "top_levels isBid limit M snap \<Longrightarrow> 0 < n \<Longrightarrow> side_wf isBid n (load isBid snap limit n)"
  by (rule load_wf [OF top_levels_distinct]) (auto simp: top_levels_def)

text \<open>
  The guarantee behind \<open>isValid\<close>: a side that is not \<open>below\<close> the depth holds the exchange's real
  best levels in its last \<open>n\<close> slots, although it may not know the deeper ones.
\<close>

lemma top_of_side:
  assumes wf: "side_wf isBid m s" and sees: "sees isBid s M" and full: "\<not> below n s"
  shows "top_levels isBid n M (take n (rev (levels s)))"
proof -
  let ?L = "take n (rev (levels s))"
  have srt: "side_sorted isBid (levels s)" and num: "\<forall>l \<in> set (levels s). price l \<noteq> NaN"
    using wf by (simp_all add: side_wf_def)
  have sub: "set ?L \<subseteq> set (levels s)" using set_take_subset [of n "rev (levels s)"] by simp
  have Lsrt: "sorted_wrt (\<lambda>a b. better isBid (price a) (price b)) (rev (levels s))"
    using srt by (simp add: side_sorted_def sorted_wrt_rev)
  have inM: "M (price l) = Some (qty l)" if "l \<in> set (levels s)" for l
  proof -
    have "side_view s (price l) = Some (qty l)" using level_map_in [OF srt that] by (simp add: side_view_def)
    with sees num that show ?thesis by (metis option.distinct(1) sees_def)
  qed
  have out: "length ?L = n \<and> (\<forall>l \<in> set ?L. better isBid (price l) p)"
    if p: "p \<noteq> NaN" "M p \<noteq> None" "p \<notin> price ` set ?L" for p
  proof (cases "inHorizon isBid p s")
    case True
    then have "side_view s p \<noteq> None" using sees p by (simp add: sees_def)
    then obtain l where l: "l \<in> set (rev (levels s))" "price l = p"
      using level_map_SomeD unfolding side_view_def by (metis not_None_eq set_rev)
    with p(3) have "l \<in> set (drop n (rev (levels s)))"
      by (metis Un_iff append_take_drop_id image_eqI set_append)
    moreover from this have "length ?L = n" by (cases "n \<le> length (levels s)") auto
    moreover have "sorted_wrt (\<lambda>a b. better isBid (price a) (price b)) (?L @ drop n (rev (levels s)))"
      using Lsrt by simp
    ultimately show ?thesis using l(2) by (auto simp: sorted_wrt_append simp del: append_take_drop_id)
  next
    case False
    then have b: "bounded s" "better isBid (horizon s) p" by (simp_all add: inHorizon_def)
    then have len: "length ?L = n" using full by (simp add: below_def)
    have "better isBid (price l) p" if "l \<in> set ?L" for l
    proof -
      have "\<not> better isBid (horizon s) (price l)" "price l \<noteq> NaN" "horizon s \<noteq> NaN"
        using wf that sub b(1) by (auto simp: side_wf_def)
      then show ?thesis using b(2) better_total better_trans by metis
    qed
    with len show ?thesis by blast
  qed
  show ?thesis unfolding top_levels_def
    using Lsrt num inM sub out by (auto simp: sorted_wrt_take)
qed

end
