(* ===== verification/Market_Config.thy ===== *)
theory Market_Config
  imports Prelude
begin

text \<open>
  \<open>cpp/include/market_config.hpp\<close>: the per-market wiring of the trade and quote handlers, the
  two sequencing rules of the depth stream, and the combined-stream path.
\<close>

datatype TradeSchema = SpotTrade | FuturesAggTrade

datatype DepthSync = Spot | Futures

record MarketConfig =
  mc_host :: string
  mc_port :: string
  mc_streamSuffix :: string
  mc_tpTable :: string
  mc_schema :: TradeSchema
  mc_backfillEnabled :: bool
  mc_backfillRestHost :: string
  mc_backfillRestPort :: string
  mc_backfillRestPath :: string
  mc_backfillWeight :: int
  mc_backfillWeightLimit :: int
  mc_backfillMaxGapIds :: int
  mc_clockLagMs :: int

definition defaultMarketConfig :: MarketConfig where
  "defaultMarketConfig = \<lparr>
     mc_host = ''stream.binance.com'', mc_port = ''9443'', mc_streamSuffix = ''@trade'',
     mc_tpTable = ''trade_binance'', mc_schema = SpotTrade,
     mc_backfillEnabled = False, mc_backfillRestHost = ''api.binance.com'',
     mc_backfillRestPort = ''443'', mc_backfillRestPath = ''/api/v3/historicalTrades'',
     mc_backfillWeight = 25, mc_backfillWeightLimit = 6000, mc_backfillMaxGapIds = 500000,
     mc_clockLagMs = 2000\<rparr>"

record QuoteMarketConfig =
  qm_wsHost :: string
  qm_wsPort :: string
  qm_wsPathPrefix :: string
  qm_streamSuffix :: string
  qm_restHost :: string
  qm_restPort :: string
  qm_restPath :: string
  qm_snapshotLimit :: int
  qm_snapshotWeight :: int
  qm_weightLimitPerMin :: int
  qm_tpTable :: string
  qm_healthName :: string
  qm_sync :: DepthSync
  qm_depth :: int
  qm_publishTransactTime :: bool
  qm_clockLagMs :: int

definition defaultQuoteMarketConfig :: QuoteMarketConfig where
  "defaultQuoteMarketConfig = \<lparr>
     qm_wsHost = ''stream.binance.com'', qm_wsPort = ''9443'', qm_wsPathPrefix = '''',
     qm_streamSuffix = ''@depth@100ms'', qm_restHost = ''api.binance.com'', qm_restPort = ''443'',
     qm_restPath = ''/api/v3/depth'', qm_snapshotLimit = 1000, qm_snapshotWeight = 50,
     qm_weightLimitPerMin = 6000, qm_tpTable = ''quote_binance'', qm_healthName = ''quote_fh'',
     qm_sync = Spot, qm_depth = 5, qm_publishTransactTime = False, qm_clockLagMs = 2000\<rparr>"

section \<open>The combined-stream path\<close>

text \<open>The loop of \<open>buildStreamPath\<close>, from index \<open>i\<close> on; \<open>path\<close> is the string built so far.\<close>

fun buildStreamPath_loop :: "nat \<Rightarrow> string \<Rightarrow> string list \<Rightarrow> string \<Rightarrow> string" where
  "buildStreamPath_loop i path [] suffix = path"
| "buildStreamPath_loop i path (s # ss) suffix =
     buildStreamPath_loop (Suc i) ((if 0 < i then path @ ''/'' else path) @ s @ suffix) ss suffix"

definition buildStreamPath :: "string list \<Rightarrow> string \<Rightarrow> string" where
  "buildStreamPath symbols suffix = buildStreamPath_loop 0 ''/stream?streams='' symbols suffix"

lemma buildStreamPath_loop_pos:
  "0 < i \<Longrightarrow> buildStreamPath_loop i path ss suffix = path @ concat (map (\<lambda>s. ''/'' @ s @ suffix) ss)"
  by (induction ss arbitrary: i path) auto

lemma buildStreamPath_Cons:
  "buildStreamPath (s # ss) suffix =
     ''/stream?streams='' @ s @ suffix @ concat (map (\<lambda>t. ''/'' @ t @ suffix) ss)"
  by (simp add: buildStreamPath_def buildStreamPath_loop_pos)

text \<open>Splitting at slashes: the reading the exchange applies to the \<open>streams\<close> parameter.\<close>

fun split_at :: "char \<Rightarrow> string \<Rightarrow> string list" where
  "split_at c [] = [[]]"
| "split_at c (x # xs) =
     (if x = c then [] # split_at c xs
      else (case split_at c xs of [] \<Rightarrow> [[x]] | w # ws \<Rightarrow> (x # w) # ws))"

lemma split_at_no_sep: "c \<notin> set w \<Longrightarrow> split_at c w = [w]"
  by (induction w) auto

lemma split_at_sep: "c \<notin> set w \<Longrightarrow> split_at c (w @ c # rest) = w # split_at c rest"
  by (induction w) auto

lemma split_at_joined:
  "\<forall>w \<in> set (u # ws). c \<notin> set w \<Longrightarrow>
     split_at c (u @ concat (map (\<lambda>w. c # w) ws)) = u # ws"
  by (induction ws arbitrary: u) (auto simp: split_at_sep split_at_no_sep)

end
