(* ===== verification/Depth_Sequence.thy ===== *)
theory Depth_Sequence
  imports Book_Side Market_Config
begin

text \<open>
  Sequencing of depth events: \<open>BufferedDelta\<close>, \<open>Seq\<close>, \<open>Verdict\<close> and \<open>checkSequence\<close> of
  \<open>cpp/include/order_book_manager.hpp\<close>, for the spot and the USD-M futures rule.

  The exchange is a function \<open>X\<close> from update ids to its complete book. \<open>genuine\<close> says what the
  exchange documents about an event: it turns the book at any id from its lower end up to \<open>u\<close> into
  the book at \<open>u\<close>. The lower end is \<open>U - 1\<close> on spot and \<open>pu\<close> on futures. The locale \<open>sequencing\<close>
  is the contract of a sequencing rule: an event it lets through starts at or before the id the
  book is at and ends at or after it. Both rules are instances.
\<close>

record BufferedDelta =
  firstUpdateId :: int
  finalUpdateId :: int
  eventTimeMs :: int
  bids :: "PriceLevel list"
  asks :: "PriceLevel list"
  prevFinalUpdateId :: int
  transactTimeMs :: int

record Seq =
  needBridge :: bool
  snapshotId :: int
  lastId :: int

definition emptySeq :: Seq where
  "emptySeq = \<lparr>needBridge = False, snapshotId = 0, lastId = 0\<rparr>"

datatype Verdict = SKIP | APPLY | FAIL

text \<open>The verdict and the sequencing state after the check, which may clear \<open>needBridge\<close>.\<close>

definition checkSequence :: "DepthSync \<Rightarrow> Seq \<Rightarrow> BufferedDelta \<Rightarrow> Verdict \<times> Seq" where
  "checkSequence sync s d =
     (let U = firstUpdateId d; u = finalUpdateId d in
      if sync = Futures then
        (if needBridge s then
           (if prevFinalUpdateId d = snapshotId s then (APPLY, s\<lparr>needBridge := False\<rparr>)
            else if u < snapshotId s then (SKIP, s)
            else if U > snapshotId s then (FAIL, s)
            else (APPLY, s\<lparr>needBridge := False\<rparr>))
         else (if prevFinalUpdateId d = lastId s then (APPLY, s) else (FAIL, s)))
      else
        (if needBridge s then
           (if u < snapshotId s + 1 then (SKIP, s)
            else if U > snapshotId s + 1 then (FAIL, s)
            else (APPLY, s\<lparr>needBridge := False\<rparr>))
         else if u < lastId s then (SKIP, s)
         else if U > lastId s + 1 then (FAIL, s)
         else (APPLY, s)))"

text \<open>After an applied event the caller stores its \<open>u\<close>.\<close>

definition advance :: "Seq \<Rightarrow> BufferedDelta \<Rightarrow> Seq" where
  "advance s d = s\<lparr>lastId := finalUpdateId d\<rparr>"

section \<open>The exchange\<close>

definition delta_low :: "DepthSync \<Rightarrow> BufferedDelta \<Rightarrow> int" where
  "delta_low sync d = (if sync = Futures then prevFinalUpdateId d else firstUpdateId d - 1)"

definition delta_ok :: "BufferedDelta \<Rightarrow> bool" where
  "delta_ok d \<longleftrightarrow> levels_ok (bids d) \<and> levels_ok (asks d)"

definition genuine :: "DepthSync \<Rightarrow> (int \<Rightarrow> exchange_book) \<Rightarrow> BufferedDelta \<Rightarrow> bool" where
  "genuine sync X d \<longleftrightarrow>
     delta_ok d \<and> firstUpdateId d \<le> finalUpdateId d \<and> delta_low sync d < firstUpdateId d \<and>
     (\<forall>v. delta_low sync d \<le> v \<and> v \<le> finalUpdateId d \<longrightarrow>
        truth_updates (fst (X v)) (bids d) = fst (X (finalUpdateId d)) \<and>
        truth_updates (snd (X v)) (asks d) = snd (X (finalUpdateId d)))"

text \<open>While a book waits for its bridging event it stands at the snapshot's id.\<close>

definition seq_wf :: "Seq \<Rightarrow> bool" where
  "seq_wf s \<longleftrightarrow> (needBridge s \<longrightarrow> lastId s = snapshotId s)"

definition loadedSeq :: "int \<Rightarrow> Seq" where
  "loadedSeq i = \<lparr>needBridge = True, snapshotId = i, lastId = i\<rparr>"

lemma loadedSeq_simps [simp]:
  "needBridge (loadedSeq i)" "snapshotId (loadedSeq i) = i" "lastId (loadedSeq i) = i" "seq_wf (loadedSeq i)"
  by (simp_all add: loadedSeq_def seq_wf_def)

section \<open>The contract of a sequencing rule\<close>

locale sequencing =
  fixes check :: "Seq \<Rightarrow> BufferedDelta \<Rightarrow> Verdict \<times> Seq"
    and low :: "BufferedDelta \<Rightarrow> int"
    and gen :: "(int \<Rightarrow> exchange_book) \<Rightarrow> BufferedDelta \<Rightarrow> bool"
  assumes gen_ok: "gen X d \<Longrightarrow> delta_ok d"
    and gen_truth: "gen (X :: int \<Rightarrow> exchange_book) d \<Longrightarrow> low d \<le> (v :: int) \<Longrightarrow> v \<le> finalUpdateId d \<Longrightarrow>
       truth_updates (fst (X v)) (bids d) = fst (X (finalUpdateId d)) \<and>
       truth_updates (snd (X v)) (asks d) = snd (X (finalUpdateId d))"
    and apply_covers: "seq_wf s \<Longrightarrow> gen X d \<Longrightarrow> check s d = (APPLY, s') \<Longrightarrow>
       low d \<le> lastId s \<and> lastId s \<le> finalUpdateId d"
    and apply_seq: "check s d = (APPLY, s') \<Longrightarrow> s' = s\<lparr>needBridge := False\<rparr>"
    and other_seq: "check s d = (vd, s') \<Longrightarrow> vd \<noteq> APPLY \<Longrightarrow> s' = s"
begin

text \<open>An event the rule lets through carries an exact book to an exact book.\<close>

lemma apply_exact:
  assumes "check s d = (APPLY, s')" "seq_wf s" "gen X d" "book_wf n b" "book_sees b (X (lastId s))"
  shows "book_wf n (applyLevels n b (bids d) (asks d)) \<and>
    book_sees (applyLevels n b (bids d) (asks d)) (X (lastId (advance s' d)))"
proof -
  have ok: "levels_ok (bids d)" "levels_ok (asks d)"
    using gen_ok [OF assms(3)] by (simp_all add: delta_ok_def)
  have cov: "low d \<le> lastId s" "lastId s \<le> finalUpdateId d"
    using apply_covers [OF assms(2,3,1)] by simp_all
  have "book_sees (applyLevels n b (bids d) (asks d))
      (truth_updates (fst (X (lastId s))) (bids d), truth_updates (snd (X (lastId s))) (asks d))"
    by (rule applyLevels_sees [OF assms(4) ok assms(5)])
  then show ?thesis
    using gen_truth [OF assms(3) cov] applyLevels_wf [OF assms(4) ok] by (simp add: advance_def)
qed

lemma check_seq_wf: "check s d = (v, s') \<Longrightarrow> seq_wf s \<Longrightarrow> seq_wf s'"
  using apply_seq [of s d s'] other_seq [of s d v s'] by (cases "v = APPLY") (auto simp: seq_wf_def)

lemma apply_bridged: "check s d = (APPLY, s') \<Longrightarrow> \<not> needBridge s' \<and> seq_wf (advance s' d)"
  using apply_seq [of s d s'] by (simp add: seq_wf_def advance_def)

end

lemma checkSequence_apply_seq: "checkSequence sync s d = (APPLY, s') \<Longrightarrow> s' = s\<lparr>needBridge := False\<rparr>"
  by (auto simp: checkSequence_def Let_def split: if_splits)

lemma checkSequence_other_seq: "checkSequence sync s d = (v, s') \<Longrightarrow> v \<noteq> APPLY \<Longrightarrow> s' = s"
  by (auto simp: checkSequence_def Let_def split: if_splits)

lemma checkSequence_covers:
  "seq_wf s \<Longrightarrow> genuine sync X d \<Longrightarrow> checkSequence sync s d = (APPLY, s') \<Longrightarrow>
     delta_low sync d \<le> lastId s \<and> lastId s \<le> finalUpdateId d"
  by (cases sync) (auto simp: checkSequence_def Let_def seq_wf_def genuine_def delta_low_def split: if_splits)

interpretation depth_rule: sequencing "checkSequence sync" "delta_low sync" "genuine sync" for sync
  by unfold_locales
    (simp add: genuine_def, simp add: genuine_def, rule checkSequence_covers, assumption+,
     rule checkSequence_apply_seq, assumption, rule checkSequence_other_seq)

end
