(* ===== verification/Order_Book.thy ===== *)
theory Order_Book
  imports Depth_Sequence
begin

text \<open>
  \<open>OrderBookManager\<close> of \<open>cpp/include/order_book_manager.hpp\<close>: the state machine of one symbol's
  book (INIT, SYNCING, VALID, INVALID), its delta buffer, the background refresh with its shadow
  book, quote extraction, and the publisher's change detection.

  The code keeps one vector per field, indexed by symbol; the model keeps one record \<open>SymBook\<close> per
  symbol, and the manager is a list of them. An operation on symbol \<open>idx\<close> is a function of that
  symbol's record and of the four counters, which all symbols share (\<open>BookCounters\<close>).
  Counters are \<open>nat\<close>; \<open>steady_clock\<close> is an argument \<open>now\<close> in nanoseconds.
\<close>

section \<open>Configuration and data\<close>

definition MAX_DELTA_BUFFER_SIZE :: nat where
  "MAX_DELTA_BUFFER_SIZE = 1000"

definition PUBLISH_TIMEOUT_MS :: int where
  "PUBLISH_TIMEOUT_MS = 50"

record BookConfig =
  bc_depth :: nat
  bc_snapshotLimit :: nat
  bc_refreshLowWater :: nat
  bc_maxLevels :: nat
  bc_sync :: DepthSync

definition defaultBookConfig :: BookConfig where
  "defaultBookConfig = \<lparr>bc_depth = 5, bc_snapshotLimit = 1000, bc_refreshLowWater = 500,
     bc_maxLevels = 4000, bc_sync = Spot\<rparr>"

datatype SnapshotOutcome =
  SYNCED | AWAITING_BRIDGE | SYNC_FAILED | REFRESHED | REFRESH_AWAITING_BRIDGE | REFRESH_FAILED | IGNORED

datatype BookState = INIT | SYNCING | VALID | INVALID

record BookQuote =
  q_sym :: string
  q_bidPrices :: "double list"
  q_bidQtys :: "double list"
  q_askPrices :: "double list"
  q_askQtys :: "double list"
  q_isValid :: bool
  q_exchEventTimeMs :: int
  q_exchTransactTimeMs :: int
  q_fhRecvTimeUtcNs :: int
  q_fhSeqNo :: int
  q_exchFirstUpdateId :: int
  q_exchUpdateId :: int
  q_exchPrevUpdateId :: int

definition emptyQuote :: "nat \<Rightarrow> BookQuote" where
  "emptyQuote depth = \<lparr>q_sym = [],
     q_bidPrices = replicate depth 0, q_bidQtys = replicate depth 0,
     q_askPrices = replicate depth 0, q_askQtys = replicate depth 0,
     q_isValid = False, q_exchEventTimeMs = 0, q_exchTransactTimeMs = 0, q_fhRecvTimeUtcNs = 0,
     q_fhSeqNo = 0, q_exchFirstUpdateId = 0, q_exchUpdateId = 0, q_exchPrevUpdateId = 0\<rparr>"

text \<open>Vector equality compares sizes, then elements with the IEEE \<open>==\<close>.\<close>

definition samePricesAs :: "BookQuote \<Rightarrow> BookQuote \<Rightarrow> bool" where
  "samePricesAs a b \<longleftrightarrow>
     list_all2 feq (q_bidPrices a) (q_bidPrices b) \<and> list_all2 feq (q_bidQtys a) (q_bidQtys b) \<and>
     list_all2 feq (q_askPrices a) (q_askPrices b) \<and> list_all2 feq (q_askQtys a) (q_askQtys b)"

record Shadow =
  sh_book :: Book
  sh_seq :: Seq
  sh_pending :: bool

definition emptyShadow :: Shadow where
  "emptyShadow = \<lparr>sh_book = emptyBook, sh_seq = emptySeq, sh_pending = False\<rparr>"

record BookCounters =
  bufferOverflows :: nat
  depthRefreshes :: nat
  refreshFailures :: nat
  depthExhaustedEvents :: nat

record SymBook =
  sb_book :: Book
  sb_seq :: Seq
  sb_state :: BookState
  sb_exchEventTimeMs :: int
  sb_exchTransactTimeMs :: int
  sb_deltaBuffer :: "BufferedDelta list"
  sb_snapshotRequested :: bool
  sb_refreshPending :: bool
  sb_wasExhausted :: bool
  sb_shadow :: Shadow
  sb_rangeFirstU :: int
  sb_rangePrevU :: int
  sb_rangeClosed :: bool
  sb_lastPublished :: BookQuote
  sb_lastPublishTime :: int
  sb_hasPublished :: bool

definition newSymBook :: "int \<Rightarrow> SymBook" where
  "newSymBook now = \<lparr>sb_book = emptyBook, sb_seq = emptySeq, sb_state = INIT,
     sb_exchEventTimeMs = 0, sb_exchTransactTimeMs = 0, sb_deltaBuffer = [],
     sb_snapshotRequested = False, sb_refreshPending = False, sb_wasExhausted = False,
     sb_shadow = emptyShadow, sb_rangeFirstU = 0, sb_rangePrevU = 0, sb_rangeClosed = True,
     sb_lastPublished = emptyQuote 5, sb_lastPublishTime = now, sb_hasPublished = False\<rparr>"

section \<open>State access and background refresh\<close>

definition isValid :: "SymBook \<Rightarrow> bool" where
  "isValid s \<longleftrightarrow> sb_state s = VALID"

definition needsSnapshot :: "SymBook \<Rightarrow> bool" where
  "needsSnapshot s \<longleftrightarrow> sb_state s = INIT \<and> \<not> sb_snapshotRequested s"

definition setSnapshotRequested :: "bool \<Rightarrow> SymBook \<Rightarrow> SymBook" where
  "setSnapshotRequested val s = s\<lparr>sb_snapshotRequested := val\<rparr>"

definition knownLevels :: "bool \<Rightarrow> SymBook \<Rightarrow> nat" where
  "knownLevels isBid s = length (levels (if isBid then bid (sb_book s) else ask (sb_book s)))"

definition hasHorizon :: "bool \<Rightarrow> SymBook \<Rightarrow> bool" where
  "hasHorizon isBid s = bounded (if isBid then bid (sb_book s) else ask (sb_book s))"

definition depthExhausted :: "BookConfig \<Rightarrow> SymBook \<Rightarrow> bool" where
  "depthExhausted cfg s \<longleftrightarrow> below (bc_depth cfg) (bid (sb_book s)) \<or> below (bc_depth cfg) (ask (sb_book s))"

definition wantsRefresh :: "BookConfig \<Rightarrow> SymBook \<Rightarrow> bool" where
  "wantsRefresh cfg s \<longleftrightarrow>
     sb_state s = VALID \<and> \<not> sb_refreshPending s \<and> \<not> sh_pending (sb_shadow s) \<and>
     (below (bc_refreshLowWater cfg) (bid (sb_book s)) \<or> below (bc_refreshLowWater cfg) (ask (sb_book s)))"

definition beginRefresh :: "SymBook \<Rightarrow> SymBook" where
  "beginRefresh s = s\<lparr>sb_refreshPending := True, sb_snapshotRequested := True, sb_deltaBuffer := []\<rparr>"

definition cancelRefresh :: "BookCounters \<Rightarrow> SymBook \<Rightarrow> BookCounters \<times> SymBook" where
  "cancelRefresh c s =
     (if \<not> sb_refreshPending s then (c, s)
      else (c\<lparr>refreshFailures := refreshFailures c + 1\<rparr>,
            s\<lparr>sb_refreshPending := False, sb_snapshotRequested := False, sb_deltaBuffer := []\<rparr>))"

definition refreshPending :: "SymBook \<Rightarrow> bool" where
  "refreshPending s \<longleftrightarrow> sb_refreshPending s \<or> sh_pending (sb_shadow s)"

section \<open>Delta buffer\<close>

definition bufferDelta :: "BufferedDelta \<Rightarrow> BookCounters \<Rightarrow> SymBook \<Rightarrow> bool \<times> BookCounters \<times> SymBook" where
  "bufferDelta d c s =
     (let buf = sb_deltaBuffer s @ [d]
      in if MAX_DELTA_BUFFER_SIZE < length buf
         then (False, c\<lparr>bufferOverflows := bufferOverflows c + 1\<rparr>, s\<lparr>sb_deltaBuffer := tl buf\<rparr>)
         else (True, c, s\<lparr>sb_deltaBuffer := buf\<rparr>))"

text \<open>The buffer is a bounded queue.\<close>

interpretation delta_queue: bounded_fifo "\<lambda>s. length (sb_deltaBuffer s) \<le> MAX_DELTA_BUFFER_SIZE" sb_deltaBuffer
    "\<lambda>d s. snd (snd (bufferDelta d c s))" MAX_DELTA_BUFFER_SIZE for c
  by unfold_locales (auto simp: bufferDelta_def Let_def last_n_push MAX_DELTA_BUFFER_SIZE_def tl_append split: list.split)

section \<open>Book operations\<close>

definition invalidate :: "SymBook \<Rightarrow> SymBook" where
  "invalidate s = s\<lparr>sb_state := INVALID\<rparr>"

definition loadBook :: "BookConfig \<Rightarrow> PriceLevel list \<Rightarrow> PriceLevel list \<Rightarrow> Book" where
  "loadBook cfg bs as =
     \<lparr>bid = load True bs (bc_snapshotLimit cfg) (bc_maxLevels cfg),
      ask = load False as (bc_snapshotLimit cfg) (bc_maxLevels cfg)\<rparr>"

definition applySnapshot ::
    "BookConfig \<Rightarrow> int \<Rightarrow> PriceLevel list \<Rightarrow> PriceLevel list \<Rightarrow> SymBook \<Rightarrow> SymBook" where
  "applySnapshot cfg lastUpdateId bs as s =
     s\<lparr>sb_book := loadBook cfg bs as, sb_seq := loadedSeq lastUpdateId, sb_state := SYNCING,
       sb_wasExhausted := False\<rparr>"

text \<open>The branch of \<open>applyDelta\<close> for an event the sequencing rule lets through.\<close>

definition applyLive ::
    "BookConfig \<Rightarrow> BufferedDelta \<Rightarrow> Seq \<Rightarrow> BookCounters \<Rightarrow> SymBook \<Rightarrow> BookCounters \<times> SymBook" where
  "applyLive cfg d q c s =
     (let s1 = s\<lparr>sb_book := applyLevels (bc_maxLevels cfg) (sb_book s) (bids d) (asks d),
                 sb_seq := advance q d\<rparr>;
          s2 = (if sb_rangeClosed s1
                then s1\<lparr>sb_rangeFirstU := firstUpdateId d, sb_rangePrevU := prevFinalUpdateId d,
                        sb_rangeClosed := False\<rparr>
                else s1);
          s3 = s2\<lparr>sb_exchEventTimeMs := eventTimeMs d, sb_exchTransactTimeMs := transactTimeMs d,
                  sb_state := VALID\<rparr>;
          exhausted = depthExhausted cfg s3
      in (if exhausted \<and> \<not> sb_wasExhausted s3
          then c\<lparr>depthExhaustedEvents := depthExhaustedEvents c + 1\<rparr> else c,
          s3\<lparr>sb_wasExhausted := exhausted\<rparr>))"

text \<open>The branch of \<open>applyDelta\<close> for a refresh snapshot that waits for its bridging event.\<close>

definition shadowStep ::
    "BookConfig \<Rightarrow> BufferedDelta \<Rightarrow> BookCounters \<Rightarrow> SymBook \<Rightarrow> BookCounters \<times> SymBook" where
  "shadowStep cfg d c s =
     (if \<not> sh_pending (sb_shadow s) then (c, s)
      else case checkSequence (bc_sync cfg) (sh_seq (sb_shadow s)) d of
        (FAIL, q) \<Rightarrow> (c\<lparr>refreshFailures := refreshFailures c + 1\<rparr>, s\<lparr>sb_shadow := emptyShadow\<rparr>)
      | (APPLY, q) \<Rightarrow>
          (let s1 = s\<lparr>sb_book := applyLevels (bc_maxLevels cfg) (sh_book (sb_shadow s)) (bids d) (asks d),
                      sb_seq := advance q d, sb_shadow := emptyShadow\<rparr>
           in (c\<lparr>depthRefreshes := depthRefreshes c + 1\<rparr>, s1\<lparr>sb_wasExhausted := depthExhausted cfg s1\<rparr>))
      | (SKIP, q) \<Rightarrow> (c, s\<lparr>sb_shadow := (sb_shadow s)\<lparr>sh_seq := q\<rparr>\<rparr>))"

definition applyDelta ::
    "BookConfig \<Rightarrow> BufferedDelta \<Rightarrow> BookCounters \<Rightarrow> SymBook \<Rightarrow> bool \<times> BookCounters \<times> SymBook" where
  "applyDelta cfg d c s =
     (if sb_state s \<noteq> SYNCING \<and> sb_state s \<noteq> VALID then (False, c, s)
      else case checkSequence (bc_sync cfg) (sb_seq s) d of
        (FAIL, q) \<Rightarrow> (False, c, invalidate (s\<lparr>sb_seq := q\<rparr>))
      | (v, q) \<Rightarrow>
          (let (c1, s1) = (if v = APPLY then applyLive cfg d q c s else (c, s\<lparr>sb_seq := q\<rparr>));
               (c2, s2) = (if sb_refreshPending s1 then snd (bufferDelta d c1 s1) else (c1, s1));
               (c3, s3) = shadowStep cfg d c2 s2
           in (True, c3, s3)))"

text \<open>The loop of \<open>finishRefresh\<close> over the buffered deltas: failed, shadow book, its sequencing state.\<close>

fun replayShadow :: "BookConfig \<Rightarrow> BufferedDelta list \<Rightarrow> Book \<Rightarrow> Seq \<Rightarrow> bool \<times> Book \<times> Seq" where
  "replayShadow cfg [] b q = (False, b, q)"
| "replayShadow cfg (d # ds) b q =
     (case checkSequence (bc_sync cfg) q d of
        (FAIL, q') \<Rightarrow> (True, b, q')
      | (APPLY, q') \<Rightarrow> replayShadow cfg ds (applyLevels (bc_maxLevels cfg) b (bids d) (asks d)) (advance q' d)
      | (SKIP, q') \<Rightarrow> replayShadow cfg ds b q')"

definition finishRefresh ::
    "BookConfig \<Rightarrow> int \<Rightarrow> PriceLevel list \<Rightarrow> PriceLevel list \<Rightarrow> BookCounters \<Rightarrow> SymBook
      \<Rightarrow> SnapshotOutcome \<times> BookCounters \<times> SymBook" where
  "finishRefresh cfg lastUpdateId bs as c s0 =
     (let (failed, shadow, sseq) =
            replayShadow cfg (sb_deltaBuffer s0) (loadBook cfg bs as) (loadedSeq lastUpdateId);
          s = s0\<lparr>sb_refreshPending := False, sb_deltaBuffer := []\<rparr>
      in if failed then (REFRESH_FAILED, c\<lparr>refreshFailures := refreshFailures c + 1\<rparr>, s)
         else if needBridge sseq \<and> lastUpdateId = lastId (sb_seq s) then
           (let s1 = s\<lparr>sb_book := shadow\<rparr>
            in (REFRESHED, c\<lparr>depthRefreshes := depthRefreshes c + 1\<rparr>,
                s1\<lparr>sb_wasExhausted := depthExhausted cfg s1\<rparr>))
         else if needBridge sseq then
           (REFRESH_AWAITING_BRIDGE, c,
            s\<lparr>sb_shadow := \<lparr>sh_book = shadow, sh_seq = sseq, sh_pending = True\<rparr>\<rparr>)
         else
           (let s1 = s\<lparr>sb_book := shadow, sb_seq := sseq\<rparr>
            in (REFRESHED, c\<lparr>depthRefreshes := depthRefreshes c + 1\<rparr>,
                s1\<lparr>sb_wasExhausted := depthExhausted cfg s1\<rparr>)))"

text \<open>The loop of \<open>onSnapshot\<close> over the buffered deltas: it stops at the first that fails.\<close>

fun replayLive ::
    "BookConfig \<Rightarrow> BufferedDelta list \<Rightarrow> BookCounters \<Rightarrow> SymBook \<Rightarrow> bool \<times> BookCounters \<times> SymBook" where
  "replayLive cfg [] c s = (False, c, s)"
| "replayLive cfg (d # ds) c s =
     (case applyDelta cfg d c s of
        (True, c', s') \<Rightarrow> replayLive cfg ds c' s'
      | (False, c', s') \<Rightarrow> (True, c', s'))"

definition onSnapshot ::
    "BookConfig \<Rightarrow> int \<Rightarrow> PriceLevel list \<Rightarrow> PriceLevel list \<Rightarrow> BookCounters \<Rightarrow> SymBook
      \<Rightarrow> SnapshotOutcome \<times> BookCounters \<times> SymBook" where
  "onSnapshot cfg lastUpdateId bs as c s0 =
     (let s = s0\<lparr>sb_snapshotRequested := False\<rparr>
      in if sb_state s = VALID \<and> sb_refreshPending s then finishRefresh cfg lastUpdateId bs as c s
         else let s1 = s\<lparr>sb_refreshPending := False\<rparr>
         in if sb_state s1 \<noteq> INIT then (IGNORED, c, s1)
         else let (failed, c', s2) =
                    replayLive cfg (sb_deltaBuffer s1) c (applySnapshot cfg lastUpdateId bs as s1);
                  s3 = s2\<lparr>sb_deltaBuffer := []\<rparr>
              in (if failed then SYNC_FAILED else if sb_state s3 = VALID then SYNCED else AWAITING_BRIDGE,
                  c', s3))"

definition reset :: "SymBook \<Rightarrow> SymBook" where
  "reset s = s\<lparr>sb_book := emptyBook, sb_state := INIT, sb_seq := emptySeq,
     sb_exchEventTimeMs := 0, sb_exchTransactTimeMs := 0, sb_deltaBuffer := [],
     sb_snapshotRequested := False, sb_refreshPending := False, sb_wasExhausted := False,
     sb_shadow := emptyShadow, sb_rangeFirstU := 0, sb_rangePrevU := 0, sb_rangeClosed := True\<rparr>"

section \<open>Quote extraction\<close>

text \<open>Slot \<open>i\<close> of a published side: the \<open>i\<close>-th level from the back, or 0/0.\<close>

definition slot :: "(PriceLevel \<Rightarrow> double) \<Rightarrow> PriceLevel list \<Rightarrow> nat \<Rightarrow> double" where
  "slot f ls i = (if i < length ls then f (ls ! (length ls - 1 - i)) else 0)"

definition getQuote :: "BookConfig \<Rightarrow> string \<Rightarrow> SymBook \<Rightarrow> int \<Rightarrow> int \<Rightarrow> BookQuote" where
  "getQuote cfg sy s fhRecvTimeUtcNs fhSeqNo =
     (let valid = (sb_state s = VALID \<and> \<not> depthExhausted cfg s);
          q = (emptyQuote (bc_depth cfg))\<lparr>q_sym := sy, q_isValid := valid,
                q_exchEventTimeMs := sb_exchEventTimeMs s,
                q_exchTransactTimeMs := sb_exchTransactTimeMs s,
                q_fhRecvTimeUtcNs := fhRecvTimeUtcNs, q_fhSeqNo := fhSeqNo\<rparr>;
          q1 = (if valid
                then q\<lparr>q_exchFirstUpdateId := sb_rangeFirstU s, q_exchUpdateId := lastId (sb_seq s),
                       q_exchPrevUpdateId := (if bc_sync cfg = Futures then sb_rangePrevU s else 0)\<rparr>
                else q);
          bl = levels (bid (sb_book s)); al = levels (ask (sb_book s)); n = bc_depth cfg
      in if sb_state s \<noteq> VALID \<and> sb_state s \<noteq> SYNCING then q1
         else if sb_state s = VALID \<and> \<not> valid then q1
         else q1\<lparr>q_bidPrices := map (slot price bl) [0..<n], q_bidQtys := map (slot qty bl) [0..<n],
                 q_askPrices := map (slot price al) [0..<n], q_askQtys := map (slot qty al) [0..<n]\<rparr>)"

section \<open>Publisher logic\<close>

definition elapsedMs :: "int \<Rightarrow> int \<Rightarrow> int" where
  "elapsedMs now since = (now - since) sdiv 1000000"

definition shouldPublish :: "int \<Rightarrow> SymBook \<Rightarrow> BookQuote \<Rightarrow> bool" where
  "shouldPublish now s current =
     (if \<not> sb_hasPublished s then True
      else if q_isValid current \<noteq> q_isValid (sb_lastPublished s) then True
      else if \<not> q_isValid current then False
      else if \<not> samePricesAs current (sb_lastPublished s) then True
      else PUBLISH_TIMEOUT_MS \<le> elapsedMs now (sb_lastPublishTime s))"

definition recordPublish :: "int \<Rightarrow> BookQuote \<Rightarrow> SymBook \<Rightarrow> SymBook" where
  "recordPublish now quote s =
     s\<lparr>sb_lastPublished := quote, sb_lastPublishTime := now, sb_hasPublished := True, sb_rangeClosed := True\<rparr>"

definition lastPublishedValid :: "SymBook \<Rightarrow> bool" where
  "lastPublishedValid s \<longleftrightarrow> sb_hasPublished s \<and> q_isValid (sb_lastPublished s)"

definition timeoutPublishNeeded :: "int \<Rightarrow> SymBook \<Rightarrow> bool" where
  "timeoutPublishNeeded now s \<longleftrightarrow>
     sb_state s = VALID \<and> sb_hasPublished s \<and> PUBLISH_TIMEOUT_MS \<le> elapsedMs now (sb_lastPublishTime s)"

section \<open>The manager\<close>

record OrderBookManager =
  om_cfg :: BookConfig
  om_symToIdx :: "string \<rightharpoonup> nat"
  om_idxToSym :: "string list"
  om_books :: "SymBook list"
  om_ctr :: BookCounters

text \<open>The loop that fills \<open>symToIdx_\<close>: a repeated symbol keeps its last index.\<close>

fun indexSymbols :: "nat \<Rightarrow> string list \<Rightarrow> (string \<rightharpoonup> nat) \<Rightarrow> (string \<rightharpoonup> nat)" where
  "indexSymbols i [] m = m"
| "indexSymbols i (s # ss) m = indexSymbols (Suc i) ss (m(s \<mapsto> i))"

definition newManager :: "string list \<Rightarrow> BookConfig \<Rightarrow> int \<Rightarrow> OrderBookManager" where
  "newManager symbols cfg now =
     (let cap = bc_snapshotLimit cfg div 2
      in \<lparr>om_cfg = (if cap < bc_refreshLowWater cfg then cfg\<lparr>bc_refreshLowWater := cap\<rparr> else cfg),
          om_symToIdx = indexSymbols 0 symbols Map.empty, om_idxToSym = symbols,
          om_books = map (\<lambda>_. newSymBook now) symbols,
          om_ctr = \<lparr>bufferOverflows = 0, depthRefreshes = 0, refreshFailures = 0, depthExhaustedEvents = 0\<rparr>\<rparr>)"

text \<open>\<open>-1\<close> for an unknown symbol.\<close>

definition getSymbolIndex :: "OrderBookManager \<Rightarrow> string \<Rightarrow> int" where
  "getSymbolIndex m sy = (case om_symToIdx m sy of Some i \<Rightarrow> int i | None \<Rightarrow> -1)"

text \<open>Running an operation of one symbol inside the manager.\<close>

definition on_book ::
    "OrderBookManager \<Rightarrow> nat \<Rightarrow> (BookCounters \<Rightarrow> SymBook \<Rightarrow> 'r \<times> BookCounters \<times> SymBook) \<Rightarrow> 'r \<times> OrderBookManager" where
  "on_book m i f =
     (case f (om_ctr m) (om_books m ! i) of
        (r, c, s) \<Rightarrow> (r, m\<lparr>om_ctr := c, om_books := (om_books m)[i := s]\<rparr>))"

definition resetAll :: "OrderBookManager \<Rightarrow> OrderBookManager" where
  "resetAll m = m\<lparr>om_books := map reset (om_books m)\<rparr>"

definition getTimeoutPublishNeeded :: "int \<Rightarrow> OrderBookManager \<Rightarrow> nat list" where
  "getTimeoutPublishNeeded now m =
     filter (\<lambda>i. timeoutPublishNeeded now (om_books m ! i)) [0..<length (om_books m)]"

end
