(* ===== verification/Order_Book_Exact.thy ===== *)
theory Order_Book_Exact
  imports Order_Book
begin

text \<open>
  What \<open>OrderBookManager\<close> guarantees. \<open>sym_wf\<close> is the representation invariant of one symbol,
  \<open>sym_exact X\<close> says that the live book, and the shadow book when there is one, agree with the
  exchange \<open>X\<close> at the update id they claim to be at. Each operation keeps both as long as its
  inputs are what the exchange documents: genuine events, and snapshots that list the best levels.
  The last section turns this into the guarantee of a published quote.
\<close>

section \<open>The representation invariant\<close>

definition cfg_ok :: "BookConfig \<Rightarrow> bool" where
  "cfg_ok cfg \<longleftrightarrow> 0 < bc_maxLevels cfg \<and> 0 < bc_snapshotLimit cfg"

definition shadow_wf :: "BookConfig \<Rightarrow> Shadow \<Rightarrow> bool" where
  "shadow_wf cfg sh \<longleftrightarrow>
     book_wf (bc_maxLevels cfg) (sh_book sh) \<and> seq_wf (sh_seq sh) \<and> (sh_pending sh \<longrightarrow> needBridge (sh_seq sh))"

definition sym_wf :: "BookConfig \<Rightarrow> SymBook \<Rightarrow> bool" where
  "sym_wf cfg s \<longleftrightarrow>
     book_wf (bc_maxLevels cfg) (sb_book s) \<and> seq_wf (sb_seq s) \<and>
     (sb_state s = SYNCING \<longrightarrow> needBridge (sb_seq s)) \<and>
     (sb_state s = VALID \<longrightarrow> \<not> needBridge (sb_seq s)) \<and>
     (sb_refreshPending s \<longrightarrow> sb_state s \<noteq> INIT \<and> sb_state s \<noteq> SYNCING) \<and>
     (sh_pending (sb_shadow s) \<longrightarrow> sb_state s \<noteq> INIT \<and> sb_state s \<noteq> SYNCING) \<and>
     shadow_wf cfg (sb_shadow s) \<and>
     length (sb_deltaBuffer s) \<le> MAX_DELTA_BUFFER_SIZE \<and>
     list_all delta_ok (sb_deltaBuffer s)"

text \<open>Agreement with the exchange, and genuineness of what is buffered.\<close>

definition sym_exact :: "BookConfig \<Rightarrow> (int \<Rightarrow> exchange_book) \<Rightarrow> SymBook \<Rightarrow> bool" where
  "sym_exact cfg X s \<longleftrightarrow>
     (sb_state s = SYNCING \<or> sb_state s = VALID \<longrightarrow> book_sees (sb_book s) (X (lastId (sb_seq s)))) \<and>
     (sh_pending (sb_shadow s) \<longrightarrow> book_sees (sh_book (sb_shadow s)) (X (lastId (sh_seq (sb_shadow s))))) \<and>
     list_all (genuine (bc_sync cfg) X) (sb_deltaBuffer s)"

definition sym_inv :: "BookConfig \<Rightarrow> (int \<Rightarrow> exchange_book) \<Rightarrow> SymBook \<Rightarrow> bool" where
  "sym_inv cfg X s \<longleftrightarrow> cfg_ok cfg \<and> sym_wf cfg s \<and> sym_exact cfg X s"

text \<open>A REST snapshot at an update id lists the best levels of each side, at most the limit.\<close>

definition genuine_snapshot ::
    "BookConfig \<Rightarrow> (int \<Rightarrow> exchange_book) \<Rightarrow> int \<Rightarrow> PriceLevel list \<Rightarrow> PriceLevel list \<Rightarrow> bool" where
  "genuine_snapshot cfg X i bs as \<longleftrightarrow>
     top_levels True (bc_snapshotLimit cfg) (fst (X i)) bs \<and> (\<forall>l \<in> set bs. flt 0 (qty l)) \<and>
     top_levels False (bc_snapshotLimit cfg) (snd (X i)) as \<and> (\<forall>l \<in> set as. flt 0 (qty l))"

lemmas sym_defs = sym_inv_def sym_wf_def sym_exact_def shadow_wf_def

lemma emptyShadow_simps [simp]:
  "\<not> sh_pending emptyShadow" "sh_seq emptyShadow = emptySeq" "sh_book emptyShadow = emptyBook"
  by (simp_all add: emptyShadow_def)

lemma emptySeq_simps [simp]: "seq_wf emptySeq" "\<not> needBridge emptySeq" "lastId emptySeq = 0"
  by (simp_all add: emptySeq_def seq_wf_def)

lemma shadow_wf_empty: "cfg_ok cfg \<Longrightarrow> shadow_wf cfg emptyShadow"
  by (simp add: shadow_wf_def cfg_ok_def emptyBook_wf)

lemma loadBook_inv:
  assumes "cfg_ok cfg" "genuine_snapshot cfg X i bs as"
  shows "book_wf (bc_maxLevels cfg) (loadBook cfg bs as) \<and> book_sees (loadBook cfg bs as) (X i)"
  using assms
  by (auto simp: cfg_ok_def genuine_snapshot_def book_wf_def book_sees_def loadBook_def capped_def
      intro: load_sees top_levels_load_wf)

section \<open>Simple operations\<close>

lemma newSymBook_inv: "cfg_ok cfg \<Longrightarrow> sym_inv cfg X (newSymBook now)"
  by (simp add: sym_defs newSymBook_def emptyBook_wf cfg_ok_def MAX_DELTA_BUFFER_SIZE_def)

lemma reset_inv: "sym_inv cfg X s \<Longrightarrow> sym_inv cfg X (reset s)"
  by (simp add: sym_defs reset_def emptyBook_wf cfg_ok_def MAX_DELTA_BUFFER_SIZE_def)

lemma invalidate_inv: "sym_inv cfg X s \<Longrightarrow> sym_inv cfg X (invalidate s)"
  by (simp add: sym_defs invalidate_def)

lemma setSnapshotRequested_inv: "sym_inv cfg X s \<Longrightarrow> sym_inv cfg X (setSnapshotRequested v s)"
  by (simp add: sym_defs setSnapshotRequested_def)

lemma beginRefresh_inv: "sym_inv cfg X s \<Longrightarrow> sb_state s = VALID \<Longrightarrow> sym_inv cfg X (beginRefresh s)"
  by (simp add: sym_defs beginRefresh_def)

lemma cancelRefresh_inv: "sym_inv cfg X s \<Longrightarrow> cancelRefresh c s = (c', s') \<Longrightarrow> sym_inv cfg X s'"
  by (auto simp: sym_defs cancelRefresh_def split: if_splits)

lemma recordPublish_inv: "sym_inv cfg X s \<Longrightarrow> sym_inv cfg X (recordPublish now q s)"
  by (simp add: sym_defs recordPublish_def)

lemma genuine_ok: "genuine sync X d \<Longrightarrow> delta_ok d"
  by (simp add: genuine_def)

lemma list_all_tl: "list_all P xs \<Longrightarrow> list_all P (tl xs)"
  by (cases xs) auto

lemma bufferDelta_buf:
  assumes "bufferDelta d c s = (r, c', s')"
  obtains buf where "s' = s\<lparr>sb_deltaBuffer := buf\<rparr>"
    "length (sb_deltaBuffer s) \<le> MAX_DELTA_BUFFER_SIZE \<Longrightarrow> length buf \<le> MAX_DELTA_BUFFER_SIZE"
    "\<And>P. list_all P (sb_deltaBuffer s) \<Longrightarrow> P d \<Longrightarrow> list_all P buf"
proof (cases "MAX_DELTA_BUFFER_SIZE < length (sb_deltaBuffer s @ [d])")
  case True
  then have "s' = s\<lparr>sb_deltaBuffer := tl (sb_deltaBuffer s @ [d])\<rparr>"
    using assms by (simp add: bufferDelta_def Let_def)
  then show thesis by (rule that) (simp, rule list_all_tl, simp)
next
  case False
  then have "s' = s\<lparr>sb_deltaBuffer := sb_deltaBuffer s @ [d]\<rparr>"
    using assms by (simp add: bufferDelta_def Let_def)
  then show thesis by (rule that) (use False in simp_all)
qed

lemma bufferDelta_inv:
  assumes inv: "sym_inv cfg X s" and gen: "genuine (bc_sync cfg) X d" and res: "bufferDelta d c s = (r, c', s')"
  shows "sym_inv cfg X s'"
proof -
  obtain buf where s': "s' = s\<lparr>sb_deltaBuffer := buf\<rparr>"
      and len: "length (sb_deltaBuffer s) \<le> MAX_DELTA_BUFFER_SIZE \<Longrightarrow> length buf \<le> MAX_DELTA_BUFFER_SIZE"
      and all: "\<And>P. list_all P (sb_deltaBuffer s) \<Longrightarrow> P d \<Longrightarrow> list_all P buf"
    using bufferDelta_buf [OF res] by blast
  show ?thesis
    using inv len all [of delta_ok] all [of "genuine (bc_sync cfg) X"] gen genuine_ok [OF gen]
    by (simp add: sym_defs s')
qed

section \<open>Applying a delta\<close>

lemma applyLive_fields:
  assumes "applyLive cfg d q c s = (c', s')"
  shows "sb_book s' = applyLevels (bc_maxLevels cfg) (sb_book s) (bids d) (asks d)"
    "sb_seq s' = advance q d" "sb_state s' = VALID" "sb_refreshPending s' = sb_refreshPending s"
    "sb_shadow s' = sb_shadow s" "sb_deltaBuffer s' = sb_deltaBuffer s"
    "sb_lastPublished s' = sb_lastPublished s" "sb_hasPublished s' = sb_hasPublished s"
    "sb_rangeClosed s' = False"
    "sb_rangeFirstU s' = (if sb_rangeClosed s then firstUpdateId d else sb_rangeFirstU s)"
    "sb_rangePrevU s' = (if sb_rangeClosed s then prevFinalUpdateId d else sb_rangePrevU s)"
  using assms by (cases "sb_rangeClosed s"; auto simp: applyLive_def Let_def)+

lemma applyLive_inv:
  assumes inv: "sym_inv cfg X s" and st: "sb_state s = SYNCING \<or> sb_state s = VALID"
    and gen: "genuine (bc_sync cfg) X d"
    and chk: "checkSequence (bc_sync cfg) (sb_seq s) d = (APPLY, q)"
    and res: "applyLive cfg d q c s = (c', s')"
  shows "sym_inv cfg X s' \<and> sb_state s' = VALID"
proof -
  let ?n = "bc_maxLevels cfg"
  have "book_wf ?n (applyLevels ?n (sb_book s) (bids d) (asks d)) \<and>
      book_sees (applyLevels ?n (sb_book s) (bids d) (asks d)) (X (lastId (advance q d)))"
    by (rule depth_rule.apply_exact [OF chk _ gen]) (use inv st in \<open>auto simp: sym_defs\<close>)
  moreover have "\<not> needBridge (advance q d)" "seq_wf (advance q d)"
    using depth_rule.apply_bridged [OF chk] by (simp_all add: advance_def)
  ultimately show ?thesis
    using inv by (simp add: sym_defs applyLive_fields [OF res])
qed

lemma shadowStep_inv:
  assumes inv: "sym_inv cfg X s" and st: "sb_state s = VALID \<or> \<not> sh_pending (sb_shadow s)"
    and gen: "genuine (bc_sync cfg) X d"
    and res: "shadowStep cfg d c s = (c', s')"
  shows "sym_inv cfg X s' \<and> sb_state s' = sb_state s"
proof (cases "sh_pending (sb_shadow s)")
  case False
  with inv res show ?thesis by (simp add: shadowStep_def)
next
  case True
  with st have st': "sb_state s = VALID" by simp
  let ?n = "bc_maxLevels cfg" and ?sh = "sb_shadow s"
  obtain v q where chk: "checkSequence (bc_sync cfg) (sh_seq ?sh) d = (v, q)" by fastforce
  show ?thesis
  proof (cases v)
    case SKIP
    then have "q = sh_seq ?sh" using depth_rule.other_seq [OF chk] by simp
    then have "s' = s" using res chk SKIP True by (simp add: shadowStep_def)
    then show ?thesis using inv by simp
  next
    case FAIL
    then have "s' = s\<lparr>sb_shadow := emptyShadow\<rparr>" using res chk True by (simp add: shadowStep_def)
    then show ?thesis using inv shadow_wf_empty [of cfg]
      by (simp add: sym_inv_def sym_wf_def sym_exact_def)
  next
    case APPLY
    have "book_wf ?n (applyLevels ?n (sh_book ?sh) (bids d) (asks d)) \<and>
        book_sees (applyLevels ?n (sh_book ?sh) (bids d) (asks d)) (X (lastId (advance q d)))"
      by (rule depth_rule.apply_exact [OF chk [unfolded APPLY] _ gen]) (use inv True in \<open>auto simp: sym_defs\<close>)
    moreover have "\<not> needBridge (advance q d)" "seq_wf (advance q d)"
      using depth_rule.apply_bridged [OF chk [unfolded APPLY]] by (simp_all add: advance_def)
    moreover have "sb_book s' = applyLevels ?n (sh_book ?sh) (bids d) (asks d)" "sb_seq s' = advance q d"
        "sb_shadow s' = emptyShadow" "sb_state s' = sb_state s" "sb_deltaBuffer s' = sb_deltaBuffer s"
        "sb_refreshPending s' = sb_refreshPending s"
      using res chk APPLY True by (auto simp: shadowStep_def Let_def)
    ultimately show ?thesis using inv st' shadow_wf_empty [of cfg]
      by (simp add: sym_inv_def sym_wf_def sym_exact_def)
  qed
qed

text \<open>The shape of \<open>applyDelta\<close>: refused, failed, or let through in three stages.\<close>

lemma applyDelta_cases:
  assumes "applyDelta cfg d c s = (ok, c', s')"
  obtains (refused) "sb_state s \<noteq> SYNCING" "sb_state s \<noteq> VALID" "\<not> ok" "c' = c" "s' = s"
    | (failed) "sb_state s = SYNCING \<or> sb_state s = VALID" "\<not> ok" "c' = c" "s' = invalidate s"
        "fst (checkSequence (bc_sync cfg) (sb_seq s) d) = FAIL"
    | (passed) v q c1 s1 r c2 s2 where "sb_state s = SYNCING \<or> sb_state s = VALID" "ok"
        "checkSequence (bc_sync cfg) (sb_seq s) d = (v, q)" "v \<noteq> FAIL"
        "(if v = APPLY then applyLive cfg d q c s else (c, s)) = (c1, s1)"
        "(if sb_refreshPending s1 then bufferDelta d c1 s1 else (r, c1, s1)) = (r, c2, s2)"
        "shadowStep cfg d c2 s2 = (c', s')"
proof (cases "sb_state s = SYNCING \<or> sb_state s = VALID")
  case False
  then have "applyDelta cfg d c s = (False, c, s)" by (simp add: applyDelta_def)
  with assms have "\<not> ok" "c' = c" "s' = s" by simp_all
  then show thesis using False refused by simp
next
  case True
  obtain v q where chk: "checkSequence (bc_sync cfg) (sb_seq s) d = (v, q)" by fastforce
  have q: "v \<noteq> APPLY \<Longrightarrow> q = sb_seq s" using depth_rule.other_seq [OF chk] .
  have frame: "s\<lparr>sb_seq := sb_seq s\<rparr> = s" by simp
  show thesis
  proof (cases "v = FAIL")
    case fail: True
    then have "applyDelta cfg d c s = (False, c, invalidate (s\<lparr>sb_seq := q\<rparr>))"
      using True chk by (auto simp: applyDelta_def)
    then have "\<not> ok" "c' = c" "s' = invalidate s"
      using assms fail q frame by simp_all
    then show thesis using failed True chk fail by simp
  next
    case False
    obtain c1 s1 where a: "(if v = APPLY then applyLive cfg d q c s else (c, s)) = (c1, s1)" by fastforce
    obtain r c2 s2 where b: "(if sb_refreshPending s1 then bufferDelta d c1 s1 else (True, c1, s1)) = (r, c2, s2)"
      by (metis prod_cases3)
    have a': "(if v = APPLY then applyLive cfg d q c s else (c, s\<lparr>sb_seq := q\<rparr>)) = (c1, s1)"
      using a q frame by (cases "v = APPLY") simp_all
    have b': "(if sb_refreshPending s1 then snd (bufferDelta d c1 s1) else (c1, s1)) = (c2, s2)"
      using b by (cases "sb_refreshPending s1") simp_all
    have "applyDelta cfg d c s = (let (c3, s3) = shadowStep cfg d c2 s2 in (True, c3, s3))"
      using True chk False a' b' unfolding applyDelta_def
      by (cases v) (simp_all only: prod.case Verdict.case Let_def if_False if_True simp_thms, auto)
    then have "ok" "shadowStep cfg d c2 s2 = (c', s')"
      using assms by (simp_all add: Let_def split: prod.splits)
    moreover have "(if sb_refreshPending s1 then bufferDelta d c1 s1 else (r, c1, s1)) = (r, c2, s2)"
      using b by (cases "sb_refreshPending s1") simp_all
    ultimately show thesis using passed [OF True _ chk False a] by blast
  qed
qed

lemma applyDelta_inv:
  assumes inv: "sym_inv cfg X s" and gen: "genuine (bc_sync cfg) X d"
    and res: "applyDelta cfg d c s = (ok, c', s')"
  shows "sym_inv cfg X s'"
proof (cases rule: applyDelta_cases [OF res, case_names refused failed passed])
  case refused
  with inv show ?thesis by simp
next
  case failed
  with inv show ?thesis by (simp add: invalidate_inv)
next
  case (passed v q c1 s1 r c2 s2)
  have st: "sb_state s = VALID \<or> \<not> sh_pending (sb_shadow s)"
    using inv passed(1) by (auto simp: sym_defs)
  have frame: "v = APPLY \<Longrightarrow> sb_shadow s1 = sb_shadow s"
    using passed(5) by (auto simp: applyLive_def Let_def)
  have 1: "sym_inv cfg X s1 \<and> (sb_state s1 = VALID \<or> \<not> sh_pending (sb_shadow s1))"
    using passed(1,3,5) inv st applyLive_inv [OF inv passed(1) gen] by (auto split: if_splits)
  have "sym_inv cfg X s2 \<and> (sb_state s2 = VALID \<or> \<not> sh_pending (sb_shadow s2))"
  proof (cases "sb_refreshPending s1")
    case True
    with passed(6) have b: "bufferDelta d c1 s1 = (r, c2, s2)" by simp
    obtain buf where "s2 = s1\<lparr>sb_deltaBuffer := buf\<rparr>" using bufferDelta_buf [OF b] by blast
    then show ?thesis using 1 bufferDelta_inv [OF _ gen b] by simp
  next
    case False
    with passed(6) 1 show ?thesis by simp
  qed
  then show ?thesis using shadowStep_inv [OF _ _ gen passed(7)] by blast
qed

section \<open>Snapshots\<close>

lemma checkSequence_snapshotId: "checkSequence sync q d = (v, q') \<Longrightarrow> snapshotId q' = snapshotId q"
  using depth_rule.apply_seq [of sync q d q'] depth_rule.other_seq [of sync q d v q'] by (cases v) auto

lemma replayShadow_snapshotId:
  "replayShadow cfg ds b q = (failed, b', q') \<Longrightarrow> snapshotId q' = snapshotId q"
proof (induction ds arbitrary: b q)
  case (Cons d ds)
  obtain v q1 where chk: "checkSequence (bc_sync cfg) q d = (v, q1)" by fastforce
  have step: "replayShadow cfg ds b1 q2 = (failed, b', q') \<Longrightarrow> snapshotId q2 = snapshotId q \<Longrightarrow> ?case" for b1 q2
    using Cons.IH [of b1 q2] by simp
  show ?case
  proof (cases v)
    case APPLY
    then show ?thesis using Cons.prems chk checkSequence_snapshotId [OF chk]
      by (intro step [of _ "advance q1 d"]) (simp_all add: advance_def)
  next
    case SKIP
    then show ?thesis using Cons.prems chk checkSequence_snapshotId [OF chk] by (intro step [of b q1]) simp_all
  next
    case FAIL
    then show ?thesis using Cons.prems chk checkSequence_snapshotId [OF chk] by simp
  qed
qed simp

lemma replayShadow_inv:
  assumes "replayShadow cfg ds b q = (failed, b', q')"
    and "list_all (genuine (bc_sync cfg) X) ds"
    and "book_wf (bc_maxLevels cfg) b" "seq_wf q" "book_sees b (X (lastId q))"
  shows "book_wf (bc_maxLevels cfg) b' \<and> seq_wf q' \<and> book_sees b' (X (lastId q'))"
  using assms
proof (induction ds arbitrary: b q)
  case (Cons d ds)
  obtain v q1 where chk: "checkSequence (bc_sync cfg) q d = (v, q1)" by fastforce
  show ?case
  proof (cases v)
    case APPLY
    have "book_wf (bc_maxLevels cfg) (applyLevels (bc_maxLevels cfg) b (bids d) (asks d)) \<and>
        book_sees (applyLevels (bc_maxLevels cfg) b (bids d) (asks d)) (X (lastId (advance q1 d)))"
      by (rule depth_rule.apply_exact [OF chk [unfolded APPLY]]) (use Cons.prems in simp_all)
    moreover have "seq_wf (advance q1 d)"
      using depth_rule.apply_bridged [OF chk [unfolded APPLY]] by blast
    ultimately show ?thesis using Cons chk APPLY by simp
  next
    case SKIP
    then have "q1 = q" using depth_rule.other_seq [OF chk] by simp
    then show ?thesis using Cons chk SKIP by simp
  next
    case FAIL
    then have "q1 = q" using depth_rule.other_seq [OF chk] by simp
    then show ?thesis using Cons.prems chk FAIL by simp
  qed
qed simp

lemma finishRefresh_cases:
  assumes "finishRefresh cfg i bs as c s = (r, c', s')"
    and "replayShadow cfg (sb_deltaBuffer s) (loadBook cfg bs as) (loadedSeq i) = (failed, b, q)"
  obtains (failed) "failed" "r = REFRESH_FAILED" "c' = c\<lparr>refreshFailures := refreshFailures c + 1\<rparr>"
      "s' = s\<lparr>sb_refreshPending := False, sb_deltaBuffer := []\<rparr>"
    | (current) "\<not> failed" "needBridge q" "i = lastId (sb_seq s)" "r = REFRESHED"
      "c' = c\<lparr>depthRefreshes := depthRefreshes c + 1\<rparr>"
      "s' = s\<lparr>sb_refreshPending := False, sb_deltaBuffer := [], sb_book := b,
              sb_wasExhausted := depthExhausted cfg (s\<lparr>sb_book := b\<rparr>)\<rparr>"
    | (waiting) "\<not> failed" "needBridge q" "i \<noteq> lastId (sb_seq s)" "r = REFRESH_AWAITING_BRIDGE" "c' = c"
      "s' = s\<lparr>sb_refreshPending := False, sb_deltaBuffer := [],
              sb_shadow := \<lparr>sh_book = b, sh_seq = q, sh_pending = True\<rparr>\<rparr>"
    | (bridged) "\<not> failed" "\<not> needBridge q" "r = REFRESHED"
      "c' = c\<lparr>depthRefreshes := depthRefreshes c + 1\<rparr>"
      "s' = s\<lparr>sb_refreshPending := False, sb_deltaBuffer := [], sb_book := b, sb_seq := q,
              sb_wasExhausted := depthExhausted cfg (s\<lparr>sb_book := b\<rparr>)\<rparr>"
proof (cases "failed")
  case True
  then show thesis using assms failed by (simp add: finishRefresh_def Let_def)
next
  case False
  note nf = False
  show thesis
  proof (cases "needBridge q")
    case nb: True
    show thesis
    proof (cases "i = lastId (sb_seq s)")
      case True
      then show thesis using assms nf nb current by (simp add: finishRefresh_def Let_def depthExhausted_def)
    next
      case False
      then show thesis using assms nf nb waiting by (simp add: finishRefresh_def Let_def)
    qed
  next
    case False
    then show thesis using assms nf bridged by (simp add: finishRefresh_def Let_def depthExhausted_def)
  qed
qed

lemma finishRefresh_inv:
  assumes inv: "sym_inv cfg X s" and st: "sb_state s = VALID" and gen: "genuine_snapshot cfg X i bs as"
    and res: "finishRefresh cfg i bs as c s = (r, c', s')"
  shows "sym_inv cfg X s'"
proof -
  obtain failed b q where rep:
      "replayShadow cfg (sb_deltaBuffer s) (loadBook cfg bs as) (loadedSeq i) = (failed, b, q)"
    by (metis prod_cases3)
  have ld: "book_wf (bc_maxLevels cfg) (loadBook cfg bs as)" "book_sees (loadBook cfg bs as) (X i)"
    using loadBook_inv [OF _ gen] inv by (simp_all add: sym_inv_def)
  have b: "book_wf (bc_maxLevels cfg) b" "seq_wf q" "book_sees b (X (lastId q))"
    using replayShadow_inv [OF rep, of X] inv ld by (simp_all add: sym_inv_def sym_exact_def)
  have same: "needBridge q \<Longrightarrow> lastId q = i"
    using b(2) replayShadow_snapshotId [OF rep] by (simp add: seq_wf_def)
  show ?thesis
    by (cases rule: finishRefresh_cases [OF res rep, case_names failed current waiting bridged])
      (use inv st b same in \<open>simp_all add: sym_defs\<close>)
qed

lemma applySnapshot_inv:
  assumes "sym_inv cfg X s" "sb_state s = INIT" "genuine_snapshot cfg X i bs as"
  shows "sym_inv cfg X (applySnapshot cfg i bs as (s\<lparr>sb_refreshPending := False\<rparr>))"
  using assms loadBook_inv [of cfg X i bs as] by (simp add: sym_defs applySnapshot_def)

lemma replayLive_inv:
  "replayLive cfg ds c s = (failed, c', s') \<Longrightarrow> sym_inv cfg X s \<Longrightarrow>
     list_all (genuine (bc_sync cfg) X) ds \<Longrightarrow> sym_inv cfg X s'"
proof (induction ds arbitrary: c s)
  case (Cons d ds)
  obtain ok c1 s1 where st: "applyDelta cfg d c s = (ok, c1, s1)" by (metis prod_cases3)
  have "sym_inv cfg X s1" by (rule applyDelta_inv [OF _ _ st]) (use Cons.prems in simp_all)
  with Cons st show ?case by (cases ok) auto
qed simp

lemma onSnapshot_cases:
  assumes "onSnapshot cfg i bs as c s = (r, c', s')"
  obtains (refresh) "sb_state s = VALID" "sb_refreshPending s"
      "finishRefresh cfg i bs as c (s\<lparr>sb_snapshotRequested := False\<rparr>) = (r, c', s')"
    | (ignored) "sb_state s \<noteq> INIT" "\<not> (sb_state s = VALID \<and> sb_refreshPending s)" "r = IGNORED" "c' = c"
      "s' = s\<lparr>sb_snapshotRequested := False, sb_refreshPending := False\<rparr>"
    | (sync) failed s2 where "sb_state s = INIT" "s' = s2\<lparr>sb_deltaBuffer := []\<rparr>"
      "replayLive cfg (sb_deltaBuffer s) c
         (applySnapshot cfg i bs as (s\<lparr>sb_snapshotRequested := False, sb_refreshPending := False\<rparr>))
         = (failed, c', s2)"
      "r = (if failed then SYNC_FAILED else if sb_state s2 = VALID then SYNCED else AWAITING_BRIDGE)"
proof (cases "sb_state s = VALID \<and> sb_refreshPending s")
  case True
  then show thesis using assms refresh by (simp add: onSnapshot_def Let_def)
next
  case False
  note nr = False
  show thesis
  proof (cases "sb_state s = INIT")
    case True
    obtain failed c2 s2 where rep: "replayLive cfg (sb_deltaBuffer s) c
         (applySnapshot cfg i bs as (s\<lparr>sb_snapshotRequested := False, sb_refreshPending := False\<rparr>))
         = (failed, c2, s2)" by (metis prod_cases3)
    have "r = (if failed then SYNC_FAILED else if sb_state s2 = VALID then SYNCED else AWAITING_BRIDGE)"
        "c' = c2" "s' = s2\<lparr>sb_deltaBuffer := []\<rparr>"
      using assms True rep by (auto simp: onSnapshot_def Let_def split: if_splits)
    then show thesis using sync [of s2 failed] True rep by blast
  next
    case False
    then show thesis using assms nr ignored by (auto simp: onSnapshot_def Let_def)
  qed
qed

lemma onSnapshot_inv:
  assumes inv: "sym_inv cfg X s" and gen: "genuine_snapshot cfg X i bs as"
    and res: "onSnapshot cfg i bs as c s = (r, c', s')"
  shows "sym_inv cfg X s'"
proof (cases rule: onSnapshot_cases [OF res, case_names refresh ignored sync])
  case refresh
  then show ?thesis
    using finishRefresh_inv [OF _ _ gen refresh(3)] setSnapshotRequested_inv [OF inv, of False]
    by (simp add: setSnapshotRequested_def)
next
  case ignored
  then show ?thesis using inv by (simp add: sym_defs)
next
  case (sync failed s2)
  have "sym_inv cfg X (applySnapshot cfg i bs as (s\<lparr>sb_snapshotRequested := False, sb_refreshPending := False\<rparr>))"
    using applySnapshot_inv [OF setSnapshotRequested_inv [OF inv, of False] _ gen] sync(1)
    by (simp add: setSnapshotRequested_def)
  then have "sym_inv cfg X s2" by (rule replayLive_inv [OF sync(3)]) (use inv in \<open>simp add: sym_defs\<close>)
  then show ?thesis by (simp add: sync(2) sym_defs)
qed

end
