(* ===== verification/Order_Book_Machine.thy ===== *)
theory Order_Book_Machine
  imports Order_Book_Exact
begin

text \<open>
  One symbol's book as a state machine: \<open>book_step\<close> has one rule for each way the handler drives
  \<open>OrderBookManager\<close>, and \<open>step_counters\<close> for what the other symbols do to the shared counters. Reachable states keep \<open>sym_inv\<close>, so a quote marked valid carries the
  exchange's best levels. With events in order (\<open>ord\<close>) they also keep \<open>chain_inv\<close>: a background
  refresh never moves the update id, and consecutive valid quotes chain without a hole.
\<close>

section \<open>Steps\<close>

definition in_order :: "BookConfig \<Rightarrow> SymBook \<Rightarrow> BufferedDelta \<Rightarrow> bool" where
  "in_order cfg s d \<longleftrightarrow>
     (bc_sync cfg = Spot \<and> sb_state s = VALID \<longrightarrow> lastId (sb_seq s) \<le> finalUpdateId d)"

inductive book_step ::
    "BookConfig \<Rightarrow> (int \<Rightarrow> exchange_book) \<Rightarrow> bool \<Rightarrow> BookCounters \<times> SymBook \<Rightarrow> BookCounters \<times> SymBook \<Rightarrow> bool"
  for cfg X ord where
  step_buffer: "sb_state s = INIT \<Longrightarrow> genuine (bc_sync cfg) X d \<Longrightarrow> bufferDelta d c s = (r, c', s') \<Longrightarrow>
    book_step cfg X ord (c, s) (c', s')"
| step_delta: "genuine (bc_sync cfg) X d \<Longrightarrow> (ord \<Longrightarrow> in_order cfg s d) \<Longrightarrow>
    applyDelta cfg d c s = (ok, c', s') \<Longrightarrow> book_step cfg X ord (c, s) (c', s')"
| step_snapshot: "genuine_snapshot cfg X i bs as \<Longrightarrow> onSnapshot cfg i bs as c s = (r, c', s') \<Longrightarrow>
    book_step cfg X ord (c, s) (c', s')"
| step_refresh: "wantsRefresh cfg s \<Longrightarrow> book_step cfg X ord (c, s) (c, beginRefresh s)"
| step_cancel: "cancelRefresh c s = (c', s') \<Longrightarrow> book_step cfg X ord (c, s) (c', s')"
| step_request: "book_step cfg X ord (c, s) (c, setSnapshotRequested v s)"
| step_invalidate: "book_step cfg X ord (c, s) (c, invalidate s)"
| step_reset: "\<not> lastPublishedValid s \<Longrightarrow> book_step cfg X ord (c, s) (c, reset s)"
| step_publish: "q = getQuote cfg sy s t n \<or> \<not> q_isValid q \<Longrightarrow>
    book_step cfg X ord (c, s) (c, recordPublish now q s)"
| step_counters: "book_step cfg X ord (c, s) (c', s)"

inductive_cases book_stepE: "book_step cfg X ord (c, s) (c', s')"

inductive book_reach ::
    "BookConfig \<Rightarrow> (int \<Rightarrow> exchange_book) \<Rightarrow> bool \<Rightarrow> BookCounters \<times> SymBook \<Rightarrow> bool"
  for cfg X ord where
  reach_start: "book_reach cfg X ord (c, newSymBook now)"
| reach_step: "book_reach cfg X ord x \<Longrightarrow> book_step cfg X ord x y \<Longrightarrow> book_reach cfg X ord y"

lemma book_step_inv:
  "book_step cfg X ord x y \<Longrightarrow> sym_inv cfg X (snd x) \<Longrightarrow> sym_inv cfg X (snd y)"
proof (induction rule: book_step.induct)
  case step_buffer
  then show ?case by (auto intro: bufferDelta_inv)
next
  case step_delta
  then show ?case by (auto intro: applyDelta_inv)
next
  case step_snapshot
  then show ?case by (auto intro: onSnapshot_inv)
next
  case step_refresh
  then show ?case by (auto simp: wantsRefresh_def intro: beginRefresh_inv)
next
  case step_cancel
  then show ?case by (auto intro: cancelRefresh_inv)
qed (simp_all add: setSnapshotRequested_inv invalidate_inv reset_inv recordPublish_inv)

lemma book_reach_inv: "book_reach cfg X ord x \<Longrightarrow> cfg_ok cfg \<Longrightarrow> sym_inv cfg X (snd x)"
  by (induction rule: book_reach.induct) (auto simp: newSymBook_inv dest: book_step_inv)

section \<open>What a valid quote carries\<close>

lemma slots_pad:
  "map (slot f ls) [0..<n] = map f (take n (rev ls)) @ replicate (n - length ls) 0"
proof (rule nth_equalityI)
  show "length (map (slot f ls) [0..<n]) = length (map f (take n (rev ls)) @ replicate (n - length ls) 0)"
    by simp
next
  fix i assume "i < length (map (slot f ls) [0..<n])"
  then have i: "i < n" by simp
  show "map (slot f ls) [0..<n] ! i = (map f (take n (rev ls)) @ replicate (n - length ls) 0) ! i"
  proof (cases "i < length ls")
    case True
    with i show ?thesis by (simp add: slot_def nth_append rev_nth)
  next
    case False
    with i show ?thesis by (simp add: slot_def nth_append)
  qed
qed

text \<open>A published side: the best levels \<open>L\<close>, best first, padded with zeros to the depth.\<close>

definition shows_levels :: "nat \<Rightarrow> double list \<Rightarrow> double list \<Rightarrow> PriceLevel list \<Rightarrow> bool" where
  "shows_levels n ps qs L \<longleftrightarrow>
     ps = map price L @ replicate (n - length L) 0 \<and> qs = map qty L @ replicate (n - length L) 0"

lemma slots_show: "shows_levels n (map (slot price ls) [0..<n]) (map (slot qty ls) [0..<n]) (take n (rev ls))"
proof -
  have "n - length (take n (rev ls)) = n - length ls" by simp
  then show ?thesis by (simp only: shows_levels_def slots_pad simp_thms)
qed

lemma getQuote_valid:
  assumes "q_isValid (getQuote cfg sy s t n)"
  shows "sb_state s = VALID" "\<not> depthExhausted cfg s"
    "q_exchUpdateId (getQuote cfg sy s t n) = lastId (sb_seq s)"
    "q_exchFirstUpdateId (getQuote cfg sy s t n) = sb_rangeFirstU s"
    "q_exchPrevUpdateId (getQuote cfg sy s t n) = (if bc_sync cfg = Futures then sb_rangePrevU s else 0)"
    "shows_levels (bc_depth cfg) (q_bidPrices (getQuote cfg sy s t n)) (q_bidQtys (getQuote cfg sy s t n))
       (take (bc_depth cfg) (rev (levels (bid (sb_book s)))))"
    "shows_levels (bc_depth cfg) (q_askPrices (getQuote cfg sy s t n)) (q_askQtys (getQuote cfg sy s t n))
       (take (bc_depth cfg) (rev (levels (ask (sb_book s)))))"
proof -
  show v: "sb_state s = VALID" "\<not> depthExhausted cfg s"
    using assms by (auto simp: getQuote_def Let_def emptyQuote_def split: if_splits)
  then show "q_exchUpdateId (getQuote cfg sy s t n) = lastId (sb_seq s)"
    "q_exchFirstUpdateId (getQuote cfg sy s t n) = sb_rangeFirstU s"
    "q_exchPrevUpdateId (getQuote cfg sy s t n) = (if bc_sync cfg = Futures then sb_rangePrevU s else 0)"
    by (simp_all add: getQuote_def Let_def)
  show "shows_levels (bc_depth cfg) (q_bidPrices (getQuote cfg sy s t n)) (q_bidQtys (getQuote cfg sy s t n))
       (take (bc_depth cfg) (rev (levels (bid (sb_book s)))))"
    using v by (simp add: getQuote_def Let_def slots_show del: take_rev)
  show "shows_levels (bc_depth cfg) (q_askPrices (getQuote cfg sy s t n)) (q_askQtys (getQuote cfg sy s t n))
       (take (bc_depth cfg) (rev (levels (ask (sb_book s)))))"
    using v by (simp add: getQuote_def Let_def slots_show del: take_rev)
qed

lemma valid_book_tops:
  assumes "sym_inv cfg X s" "sb_state s = VALID" "\<not> depthExhausted cfg s"
  shows "top_levels True (bc_depth cfg) (fst (X (lastId (sb_seq s))))
           (take (bc_depth cfg) (rev (levels (bid (sb_book s)))))"
    "top_levels False (bc_depth cfg) (snd (X (lastId (sb_seq s))))
           (take (bc_depth cfg) (rev (levels (ask (sb_book s)))))"
proof -
  have "book_wf (bc_maxLevels cfg) (sb_book s)" "book_sees (sb_book s) (X (lastId (sb_seq s)))"
    using assms(1,2) by (simp_all add: sym_inv_def sym_wf_def sym_exact_def)
  then have wf: "side_wf True (bc_maxLevels cfg) (bid (sb_book s))" "side_wf False (bc_maxLevels cfg) (ask (sb_book s))"
    and se: "sees True (bid (sb_book s)) (fst (X (lastId (sb_seq s))))"
            "sees False (ask (sb_book s)) (snd (X (lastId (sb_seq s))))"
    by (simp_all add: book_wf_def book_sees_def capped_def)
  show "top_levels True (bc_depth cfg) (fst (X (lastId (sb_seq s))))
           (take (bc_depth cfg) (rev (levels (bid (sb_book s)))))"
    by (rule top_of_side [OF wf(1) se(1)]) (use assms(3) in \<open>simp add: depthExhausted_def\<close>)
  show "top_levels False (bc_depth cfg) (snd (X (lastId (sb_seq s))))
           (take (bc_depth cfg) (rev (levels (ask (sb_book s)))))"
    by (rule top_of_side [OF wf(2) se(2)]) (use assms(3) in \<open>simp add: depthExhausted_def\<close>)
qed

section \<open>Refreshes keep the update id\<close>

text \<open>What is buffered during a refresh ends where the live book is.\<close>

definition buffer_current :: "BookConfig \<Rightarrow> SymBook \<Rightarrow> bool" where
  "buffer_current cfg s \<longleftrightarrow>
     (sb_state s = VALID \<and> sb_refreshPending s \<and> sb_deltaBuffer s \<noteq> [] \<longrightarrow>
        finalUpdateId (last (sb_deltaBuffer s)) = lastId (sb_seq s)) \<and>
     (bc_sync cfg = Spot \<and> sb_state s = VALID \<and> sb_refreshPending s \<longrightarrow>
        sorted (map finalUpdateId (sb_deltaBuffer s)))"

lemma bridged_verdict:
  assumes "checkSequence sync q d = (v, q')" "\<not> needBridge q" "sync = Spot \<Longrightarrow> lastId q \<le> finalUpdateId d"
  shows "v = APPLY \<or> v = FAIL"
  using assms by (cases sync) (auto simp: checkSequence_def Let_def split: if_splits)

lemma replayShadow_last:
  assumes "replayShadow cfg ds b q = (False, b', q')" "\<not> needBridge q"
    and "bc_sync cfg = Spot \<Longrightarrow> sorted (map finalUpdateId ds) \<and> (\<forall>d \<in> set ds. lastId q \<le> finalUpdateId d)"
  shows "\<not> needBridge q' \<and> lastId q' = (if ds = [] then lastId q else finalUpdateId (last ds))"
  using assms
proof (induction ds arbitrary: b q)
  case (Cons d ds)
  obtain v q1 where chk: "checkSequence (bc_sync cfg) q d = (v, q1)" by fastforce
  have "v = APPLY \<or> v = FAIL" using bridged_verdict [OF chk] Cons.prems by simp
  with Cons.prems(1) chk have v: "v = APPLY" by auto
  have "\<not> needBridge (advance q1 d)" "lastId (advance q1 d) = finalUpdateId d"
    using depth_rule.apply_bridged chk v by (auto simp: advance_def)
  with Cons.IH [of _ "advance q1 d"] Cons.prems chk v show ?case by (cases ds) auto
qed simp

lemma replayShadow_bridged_last:
  assumes "replayShadow cfg ds b q = (False, b', q')" "needBridge q" "\<not> needBridge q'"
    and "bc_sync cfg = Spot \<Longrightarrow> sorted (map finalUpdateId ds)"
  shows "ds \<noteq> [] \<and> lastId q' = finalUpdateId (last ds)"
  using assms
proof (induction ds arbitrary: b q)
  case (Cons d ds)
  obtain v q1 where chk: "checkSequence (bc_sync cfg) q d = (v, q1)" by fastforce
  show ?case
  proof (cases v)
    case FAIL
    with Cons.prems(1) chk show ?thesis by simp
  next
    case APPLY
    have adv: "\<not> needBridge (advance q1 d)" "lastId (advance q1 d) = finalUpdateId d"
      using depth_rule.apply_bridged [OF chk [unfolded APPLY]] by (auto simp: advance_def)
    have "lastId q' = (if ds = [] then lastId (advance q1 d) else finalUpdateId (last ds))"
      using replayShadow_last [OF _ adv(1), of cfg ds _ b' q'] Cons.prems chk APPLY adv(2) by auto
    with adv(2) show ?thesis by simp
  next
    case SKIP
    then have "q1 = q" using depth_rule.other_seq [OF chk] by simp
    with SKIP Cons.IH [of b q] Cons.prems chk show ?thesis by auto
  qed
qed simp

lemma finishRefresh_lastId:
  assumes cur: "buffer_current cfg s" and st: "sb_state s = VALID" "sb_refreshPending s"
    and res: "finishRefresh cfg i bs as c s = (r, c', s')"
  shows "lastId (sb_seq s') = lastId (sb_seq s)"
proof -
  obtain failed b q where rep:
      "replayShadow cfg (sb_deltaBuffer s) (loadBook cfg bs as) (loadedSeq i) = (failed, b, q)"
    by (metis prod_cases3)
  show ?thesis
  proof (cases rule: finishRefresh_cases [OF res rep, case_names failed current waiting bridged])
    case bridged
    have "sb_deltaBuffer s \<noteq> [] \<and> lastId q = finalUpdateId (last (sb_deltaBuffer s))"
      by (rule replayShadow_bridged_last [of cfg _ "loadBook cfg bs as" "loadedSeq i" b])
        (use rep bridged cur st in \<open>auto simp: buffer_current_def\<close>)
    with cur st have "lastId q = lastId (sb_seq s)" by (simp add: buffer_current_def)
    then show ?thesis by (simp add: bridged)
  qed simp_all
qed

section \<open>Consecutive valid quotes chain\<close>

text \<open>
  How the open or closed range of a book stands to the last published quote \<open>p\<close>: nothing was
  applied since, or the range that is open starts where \<open>p\<close> ended.
\<close>

definition chains_from :: "BookConfig \<Rightarrow> BookQuote \<Rightarrow> SymBook \<Rightarrow> bool" where
  "chains_from cfg p s \<longleftrightarrow>
     (if sb_rangeClosed s
      then lastId (sb_seq s) = q_exchUpdateId p \<and> sb_rangeFirstU s = q_exchFirstUpdateId p \<and>
           (bc_sync cfg = Futures \<longrightarrow> sb_rangePrevU s = q_exchPrevUpdateId p)
      else q_exchUpdateId p \<le> lastId (sb_seq s) \<and>
           (bc_sync cfg = Spot \<longrightarrow> sb_rangeFirstU s \<le> q_exchUpdateId p + 1) \<and>
           (bc_sync cfg = Futures \<longrightarrow> sb_rangePrevU s = q_exchUpdateId p))"

definition chain_inv :: "BookConfig \<Rightarrow> SymBook \<Rightarrow> bool" where
  "chain_inv cfg s \<longleftrightarrow> buffer_current cfg s \<and>
     (lastPublishedValid s \<longrightarrow> sb_state s = INVALID \<or> sb_state s = VALID \<and> chains_from cfg (sb_lastPublished s) s)"

lemma chain_inv_unpublished: "\<not> lastPublishedValid s \<Longrightarrow> buffer_current cfg s \<Longrightarrow> chain_inv cfg s"
  by (simp add: chain_inv_def)

lemma chain_inv_cong:
  assumes "chain_inv cfg s" "buffer_current cfg s'" "sb_state s' = sb_state s"
    "lastId (sb_seq s') = lastId (sb_seq s)" "sb_rangeClosed s' = sb_rangeClosed s"
    "sb_rangeFirstU s' = sb_rangeFirstU s" "sb_rangePrevU s' = sb_rangePrevU s"
    "sb_lastPublished s' = sb_lastPublished s" "sb_hasPublished s' = sb_hasPublished s"
  shows "chain_inv cfg s'"
  using assms by (cases "sb_rangeClosed s"; simp add: chain_inv_def lastPublishedValid_def chains_from_def)

lemma shadowStep_frame:
  assumes "shadowStep cfg d c s = (c', s')" "lastId (sb_seq s) = finalUpdateId d"
  shows "lastId (sb_seq s') = lastId (sb_seq s)" "sb_state s' = sb_state s"
    "sb_rangeClosed s' = sb_rangeClosed s" "sb_rangeFirstU s' = sb_rangeFirstU s"
    "sb_rangePrevU s' = sb_rangePrevU s" "sb_lastPublished s' = sb_lastPublished s"
    "sb_hasPublished s' = sb_hasPublished s" "sb_deltaBuffer s' = sb_deltaBuffer s"
    "sb_refreshPending s' = sb_refreshPending s"
  using assms by (auto simp: shadowStep_def Let_def advance_def split: if_splits prod.splits Verdict.splits)

lemma shadowStep_published:
  assumes "shadowStep cfg d c s = (c', s')"
  shows "sb_lastPublished s' = sb_lastPublished s" "sb_hasPublished s' = sb_hasPublished s"
  using assms by (auto simp: shadowStep_def Let_def split: if_splits prod.splits Verdict.splits)

lemma applyDelta_published:
  assumes "applyDelta cfg d c s = (ok, c', s')"
  shows "sb_lastPublished s' = sb_lastPublished s \<and> sb_hasPublished s' = sb_hasPublished s"
proof (cases rule: applyDelta_cases [OF assms, case_names refused failed passed])
  case (passed v q c1 s1 r c2 s2)
  have "sb_lastPublished s1 = sb_lastPublished s \<and> sb_hasPublished s1 = sb_hasPublished s"
  proof (cases "v = APPLY")
    case True
    with passed(5) have "applyLive cfg d q c s = (c1, s1)" by simp
    then show ?thesis by (simp add: applyLive_fields)
  qed (use passed(5) in simp)
  moreover have "sb_lastPublished s2 = sb_lastPublished s1 \<and> sb_hasPublished s2 = sb_hasPublished s1"
  proof (cases "sb_refreshPending s1")
    case True
    with passed(6) have "bufferDelta d c1 s1 = (r, c2, s2)" by simp
    then obtain buf where "s2 = s1\<lparr>sb_deltaBuffer := buf\<rparr>" by (rule bufferDelta_buf)
    then show ?thesis by simp
  qed (use passed(6) in simp)
  ultimately show ?thesis using shadowStep_published [OF passed(7)] by simp
qed (simp_all add: invalidate_def)

lemma replayLive_published:
  "replayLive cfg ds c s = (f, c', s') \<Longrightarrow>
     sb_lastPublished s' = sb_lastPublished s \<and> sb_hasPublished s' = sb_hasPublished s"
proof (induction ds arbitrary: c s)
  case (Cons d ds)
  obtain ok c1 s1 where "applyDelta cfg d c s = (ok, c1, s1)" by (metis prod_cases3)
  with Cons applyDelta_published [OF this] show ?case by (cases ok) auto
qed simp

lemma bufferDelta_last:
  assumes "bufferDelta d c s = (r, c', s')"
  obtains buf where "s' = s\<lparr>sb_deltaBuffer := buf\<rparr>" "buf \<noteq> []" "last buf = d"
    "\<And>f::BufferedDelta \<Rightarrow> int. sorted (map f (sb_deltaBuffer s)) \<Longrightarrow>
       (sb_deltaBuffer s \<noteq> [] \<Longrightarrow> f (last (sb_deltaBuffer s)) \<le> f d) \<Longrightarrow> sorted (map f buf)"
proof -
  let ?b = "sb_deltaBuffer s"
  have srt: "sorted (map f (?b @ [d]))" if "sorted (map f ?b)" "?b \<noteq> [] \<Longrightarrow> f (last ?b) \<le> f d"
    for f :: "BufferedDelta \<Rightarrow> int"
  proof -
    have "f x \<le> f d" if "x \<in> set ?b" for x
    proof -
      from that have ne: "?b \<noteq> []" by auto
      from that obtain j where "j < length ?b" "x = ?b ! j" by (auto simp: in_set_conv_nth)
      with \<open>sorted (map f ?b)\<close> ne have "f x \<le> f (last ?b)"
        using sorted_nth_mono [of "map f ?b" j "length ?b - 1"] by (simp add: last_conv_nth)
      with \<open>?b \<noteq> [] \<Longrightarrow> f (last ?b) \<le> f d\<close> ne show ?thesis by simp
    qed
    with \<open>sorted (map f ?b)\<close> show ?thesis by (simp add: sorted_append)
  qed
  show thesis
  proof (cases "MAX_DELTA_BUFFER_SIZE < length (?b @ [d])")
    case True
    then have ne: "?b \<noteq> []" by (auto simp: MAX_DELTA_BUFFER_SIZE_def)
    with True assms have "s' = s\<lparr>sb_deltaBuffer := tl ?b @ [d]\<rparr>" by (simp add: bufferDelta_def Let_def)
    then show thesis
    proof (rule that)
      fix f :: "BufferedDelta \<Rightarrow> int"
      assume "sorted (map f ?b)" "?b \<noteq> [] \<Longrightarrow> f (last ?b) \<le> f d"
      then have "sorted (map f (?b @ [d]))" by (rule srt)
      with ne show "sorted (map f (tl ?b @ [d]))" by (cases ?b) auto
    qed simp_all
  next
    case False
    with assms have "s' = s\<lparr>sb_deltaBuffer := ?b @ [d]\<rparr>" by (simp add: bufferDelta_def Let_def)
    then show thesis
    proof (rule that)
      fix f :: "BufferedDelta \<Rightarrow> int"
      assume "sorted (map f ?b)" "?b \<noteq> [] \<Longrightarrow> f (last ?b) \<le> f d"
      then show "sorted (map f (?b @ [d]))" by (rule srt)
    qed simp_all
  qed
qed

lemma checkSequence_chain:
  assumes "checkSequence sync q d = (APPLY, q')" "\<not> needBridge q" "genuine sync X d"
  shows "lastId q \<le> finalUpdateId d" "sync = Spot \<Longrightarrow> firstUpdateId d \<le> lastId q + 1"
    "sync = Futures \<Longrightarrow> prevFinalUpdateId d = lastId q"
  using assms by (cases sync; auto simp: checkSequence_def Let_def genuine_def delta_low_def split: if_splits)+

text \<open>A delta that the live book takes, up to the buffering and the shadow.\<close>

lemma applyLive_chain:
  assumes inv: "sym_inv cfg X s" and ch: "chain_inv cfg s" and st: "sb_state s = VALID"
    and gen: "genuine (bc_sync cfg) X d"
    and chk: "checkSequence (bc_sync cfg) (sb_seq s) d = (APPLY, q)"
    and res: "applyLive cfg d q c s = (c', s')"
  shows "lastPublishedValid s' \<longrightarrow> chains_from cfg (sb_lastPublished s') s'"
proof
  assume lp: "lastPublishedValid s'"
  note f = applyLive_fields [OF res]
  have nb: "\<not> needBridge (sb_seq s)" using inv st by (simp add: sym_inv_def sym_wf_def)
  note seq = checkSequence_chain [OF chk nb gen]
  have "lastPublishedValid s" using lp f by (simp add: lastPublishedValid_def)
  then have "chains_from cfg (sb_lastPublished s) s" using ch st by (simp add: chain_inv_def)
  then show "chains_from cfg (sb_lastPublished s') s'"
    using seq by (cases "sb_rangeClosed s"; simp add: chains_from_def f advance_def)
qed

lemma applyLive_lastId: "applyLive cfg d q c s = (c', s') \<Longrightarrow> lastId (sb_seq s') = finalUpdateId d"
  by (simp add: applyLive_fields advance_def)

lemma bufferDelta_current:
  assumes cur: "buffer_current cfg s" and ord: "bc_sync cfg = Spot \<Longrightarrow> lastId (sb_seq s) \<le> finalUpdateId d"
    and st: "sb_state s = VALID" "sb_refreshPending s"
    and s1: "sb_deltaBuffer s1 = sb_deltaBuffer s" "lastId (sb_seq s1) = finalUpdateId d"
    and res: "bufferDelta d c s1 = (r, c', s')"
  shows "buffer_current cfg s'"
proof -
  obtain buf where s': "s' = s1\<lparr>sb_deltaBuffer := buf\<rparr>" and ne: "buf \<noteq> []" and l: "last buf = d"
      and srt: "\<And>f::BufferedDelta \<Rightarrow> int. sorted (map f (sb_deltaBuffer s1)) \<Longrightarrow>
         (sb_deltaBuffer s1 \<noteq> [] \<Longrightarrow> f (last (sb_deltaBuffer s1)) \<le> f d) \<Longrightarrow> sorted (map f buf)"
    using bufferDelta_last [OF res] by blast
  have "sorted (map finalUpdateId buf)" if spot: "bc_sync cfg = Spot"
  proof (rule srt)
    show "sorted (map finalUpdateId (sb_deltaBuffer s1))"
      using cur st spot by (simp add: buffer_current_def s1)
    show "sb_deltaBuffer s1 \<noteq> [] \<Longrightarrow> finalUpdateId (last (sb_deltaBuffer s1)) \<le> finalUpdateId d"
      using cur st ord [OF spot] by (simp add: buffer_current_def s1)
  qed
  then show ?thesis by (simp add: buffer_current_def s' l s1)
qed

lemma applyDelta_chain_valid:
  assumes inv: "sym_inv cfg X s" and ch: "chain_inv cfg s" and st: "sb_state s = VALID"
    and gen: "genuine (bc_sync cfg) X d" and ord: "in_order cfg s d"
    and chk: "checkSequence (bc_sync cfg) (sb_seq s) d = (APPLY, q)"
    and live: "applyLive cfg d q c s = (c1, s1)"
    and buf: "(if sb_refreshPending s1 then bufferDelta d c1 s1 else (r, c1, s1)) = (r, c2, s2)"
    and shd: "shadowStep cfg d c2 s2 = (c', s')"
  shows "chain_inv cfg s'"
proof -
  note f = applyLive_fields [OF live]
  note lid = applyLive_lastId [OF live]
  have le: "lastId (sb_seq s) \<le> finalUpdateId d" if "bc_sync cfg = Spot"
    using ord st that by (simp add: in_order_def)
  have c2: "buffer_current cfg s2 \<and> (\<exists>b. s2 = s1\<lparr>sb_deltaBuffer := b\<rparr>)"
  proof (cases "sb_refreshPending s1")
    case True
    with buf have b: "bufferDelta d c1 s1 = (r, c2, s2)" by simp
    have "buffer_current cfg s2"
      by (rule bufferDelta_current [OF _ le st _ f(6) lid b]) (use ch True f in \<open>simp_all add: chain_inv_def\<close>)
    moreover from b obtain x where "s2 = s1\<lparr>sb_deltaBuffer := x\<rparr>" by (rule bufferDelta_buf)
    ultimately show ?thesis by blast
  next
    case False
    with buf have "s2 = s1" by simp
    with False show ?thesis by (auto simp: buffer_current_def intro: exI [of _ "sb_deltaBuffer s1"])
  qed
  then obtain b where s2: "s2 = s1\<lparr>sb_deltaBuffer := b\<rparr>" and cur: "buffer_current cfg s2" by blast
  have "chain_inv cfg s2"
    using cur applyLive_chain [OF inv ch st gen chk live] f(3)
    by (simp add: chain_inv_def s2 lastPublishedValid_def chains_from_def)
  moreover note fr = shadowStep_frame [OF shd]
  have l2: "lastId (sb_seq s2) = finalUpdateId d" by (simp add: s2 lid)
  moreover have "buffer_current cfg s'"
    using cur fr [OF l2] by (simp add: buffer_current_def)
  ultimately show ?thesis using chain_inv_cong [of cfg s2 s'] fr [OF l2] by simp
qed

lemma applyDelta_chain_syncing:
  assumes inv: "sym_inv cfg X s" and ch: "chain_inv cfg s" and st: "sb_state s = SYNCING"
    and res: "applyDelta cfg d c s = (ok, c', s')"
  shows "chain_inv cfg s'"
proof -
  have np: "\<not> lastPublishedValid s" using ch st by (auto simp: chain_inv_def)
  have nr: "\<not> sb_refreshPending s" "\<not> sh_pending (sb_shadow s)"
    using inv st by (auto simp: sym_inv_def sym_wf_def)
  have "\<not> sb_refreshPending s'"
  proof (cases rule: applyDelta_cases [OF res, case_names refused failed passed])
    case (passed v q c1 s1 r c2 s2)
    have s1: "\<not> sb_refreshPending s1 \<and> sb_shadow s1 = sb_shadow s"
    proof (cases "v = APPLY")
      case True
      with passed(5) have "applyLive cfg d q c s = (c1, s1)" by simp
      with nr show ?thesis by (simp add: applyLive_fields)
    qed (use passed(5) nr in simp)
    with passed(6) have "s2 = s1" by simp
    with s1 nr passed(7) show ?thesis by (simp add: shadowStep_def)
  qed (use nr in \<open>simp_all add: invalidate_def\<close>)
  with np applyDelta_published [OF res] show ?thesis
    by (intro chain_inv_unpublished) (simp_all add: buffer_current_def lastPublishedValid_def)
qed

lemma chain_inv_invalidate: "chain_inv cfg s \<Longrightarrow> chain_inv cfg (invalidate s)"
  by (simp add: chain_inv_def invalidate_def buffer_current_def)

lemma applyDelta_chain:
  assumes inv: "sym_inv cfg X s" and ch: "chain_inv cfg s"
    and gen: "genuine (bc_sync cfg) X d" and ord: "in_order cfg s d"
    and res: "applyDelta cfg d c s = (ok, c', s')"
  shows "chain_inv cfg s'"
proof (cases "sb_state s = SYNCING")
  case True
  then show ?thesis using applyDelta_chain_syncing inv ch res by blast
next
  case ns: False
  show ?thesis
  proof (cases rule: applyDelta_cases [OF res, case_names refused failed passed])
    case refused
    with ch show ?thesis by simp
  next
    case failed
    with ch show ?thesis by (simp add: chain_inv_invalidate)
  next
    case (passed v q c1 s1 r c2 s2)
    with ns have st: "sb_state s = VALID" by simp
    then have nb: "\<not> needBridge (sb_seq s)" using inv by (simp add: sym_inv_def sym_wf_def)
    have "v = APPLY"
      using bridged_verdict [OF passed(3) nb] ord st passed(4) by (auto simp: in_order_def)
    then show ?thesis
      using applyDelta_chain_valid [OF inv ch st gen ord] passed by simp
  qed
qed

lemma finishRefresh_frame:
  assumes "finishRefresh cfg i bs as c s = (r, c', s')"
  shows "sb_state s' = sb_state s \<and> sb_rangeClosed s' = sb_rangeClosed s \<and> sb_rangeFirstU s' = sb_rangeFirstU s \<and>
    sb_rangePrevU s' = sb_rangePrevU s \<and> sb_lastPublished s' = sb_lastPublished s \<and>
    sb_hasPublished s' = sb_hasPublished s \<and> \<not> sb_refreshPending s'"
proof -
  obtain failed b q where rep:
      "replayShadow cfg (sb_deltaBuffer s) (loadBook cfg bs as) (loadedSeq i) = (failed, b, q)"
    by (metis prod_cases3)
  show ?thesis by (cases rule: finishRefresh_cases [OF assms rep]) simp_all
qed

lemma onSnapshot_chain:
  assumes ch: "chain_inv cfg s" and res: "onSnapshot cfg i bs as c s = (r, c', s')"
  shows "chain_inv cfg s'"
proof (cases rule: onSnapshot_cases [OF res, case_names refresh ignored sync])
  case refresh
  let ?s = "s\<lparr>sb_snapshotRequested := False\<rparr>"
  have ch': "chain_inv cfg ?s" by (rule chain_inv_cong [OF ch]) (use ch in \<open>simp_all add: chain_inv_def buffer_current_def\<close>)
  note fr = finishRefresh_frame [OF refresh(3)]
  have "lastId (sb_seq s') = lastId (sb_seq ?s)"
    by (rule finishRefresh_lastId [OF _ _ _ refresh(3)]) (use ch' refresh in \<open>simp_all add: chain_inv_def\<close>)
  then show ?thesis by (intro chain_inv_cong [OF ch']) (use fr in \<open>simp_all add: buffer_current_def\<close>)
next
  case ignored
  then show ?thesis by (intro chain_inv_cong [OF ch]) (simp_all add: buffer_current_def)
next
  case (sync failed s2)
  then have "\<not> lastPublishedValid s" using ch by (auto simp: chain_inv_def)
  with replayLive_published [OF sync(3)] sync(2) show ?thesis
    by (intro chain_inv_unpublished) (simp_all add: buffer_current_def lastPublishedValid_def applySnapshot_def)
qed

lemma recordPublish_chain:
  assumes inv: "sym_inv cfg X s" and ch: "chain_inv cfg s" and q: "q = getQuote cfg sy s t n \<or> \<not> q_isValid q"
  shows "chain_inv cfg (recordPublish now q s)"
proof -
  have "buffer_current cfg (recordPublish now q s)"
    using ch by (simp add: chain_inv_def buffer_current_def recordPublish_def)
  moreover have "sb_state (recordPublish now q s) = VALID \<and> chains_from cfg q (recordPublish now q s)" if "q_isValid q"
  proof -
    from that q have g: "q = getQuote cfg sy s t n" by blast
    with that have "q_isValid (getQuote cfg sy s t n)" by simp
    note v = getQuote_valid [OF this, folded g]
    then show ?thesis by (simp add: chains_from_def recordPublish_def)
  qed
  ultimately show ?thesis by (simp add: chain_inv_def lastPublishedValid_def recordPublish_def)
qed

lemma book_step_chain:
  "book_step cfg X True x y \<Longrightarrow> sym_inv cfg X (snd x) \<Longrightarrow> chain_inv cfg (snd x) \<Longrightarrow> chain_inv cfg (snd y)"
proof (induction rule: book_step.induct)
  case (step_buffer s d c r c' s')
  obtain buf where "s' = s\<lparr>sb_deltaBuffer := buf\<rparr>" using bufferDelta_buf [OF step_buffer(3)] by blast
  with step_buffer show ?case by (simp add: chain_inv_def buffer_current_def lastPublishedValid_def)
next
  case step_delta
  then show ?case by (auto intro: applyDelta_chain)
next
  case step_snapshot
  then show ?case by (auto intro: onSnapshot_chain)
next
  case (step_refresh s c)
  then have "chain_inv cfg s" by simp
  then have "chain_inv cfg (beginRefresh s)"
    by (rule chain_inv_cong) (simp_all add: beginRefresh_def buffer_current_def)
  then show ?case by simp
next
  case (step_cancel c s c' s')
  then have "s' = s \<or> s' = s\<lparr>sb_refreshPending := False, sb_snapshotRequested := False, sb_deltaBuffer := []\<rparr>"
    by (auto simp: cancelRefresh_def split: if_splits)
  then show ?case
  proof
    assume "s' = s\<lparr>sb_refreshPending := False, sb_snapshotRequested := False, sb_deltaBuffer := []\<rparr>"
    moreover from step_cancel(3) have "chain_inv cfg s" by simp
    then have "chain_inv cfg (s\<lparr>sb_refreshPending := False, sb_snapshotRequested := False, sb_deltaBuffer := []\<rparr>)"
      by (rule chain_inv_cong) (simp_all add: buffer_current_def)
    ultimately show ?thesis by simp
  qed (use step_cancel in simp)
next
  case (step_request c s v)
  then have ch: "chain_inv cfg s" by simp
  then have "buffer_current cfg s" by (simp add: chain_inv_def)
  then have "chain_inv cfg (setSnapshotRequested v s)"
    by (intro chain_inv_cong [OF ch]) (simp_all add: setSnapshotRequested_def buffer_current_def)
  then show ?case by simp
next
  case step_invalidate
  then show ?case by (simp add: chain_inv_invalidate)
next
  case (step_reset s c)
  then show ?case by (simp add: chain_inv_def buffer_current_def reset_def lastPublishedValid_def)
next
  case step_publish
  then show ?case by (auto intro: recordPublish_chain)
qed simp

lemma book_reach_chain: "book_reach cfg X True x \<Longrightarrow> cfg_ok cfg \<Longrightarrow> chain_inv cfg (snd x)"
proof (induction rule: book_reach.induct)
  case (reach_start c now)
  show ?case by (simp add: chain_inv_def buffer_current_def newSymBook_def lastPublishedValid_def)
next
  case (reach_step x y)
  then show ?case using book_step_chain book_reach_inv by blast
qed

section \<open>A concrete run\<close>

text \<open>
  A one-level spot book: a snapshot at id 100, its bridging event, a published quote, one more event;
  then a background refresh begins and one event is buffered for it.
\<close>

definition zero_ctr :: BookCounters where
  "zero_ctr = \<lparr>bufferOverflows = 0, depthRefreshes = 0, refreshFailures = 0, depthExhaustedEvents = 0\<rparr>"

definition run_cfg :: BookConfig where
  "run_cfg = defaultBookConfig\<lparr>bc_depth := 1, bc_snapshotLimit := 1, bc_refreshLowWater := 2\<rparr>"

definition run_X :: "int \<Rightarrow> exchange_book" where
  "run_X i = ([Fin 10 \<mapsto> Fin 2], [Fin 11 \<mapsto> Fin 3])"

definition run_bids :: "PriceLevel list" where
  "run_bids = [\<lparr>price = Fin 10, qty = Fin 2\<rparr>]"

definition run_asks :: "PriceLevel list" where
  "run_asks = [\<lparr>price = Fin 11, qty = Fin 3\<rparr>]"

definition run_delta :: "int \<Rightarrow> int \<Rightarrow> BufferedDelta" where
  "run_delta U u = \<lparr>firstUpdateId = U, finalUpdateId = u, eventTimeMs = 5, bids = run_bids, asks = [],
     prevFinalUpdateId = 0, transactTimeMs = 0\<rparr>"

definition run1 :: "BookCounters \<times> SymBook" where
  "run1 = snd (onSnapshot run_cfg 100 run_bids run_asks zero_ctr (newSymBook 0))"

definition run2 :: "BookCounters \<times> SymBook" where
  "run2 = (case run1 of (c, s) \<Rightarrow> snd (applyDelta run_cfg (run_delta 101 101) c s))"

definition run3 :: "BookCounters \<times> SymBook" where
  "run3 = (case run2 of (c, s) \<Rightarrow> (c, recordPublish 0 (getQuote run_cfg ''X'' s 7 1) s))"

definition run4 :: "BookCounters \<times> SymBook" where
  "run4 = (case run3 of (c, s) \<Rightarrow> snd (applyDelta run_cfg (run_delta 102 104) c s))"

definition run5 :: "BookCounters \<times> SymBook" where
  "run5 = (case run4 of (c, s) \<Rightarrow> (c, beginRefresh s))"

definition run6 :: "BookCounters \<times> SymBook" where
  "run6 = (case run5 of (c, s) \<Rightarrow> snd (applyDelta run_cfg (run_delta 105 106) c s))"

lemmas run_defs = run_cfg_def run_X_def run_bids_def run_asks_def run_delta_def zero_ctr_def

lemma run_cfg_ok: "cfg_ok run_cfg"
  by (simp add: cfg_ok_def run_cfg_def defaultBookConfig_def)

lemma run_snapshot: "genuine_snapshot run_cfg run_X i run_bids run_asks"
  by (simp add: genuine_snapshot_def top_levels_def run_defs defaultBookConfig_def flt_def zero_double_def)

lemma run_delta_genuine: "U \<le> u \<Longrightarrow> genuine Spot run_X (run_delta U u)"
  by (simp add: genuine_def delta_ok_def levels_ok_def level_ok_def delta_low_def run_defs
      truth_updates_def truth_update_def zero_double_def fun_upd_idem)

lemma run_sync: "bc_sync run_cfg = Spot"
  by (simp add: run_cfg_def defaultBookConfig_def)

lemma run_deltaI:
  assumes "book_reach run_cfg run_X ord (c, s)" "U \<le> u" "in_order run_cfg s (run_delta U u)"
  shows "book_reach run_cfg run_X ord (snd (applyDelta run_cfg (run_delta U u) c s))"
proof -
  obtain ok c' s' where r: "applyDelta run_cfg (run_delta U u) c s = (ok, c', s')" by (metis prod_cases3)
  have "book_step run_cfg run_X ord (c, s) (c', s')"
    by (rule step_delta [OF _ assms(3) r]) (simp add: run_sync run_delta_genuine assms(2))
  then show ?thesis using reach_step [OF assms(1)] r by simp
qed

lemma run1_reach: "book_reach run_cfg run_X ord run1"
proof -
  obtain r c' s' where r: "onSnapshot run_cfg 100 run_bids run_asks zero_ctr (newSymBook 0) = (r, c', s')"
    by (metis prod_cases3)
  show ?thesis
    using reach_step [OF reach_start step_snapshot [OF run_snapshot r]] r by (simp add: run1_def)
qed

lemma run1_state: "sb_state (snd run1) = SYNCING"
  by code_simp

lemma run2_reach: "book_reach run_cfg run_X ord run2"
  unfolding run2_def case_prod_beta by (rule run_deltaI) (simp_all add: run1_reach in_order_def run1_state)

lemma run3_reach: "book_reach run_cfg run_X ord run3"
proof -
  have "book_step run_cfg run_X ord (fst run2, snd run2) run3"
    unfolding run3_def case_prod_beta by (rule step_publish) blast
  then show ?thesis by (rule reach_step [rotated]) (simp add: run2_reach)
qed

lemma run3_id: "lastId (sb_seq (snd run3)) = 101"
  by code_simp

lemma run4_reach: "book_reach run_cfg run_X ord run4"
  unfolding run4_def case_prod_beta
  by (rule run_deltaI) (simp_all add: run3_reach in_order_def run3_id, simp add: run_delta_def)

lemma run4_wants: "wantsRefresh run_cfg (snd run4)"
  by code_simp

lemma run5_reach: "book_reach run_cfg run_X ord run5"
proof -
  have "book_step run_cfg run_X ord (fst run4, snd run4) run5"
    unfolding run5_def case_prod_beta by (rule step_refresh [OF run4_wants])
  then show ?thesis by (rule reach_step [rotated]) (simp add: run4_reach)
qed

lemma run5_id: "lastId (sb_seq (snd run5)) = 104"
  by code_simp

lemma run6_reach: "book_reach run_cfg run_X ord run6"
  unfolding run6_def case_prod_beta
  by (rule run_deltaI) (simp_all add: run5_reach in_order_def run5_id, simp add: run_delta_def)

lemma run6_state: "isValid (snd run6)" "sb_refreshPending (snd run6)" "lastId (sb_seq (snd run6)) = 106"
  by (code_simp, code_simp, code_simp)

section \<open>Properties\<close>

text \<open>C3: A quote that \<open>getQuote\<close> marks valid shows, on each side, exactly the exchange's best levels at
  the update id the quote carries, best first and padded with 0/0. This holds in every state the
  handler can drive a symbol's book to by genuine events and snapshots, gaps, resets, buffer
  overflows, snapshots in flight and background refreshes included, although the book only ever
  knows part of the exchange's depth.\<close>

theorem valid_quote_shows_exchange_top:
  assumes "book_reach cfg X ord (c, s)" "cfg_ok cfg" "q_isValid (getQuote cfg sy s t n)"
  shows "let q = getQuote cfg sy s t n; i = q_exchUpdateId q in
    \<exists>B A. top_levels True (bc_depth cfg) (fst (X i)) B \<and> top_levels False (bc_depth cfg) (snd (X i)) A \<and>
      shows_levels (bc_depth cfg) (q_bidPrices q) (q_bidQtys q) B \<and>
      shows_levels (bc_depth cfg) (q_askPrices q) (q_askQtys q) A"
proof -
  have "sym_inv cfg X s" using book_reach_inv [OF assms(1,2)] by simp
  note tops = valid_book_tops [OF this getQuote_valid(1,2) [OF assms(3)]]
  show ?thesis unfolding Let_def getQuote_valid(3) [OF assms(3)]
    using tops getQuote_valid(6,7) [OF assms(3)] by blast
qed

lemma run4_valid: "q_isValid (getQuote run_cfg ''X'' (snd run4) 9 2)"
  by code_simp

lemma run4_quote:
  "q_exchUpdateId (getQuote run_cfg ''X'' (snd run4) 9 2) = 104"
  "q_exchUpdateId (sb_lastPublished (snd run4)) = 101"
  "lastPublishedValid (snd run4)"
  by (code_simp, code_simp, code_simp)

lemma run4_levels:
  "q_bidPrices (getQuote run_cfg ''X'' (snd run4) 9 2) = [Fin 10]"
  "q_bidQtys (getQuote run_cfg ''X'' (snd run4) 9 2) = [Fin 2]"
  "q_askPrices (getQuote run_cfg ''X'' (snd run4) 9 2) = [Fin 11]"
  "q_askQtys (getQuote run_cfg ''X'' (snd run4) 9 2) = [Fin 3]"
  by (code_simp, code_simp, code_simp, code_simp)

lemma valid_quote_shows_exchange_top_witness:
  "\<exists>B A. top_levels True 1 (fst (run_X 104)) B \<and> top_levels False 1 (snd (run_X 104)) A \<and>
     shows_levels 1 [Fin 10] [Fin 2] B \<and> shows_levels 1 [Fin 11] [Fin 3] A"
proof -
  have d: "bc_depth run_cfg = 1" by (simp add: run_cfg_def)
  have r: "book_reach run_cfg run_X True (fst run4, snd run4)" using run4_reach by simp
  show ?thesis
    using valid_quote_shows_exchange_top [OF r run_cfg_ok run4_valid]
    unfolding Let_def run4_quote run4_levels d .
qed

text \<open>C21: Consecutive valid quotes of a symbol chain without a hole: the next valid quote either repeats
  the update-id range of the last published one (a heartbeat), or its range starts where that one
  ended (first id at most one past it on spot, previous id equal to it on futures) and ends no
  earlier. The events are assumed to arrive in update-id order, and a reset to follow the
  publication of an invalid row.\<close>

theorem valid_quotes_chain:
  assumes "book_reach cfg X True (c, s)" "cfg_ok cfg" "lastPublishedValid s"
    and "q_isValid (getQuote cfg sy s t n)"
  shows "let p = sb_lastPublished s; q = getQuote cfg sy s t n in
    q_exchUpdateId q = q_exchUpdateId p \<and> q_exchFirstUpdateId q = q_exchFirstUpdateId p \<or>
    q_exchUpdateId p \<le> q_exchUpdateId q \<and>
      (if bc_sync cfg = Futures then q_exchPrevUpdateId q = q_exchUpdateId p
       else q_exchFirstUpdateId q \<le> q_exchUpdateId p + 1)"
proof -
  note g = getQuote_valid [OF assms(4)]
  have "chain_inv cfg s" using book_reach_chain [OF assms(1,2)] by simp
  then have ch: "chains_from cfg (sb_lastPublished s) s" using assms(3) g(1) by (simp add: chain_inv_def)
  have "bc_sync cfg \<noteq> Futures \<Longrightarrow> bc_sync cfg = Spot" by (cases "bc_sync cfg") simp_all
  with ch show ?thesis by (cases "sb_rangeClosed s") (simp_all add: chains_from_def Let_def g)
qed

lemma valid_quotes_chain_witness:
  "q_exchFirstUpdateId (getQuote run_cfg ''X'' (snd run4) 9 2) \<le> q_exchUpdateId (sb_lastPublished (snd run4)) + 1"
proof -
  have r: "book_reach run_cfg run_X True (fst run4, snd run4)" using run4_reach by simp
  show ?thesis
    using valid_quotes_chain [OF r run_cfg_ok run4_quote(3) run4_valid]
    by (simp add: Let_def run_sync run4_quote)
qed

text \<open>C25: A background refresh, swapped in at once, held as a shadow or failed, never moves the live
  book off its update id and leaves it \<open>VALID\<close>, when events arrive in update-id order.\<close>

theorem refresh_keeps_update_id:
  assumes "book_reach cfg X True (c, s)" "cfg_ok cfg" "isValid s" "sb_refreshPending s"
    and "onSnapshot cfg i bs as c s = (r, c', s')"
  shows "isValid s' \<and> lastId (sb_seq s') = lastId (sb_seq s) \<and> \<not> sb_refreshPending s' \<and>
    r \<in> {REFRESHED, REFRESH_AWAITING_BRIDGE, REFRESH_FAILED}"
proof (cases rule: onSnapshot_cases [OF assms(5), case_names refresh ignored sync])
  case refresh
  let ?s = "s\<lparr>sb_snapshotRequested := False\<rparr>"
  have "buffer_current cfg s" using book_reach_chain [OF assms(1,2)] by (simp add: chain_inv_def)
  then have "lastId (sb_seq s') = lastId (sb_seq ?s)"
    by (intro finishRefresh_lastId [OF _ _ _ refresh(3)]) (use refresh in \<open>simp_all add: buffer_current_def\<close>)
  moreover have "r \<in> {REFRESHED, REFRESH_AWAITING_BRIDGE, REFRESH_FAILED}"
  proof -
    obtain failed b q where
        "replayShadow cfg (sb_deltaBuffer ?s) (loadBook cfg bs as) (loadedSeq i) = (failed, b, q)"
      by (metis prod_cases3)
    then show ?thesis by (cases rule: finishRefresh_cases [OF refresh(3)]) simp_all
  qed
  ultimately show ?thesis using finishRefresh_frame [OF refresh(3)] refresh(1) by (simp add: isValid_def)
qed (use assms(3,4) in \<open>simp_all add: isValid_def\<close>)

lemma refresh_keeps_update_id_witness:
  "\<exists>s'. snd (snd (onSnapshot run_cfg 105 run_bids run_asks (fst run6) (snd run6))) = s' \<and>
     isValid s' \<and> lastId (sb_seq s') = 106"
proof -
  obtain r c' s' where o: "onSnapshot run_cfg 105 run_bids run_asks (fst run6) (snd run6) = (r, c', s')"
    by (metis prod_cases3)
  have "book_reach run_cfg run_X True (fst run6, snd run6)" using run6_reach by simp
  from refresh_keeps_update_id [OF this run_cfg_ok run6_state(1,2) o] run6_state(3) o show ?thesis by simp
qed

definition late_book :: SymBook where
  "late_book = (newSymBook 0)\<lparr>sb_book := loadBook run_cfg run_bids run_asks, sb_state := VALID,
     sb_seq := \<lparr>needBridge = False, snapshotId = 90, lastId = 110\<rparr>, sb_refreshPending := True\<rparr>"


text \<open>C23: Every reachable state keeps the representation invariant: both sides, live and shadow, sorted
  strictly worst to best with at most \<open>maxLevels\<close> levels, no NaN price and no zero quantity, nothing
  beyond the horizon; at most \<open>MAX_DELTA_BUFFER_SIZE\<close> buffered deltas; a bridge awaited in SYNCING
  and never in VALID; and a refresh in flight only for a book that has been valid.\<close>

theorem book_keeps_invariant:
  "book_reach cfg X ord (c, s) \<Longrightarrow> cfg_ok cfg \<Longrightarrow> sym_wf cfg s"
  using book_reach_inv [of cfg X ord "(c, s)"] by (simp add: sym_inv_def)

lemma book_keeps_invariant_witness: "sym_wf run_cfg (snd run6)"
  by (rule book_keeps_invariant [of run_cfg run_X True "fst run6"]) (simp_all add: run6_reach run_cfg_ok)



lemma length_insert_level [simp]: "length (insert_level isBid l ms) = Suc (length ms)"
  by (induction ms) auto

lemma length_sort_levels [simp]: "length (sort_levels isBid ls) = length ls"
  by (induction ls) (auto simp: sort_levels_def)

lemma load_not_below:
  assumes "\<forall>l \<in> set snap. flt 0 (qty l)" "low \<le> limit" "low \<le> maxLevels"
  shows "\<not> below low (load isBid snap limit maxLevels)"
proof -
  have f: "filter (\<lambda>l. flt 0 (qty l)) snap = snap" using assms(1) by (simp add: filter_id_conv)
  show ?thesis
    using assms(2,3) by (auto simp: below_def load_def f Let_def trim_def split: if_splits)
qed

text \<open>The manager caps the low-water mark so that a snapshot that was just loaded never asks for the
  next one: each of its sides either is known completely or holds at least the mark, so that
  \<open>wantsRefresh\<close> stays false until at least half of the snapshot has been traded through.\<close>

theorem fresh_snapshot_wants_no_refresh:
  assumes "bc_snapshotLimit cfg \<le> 2 * bc_maxLevels cfg"
    and "\<forall>l \<in> set bs. flt 0 (qty l)" "\<forall>l \<in> set as. flt 0 (qty l)"
  shows "let cfg' = om_cfg (newManager symbols cfg now)
    in \<not> wantsRefresh cfg' (s\<lparr>sb_book := loadBook cfg' bs as\<rparr>) \<and>
       2 * bc_refreshLowWater cfg' \<le> bc_snapshotLimit cfg'"
proof -
  let ?cfg = "om_cfg (newManager symbols cfg now)"
  have c: "2 * bc_refreshLowWater ?cfg \<le> bc_snapshotLimit ?cfg" "bc_snapshotLimit ?cfg = bc_snapshotLimit cfg"
      "bc_maxLevels ?cfg = bc_maxLevels cfg"
    by (auto simp: newManager_def Let_def)
  then have "bc_refreshLowWater ?cfg \<le> bc_snapshotLimit ?cfg" "bc_refreshLowWater ?cfg \<le> bc_maxLevels ?cfg"
    using assms(1) by linarith+
  then show ?thesis
    using c(1) load_not_below [OF assms(2)] load_not_below [OF assms(3)]
    by (simp add: Let_def wantsRefresh_def loadBook_def)
qed

lemma fresh_snapshot_wants_no_refresh_witness:
  "bc_refreshLowWater (om_cfg (newManager [''BTCUSDT''] (defaultBookConfig\<lparr>bc_snapshotLimit := 100\<rparr>) 0)) = 50 \<and>
   \<not> wantsRefresh (om_cfg (newManager [''BTCUSDT''] (defaultBookConfig\<lparr>bc_snapshotLimit := 100\<rparr>) 0))
       (late_book\<lparr>sb_book := loadBook (om_cfg (newManager [''BTCUSDT''] (defaultBookConfig\<lparr>bc_snapshotLimit := 100\<rparr>) 0)) run_bids run_asks\<rparr>)"
  using fresh_snapshot_wants_no_refresh [of "defaultBookConfig\<lparr>bc_snapshotLimit := 100\<rparr>" run_bids run_asks
      "[''BTCUSDT'']" 0 late_book]
  by (simp add: Let_def run_bids_def run_asks_def flt_def zero_double_def newManager_def defaultBookConfig_def)

end
