(* ===== verification/Snapshot_Scheduler.thy ===== *)
theory Snapshot_Scheduler
  imports Doubles
begin

text \<open>
  \<open>SnapshotScheduler\<close> of \<open>cpp/include/snapshot_scheduler.hpp\<close>: per-symbol backoff, a shared token
  bucket of request weight, and pauses after rate-limit answers. Times are milliseconds as \<open>int\<close>.
  The bucket and the jitter are computed in \<open>double\<close>: each operation is rounded with \<open>rnd64\<close>.
  The jitter generator is a parameter: each failure carries the value \<open>j\<close> it drew, in \<open>[0, 1)\<close>.
\<close>

section \<open>State and operations\<close>

record SnapshotSchedulerConfig =
  sc_weightPerRequest :: int
  sc_weightLimitPerMin :: int
  sc_budgetFraction :: rat
  sc_initialBackoffMs :: int
  sc_maxBackoffMs :: int
  sc_jitterFraction :: rat
  sc_minPause429Ms :: int
  sc_minPause418Ms :: int
  sc_usedWeightPauseFraction :: rat
  sc_usedWeightPauseMs :: int

text \<open>The literal \<open>0.10\<close> is the double nearest to one tenth.\<close>

definition defaultSchedulerConfig :: SnapshotSchedulerConfig where
  "defaultSchedulerConfig = \<lparr>sc_weightPerRequest = 50, sc_weightLimitPerMin = 6000,
     sc_budgetFraction = rnd64 (1 / 10), sc_initialBackoffMs = 1000, sc_maxBackoffMs = 60000,
     sc_jitterFraction = 1 / 4, sc_minPause429Ms = 60000, sc_minPause418Ms = 300000,
     sc_usedWeightPauseFraction = 1 / 2, sc_usedWeightPauseMs = 60000\<rparr>"

record SnapshotScheduler =
  sch_cfg :: SnapshotSchedulerConfig
  sch_failures :: "nat list"
  sch_nextAllowedMs :: "int list"
  sch_budget :: rat
  sch_tokens :: rat
  sch_lastRefillMs :: int
  sch_pauseUntilMs :: int
  sch_requests :: nat
  sch_failuresTotal :: nat
  sch_rateLimitPauses :: nat

definition newScheduler :: "nat \<Rightarrow> SnapshotSchedulerConfig \<Rightarrow> SnapshotScheduler" where
  "newScheduler numSymbols cfg =
     (let b = max (of_int (sc_weightPerRequest cfg)) (rnd64 (of_int (sc_weightLimitPerMin cfg) * sc_budgetFraction cfg))
      in \<lparr>sch_cfg = cfg, sch_failures = replicate numSymbols 0, sch_nextAllowedMs = replicate numSymbols 0,
          sch_budget = b, sch_tokens = b, sch_lastRefillMs = -1, sch_pauseUntilMs = 0,
          sch_requests = 0, sch_failuresTotal = 0, sch_rateLimitPauses = 0\<rparr>)"

definition refill :: "int \<Rightarrow> SnapshotScheduler \<Rightarrow> SnapshotScheduler" where
  "refill now s =
     (if sch_lastRefillMs s < 0 then s\<lparr>sch_lastRefillMs := now\<rparr>
      else if now \<le> sch_lastRefillMs s then s
      else s\<lparr>sch_tokens := min (sch_budget s)
               (rnd64 (sch_tokens s +
                  rnd64 (rnd64 (sch_budget s * rnd64 (of_int (now - sch_lastRefillMs s))) / 60000))),
             sch_lastRefillMs := now\<rparr>)"

definition pauseAll :: "int \<Rightarrow> int \<Rightarrow> SnapshotScheduler \<Rightarrow> SnapshotScheduler" where
  "pauseAll now ms s =
     (let s' = (if sch_pauseUntilMs s < now + ms then s\<lparr>sch_pauseUntilMs := now + ms\<rparr> else s)
      in s'\<lparr>sch_rateLimitPauses := sch_rateLimitPauses s' + 1\<rparr>)"

definition checkUsedWeight :: "int \<Rightarrow> int \<Rightarrow> SnapshotScheduler \<Rightarrow> SnapshotScheduler" where
  "checkUsedWeight now usedWeight1m s =
     (if usedWeight1m < 0 then s
      else if rnd64 (of_int (sc_weightLimitPerMin (sch_cfg s)) * sc_usedWeightPauseFraction (sch_cfg s))
                \<le> of_int usedWeight1m
           then pauseAll now (sc_usedWeightPauseMs (sch_cfg s)) s
      else s)"

definition tryAcquire :: "nat \<Rightarrow> int \<Rightarrow> SnapshotScheduler \<Rightarrow> bool \<times> SnapshotScheduler" where
  "tryAcquire symIdx now s0 =
     (let s = refill now s0; w = of_int (sc_weightPerRequest (sch_cfg s))
      in if now < sch_pauseUntilMs s then (False, s)
         else if now < sch_nextAllowedMs s ! symIdx then (False, s)
         else if sch_tokens s < w then (False, s)
         else (True, s\<lparr>sch_tokens := rnd64 (sch_tokens s - w), sch_requests := sch_requests s + 1\<rparr>))"

definition onFetchOk :: "int \<Rightarrow> int \<Rightarrow> SnapshotScheduler \<Rightarrow> SnapshotScheduler" where
  "onFetchOk now usedWeight1m s = checkUsedWeight now usedWeight1m s"

text \<open>The doubling loop: at most \<open>k = n - 1\<close> rounds, while the delay is below the maximum.\<close>

fun backoff_loop :: "nat \<Rightarrow> int \<Rightarrow> int \<Rightarrow> int" where
  "backoff_loop 0 mx delay = delay"
| "backoff_loop (Suc k) mx delay = (if delay < mx then backoff_loop k mx (delay * 2) else delay)"

text \<open>\<open>static_cast<std::int64_t>\<close> of a non-negative double truncates.\<close>

definition backoffDelay :: "SnapshotSchedulerConfig \<Rightarrow> nat \<Rightarrow> rat \<Rightarrow> int" where
  "backoffDelay cfg n j =
     (let delay = min (backoff_loop (n - 1) (sc_maxBackoffMs cfg) (sc_initialBackoffMs cfg)) (sc_maxBackoffMs cfg)
      in delay + \<lfloor>rnd64 (rnd64 (rnd64 (of_int delay) * sc_jitterFraction cfg) * j)\<rfloor>)"

definition onFailure :: "nat \<Rightarrow> int \<Rightarrow> int \<Rightarrow> int \<Rightarrow> int \<Rightarrow> rat \<Rightarrow> SnapshotScheduler \<Rightarrow> SnapshotScheduler" where
  "onFailure symIdx now httpStatus retryAfterSec usedWeight1m j s =
     (let n = sch_failures s ! symIdx + 1;
          s1 = s\<lparr>sch_failuresTotal := sch_failuresTotal s + 1, sch_failures := (sch_failures s)[symIdx := n],
                 sch_nextAllowedMs := (sch_nextAllowedMs s)[symIdx := now + backoffDelay (sch_cfg s) n j]\<rparr>;
          s2 = (if httpStatus = 429 \<or> httpStatus = 418
                then let floorMs = (if httpStatus = 418 then sc_minPause418Ms (sch_cfg s) else sc_minPause429Ms (sch_cfg s))
                     in pauseAll now (max floorMs (retryAfterSec * 1000)) s1
                else s1)
      in checkUsedWeight now usedWeight1m s2)"

definition onSynced :: "nat \<Rightarrow> SnapshotScheduler \<Rightarrow> SnapshotScheduler" where
  "onSynced symIdx s =
     s\<lparr>sch_failures := (sch_failures s)[symIdx := 0], sch_nextAllowedMs := (sch_nextAllowedMs s)[symIdx := 0]\<rparr>"

definition nextAllowedMs :: "nat \<Rightarrow> SnapshotScheduler \<Rightarrow> int" where
  "nextAllowedMs symIdx s = max (sch_nextAllowedMs s ! symIdx) (sch_pauseUntilMs s)"

section \<open>Runs\<close>

datatype sched_op = Try nat int | FetchOk int int | Failure nat int int int int rat | Synced nat

fun sched_step :: "sched_op \<Rightarrow> SnapshotScheduler \<Rightarrow> bool \<times> SnapshotScheduler" where
  "sched_step (Try i now) s = tryAcquire i now s"
| "sched_step (FetchOk now w) s = (False, onFetchOk now w s)"
| "sched_step (Failure i now st ra w j) s = (False, onFailure i now st ra w j s)"
| "sched_step (Synced i) s = (False, onSynced i s)"

text \<open>Grants of a run, and its final state.\<close>

fun sched_run :: "sched_op list \<Rightarrow> SnapshotScheduler \<Rightarrow> nat \<times> SnapshotScheduler" where
  "sched_run [] s = (0, s)"
| "sched_run (x # xs) s =
     (case sched_step x s of (g, s') \<Rightarrow>
        case sched_run xs s' of (n, s'') \<Rightarrow> ((if g then 1 else 0) + n, s''))"

definition sched_wf :: "SnapshotScheduler \<Rightarrow> bool" where
  "sched_wf s \<longleftrightarrow> 0 \<le> sch_tokens s \<and> sch_tokens s \<le> sch_budget s \<and>
     0 \<le> sc_weightPerRequest (sch_cfg s) \<and> of_int (sc_weightPerRequest (sch_cfg s)) \<le> sch_budget s \<and>
     rnd64 (sch_budget s) = sch_budget s"

lemma checkUsedWeight_frame [simp]:
  "sch_tokens (checkUsedWeight n w s) = sch_tokens s" "sch_budget (checkUsedWeight n w s) = sch_budget s"
  "sch_cfg (checkUsedWeight n w s) = sch_cfg s" "sch_lastRefillMs (checkUsedWeight n w s) = sch_lastRefillMs s"
  "sch_nextAllowedMs (checkUsedWeight n w s) = sch_nextAllowedMs s"
  "sch_failures (checkUsedWeight n w s) = sch_failures s"
  by (simp_all add: checkUsedWeight_def pauseAll_def Let_def)

lemma onFailure_frame [simp]:
  "sch_tokens (onFailure i n h r w j s) = sch_tokens s" "sch_budget (onFailure i n h r w j s) = sch_budget s"
  "sch_cfg (onFailure i n h r w j s) = sch_cfg s" "sch_lastRefillMs (onFailure i n h r w j s) = sch_lastRefillMs s"
  "sch_nextAllowedMs (onFailure i n h r w j s) =
     (sch_nextAllowedMs s)[i := n + backoffDelay (sch_cfg s) (sch_failures s ! i + 1) j]"
  by (simp_all add: onFailure_def pauseAll_def Let_def)

lemma refill_frame [simp]:
  "sch_budget (refill n s) = sch_budget s" "sch_cfg (refill n s) = sch_cfg s"
  "sch_nextAllowedMs (refill n s) = sch_nextAllowedMs s" "sch_pauseUntilMs (refill n s) = sch_pauseUntilMs s"
  "sch_requests (refill n s) = sch_requests s"
  by (simp_all add: refill_def)

lemma sched_step_frame [simp]:
  "sch_budget (snd (sched_step x s)) = sch_budget s" "sch_cfg (snd (sched_step x s)) = sch_cfg s"
  by (cases x; simp add: tryAcquire_def onFetchOk_def onSynced_def Let_def)+

section \<open>The bucket never holds more than time has put into it\<close>

context fp_rounding
begin

lemma min_rnd_le:
  assumes "0 \<le> x" "0 \<le> B"
  shows "min B (rnd x) \<le> x + B * eps"
proof (cases "x \<le> B")
  case True
  have "rnd x \<le> x + B * eps" by (rule rnd_upper_le [OF assms(1) True])
  then show ?thesis by simp
next
  case False
  moreover have "0 \<le> B * eps" using assms(2) eps_nonneg by simp
  ultimately show ?thesis by linarith
qed

text \<open>One refill of a bucket of size \<open>B\<close> over \<open>dt\<close> milliseconds.\<close>

lemma refill_upper:
  assumes "0 \<le> t" "0 \<le> B" "0 \<le> dt"
  shows "min B (rnd (t + rnd (rnd (B * dt) / 60000))) \<le> t + B * dt / 60000 * (1 + eps)\<^sup>2 + B * eps"
proof -
  have "rnd (B * dt) \<le> B * dt * (1 + eps)" using assms by (intro rnd_upper) simp
  then have "rnd (B * dt) / 60000 \<le> B * dt / 60000 * (1 + eps)" by (simp add: divide_right_mono)
  moreover have "0 \<le> rnd (B * dt) / 60000" using assms rnd_nonneg by simp
  ultimately have "rnd (rnd (B * dt) / 60000) \<le> B * dt / 60000 * (1 + eps) * (1 + eps)"
    using rnd_upper [of "rnd (B * dt) / 60000"] eps_nonneg
      mult_right_mono [of "rnd (B * dt) / 60000" "B * dt / 60000 * (1 + eps)" "1 + eps"] by linarith
  then have "rnd (rnd (B * dt) / 60000) \<le> B * dt / 60000 * (1 + eps)\<^sup>2"
    by (simp add: power2_eq_square mult.assoc)
  moreover have "min B (rnd (t + rnd (rnd (B * dt) / 60000))) \<le> t + rnd (rnd (B * dt) / 60000) + B * eps"
    using assms rnd_nonneg by (intro min_rnd_le) simp_all
  ultimately show ?thesis by linarith
qed

lemma refill_lower:
  assumes "0 \<le> t" "0 \<le> B" "0 \<le> dt" "t \<le> B" "rnd t = t"
  shows "t \<le> min B (rnd (t + rnd (rnd (B * dt) / 60000)))"
proof -
  have "0 \<le> rnd (rnd (B * dt) / 60000)" using assms rnd_nonneg by simp
  then have "rnd t \<le> rnd (t + rnd (rnd (B * dt) / 60000))" by (intro rnd_mono) simp
  with assms show ?thesis by simp
qed

text \<open>A full minute of refilling fills the bucket, when its size is a number of the format.\<close>

lemma refill_full:
  assumes "0 \<le> t" "0 \<le> B" "60000 \<le> dt" "rnd B = B" "rnd (B * 60000) = B * 60000"
  shows "min B (rnd (t + rnd (rnd (B * dt) / 60000))) = B"
proof -
  have "B * 60000 \<le> rnd (B * dt)"
    using rnd_mono [of "B * 60000" "B * dt"] assms by (simp add: mult_left_mono)
  then have "B \<le> rnd (B * dt) / 60000" by simp
  then have "B \<le> rnd (rnd (B * dt) / 60000)" using rnd_mono [of B] assms(4) by metis
  then have "rnd B \<le> rnd (t + rnd (rnd (B * dt) / 60000))" using assms(1) by (intro rnd_mono) simp
  with assms(4) show ?thesis by simp
qed

end

text \<open>The clock difference converts to \<open>double\<close> without error up to \<open>2 ^ 53\<close> ms.\<close>

definition run_bound :: "rat \<Rightarrow> rat \<Rightarrow> rat" where
  "run_bound B ms = B * ms / 60000 * (1 + eps64)\<^sup>2"

lemma refill_tokens:
  assumes wf: "sched_wf s" and dt: "now - sch_lastRefillMs s \<le> 2 ^ 53"
    and last: "0 \<le> sch_lastRefillMs s"
  shows "sch_tokens (refill now s) \<le> sch_tokens s +
      run_bound (sch_budget s) (of_int (max now (sch_lastRefillMs s) - sch_lastRefillMs s)) + sch_budget s * eps64 \<and>
    sch_lastRefillMs (refill now s) = max now (sch_lastRefillMs s)"
proof (cases "now \<le> sch_lastRefillMs s")
  case True
  have "0 \<le> sch_budget s * eps64" using wf by (simp add: sched_wf_def eps64_def)
  with True last show ?thesis by (simp add: refill_def run_bound_def)
next
  case False
  let ?dt = "now - sch_lastRefillMs s"
  have "rnd64 (of_int ?dt) = of_int ?dt" using dt False by (intro rnd64_of_int) simp
  moreover have "min (sch_budget s) (rnd64 (sch_tokens s + rnd64 (rnd64 (sch_budget s * of_int ?dt) / 60000)))
      \<le> sch_tokens s + sch_budget s * of_int ?dt / 60000 * (1 + eps64)\<^sup>2 + sch_budget s * eps64"
    by (rule fp64.refill_upper) (use wf False in \<open>simp_all add: sched_wf_def\<close>)
  ultimately show ?thesis using False last by (simp add: refill_def run_bound_def)
qed

lemma refill_range:
  assumes "0 \<le> sch_tokens s" "sch_tokens s \<le> sch_budget s"
  shows "0 \<le> sch_tokens (refill now s) \<and> sch_tokens (refill now s) \<le> sch_budget s"
proof -
  have n: "0 \<le> sch_budget s" using assms by simp
  have "0 \<le> rnd64 (sch_tokens s + rnd64 (rnd64 (sch_budget s * rnd64 (of_int (now - sch_lastRefillMs s))) / 60000))"
    if "\<not> now \<le> sch_lastRefillMs s"
    using that assms n by (intro fp64.rnd_nonneg add_nonneg_nonneg divide_nonneg_nonneg mult_nonneg_nonneg) simp_all
  then show ?thesis using assms n by (simp add: refill_def)
qed

lemma tryAcquire_cases:
  assumes "tryAcquire i now s = (g, s')"
  obtains (denied) "\<not> g" "s' = refill now s"
    | (granted) "g" "of_int (sc_weightPerRequest (sch_cfg s)) \<le> sch_tokens (refill now s)"
      "sch_pauseUntilMs s \<le> now" "sch_nextAllowedMs s ! i \<le> now"
      "s' = (refill now s)\<lparr>sch_tokens := rnd64 (sch_tokens (refill now s) - of_int (sc_weightPerRequest (sch_cfg s))),
              sch_requests := sch_requests s + 1\<rparr>"
  using assms by (auto simp: tryAcquire_def Let_def split: if_splits)

lemma rnd64_sub_le:
  assumes "0 \<le> w" "w \<le> t" "t \<le> B" "rnd64 B = B"
  shows "0 \<le> rnd64 (t - w)" "rnd64 (t - w) \<le> B" "rnd64 (t - w) \<le> t - w + B * eps64"
proof -
  show "0 \<le> rnd64 (t - w)" using assms by (intro fp64.rnd_nonneg) simp
  show "rnd64 (t - w) \<le> B" using rnd64_mono [of "t - w" B] assms by simp
  show "rnd64 (t - w) \<le> t - w + B * eps64" using assms by (intro fp64.rnd_upper_le) simp_all
qed

lemma sched_step_wf: "sched_wf s \<Longrightarrow> sched_wf (snd (sched_step x s))"
proof (cases x)
  case (Try i now)
  assume wf: "sched_wf s"
  obtain g s' where r: "tryAcquire i now s = (g, s')" by fastforce
  have rr: "0 \<le> sch_tokens (refill now s) \<and> sch_tokens (refill now s) \<le> sch_budget s"
    using wf by (intro refill_range) (simp_all add: sched_wf_def)
  show ?thesis
  proof (cases rule: tryAcquire_cases [OF r, case_names denied granted])
    case denied
    with rr wf r Try show ?thesis by (simp add: sched_wf_def)
  next
    case granted
    have "(0::rat) \<le> of_int (sc_weightPerRequest (sch_cfg s))" using wf by (simp add: sched_wf_def)
    from rnd64_sub_le [OF this granted(2) conjunct2 [OF rr]] granted wf r Try show ?thesis
      by (simp add: sched_wf_def)
  qed
qed (simp_all add: sched_wf_def onFetchOk_def onSynced_def)

lemma newScheduler_wf:
  assumes "0 \<le> sc_weightPerRequest cfg" "sc_weightPerRequest cfg \<le> 2 ^ 53"
  shows "sched_wf (newScheduler n cfg)"
proof -
  have w: "rnd64 (of_int (sc_weightPerRequest cfg)) = of_int (sc_weightPerRequest cfg)"
    using assms by (intro rnd64_of_int) simp
  have idem: "rnd64 (max (of_int (sc_weightPerRequest cfg)) (rnd64 y)) = max (of_int (sc_weightPerRequest cfg)) (rnd64 y)" for y
    using w by (simp add: max_def)
  show ?thesis using assms w idem by (simp add: sched_wf_def newScheduler_def Let_def)
qed

section \<open>The weight granted in a window\<close>

fun is_try :: "sched_op \<Rightarrow> bool" where
  "is_try (Try i now) = True"
| "is_try x = False"

definition tries :: "sched_op list \<Rightarrow> nat" where
  "tries xs = length (filter is_try xs)"

text \<open>All attempts of a run are made within \<open>[lo, hi]\<close>.\<close>

definition tries_in :: "int \<Rightarrow> int \<Rightarrow> sched_op list \<Rightarrow> bool" where
  "tries_in lo hi xs \<longleftrightarrow> (\<forall>x \<in> set xs. case x of Try i now \<Rightarrow> lo \<le> now \<and> now \<le> hi | _ \<Rightarrow> True)"

lemma tries_in_Cons: "tries_in lo hi (x # xs) \<longleftrightarrow>
    (case x of Try i now \<Rightarrow> lo \<le> now \<and> now \<le> hi | _ \<Rightarrow> True) \<and> tries_in lo hi xs"
  by (simp add: tries_in_def)

lemma sched_run_wf: "sched_wf s \<Longrightarrow> sched_wf (snd (sched_run xs s))"
proof (induction xs arbitrary: s)
  case (Cons x xs)
  from Cons.IH [OF sched_step_wf [OF Cons.prems, of x]] show ?case by (simp add: case_prod_beta)
qed simp

lemma sched_run_frame [simp]:
  "sch_budget (snd (sched_run xs s)) = sch_budget s" "sch_cfg (snd (sched_run xs s)) = sch_cfg s"
  by (induction xs arbitrary: s) (simp_all add: case_prod_beta)

lemma other_step_frame:
  assumes "\<not> is_try x"
  shows "\<not> fst (sched_step x s) \<and> sch_tokens (snd (sched_step x s)) = sch_tokens s \<and>
    sch_lastRefillMs (snd (sched_step x s)) = sch_lastRefillMs s"
  using assms by (cases x) (simp_all add: onFetchOk_def onSynced_def)

definition weight :: "SnapshotScheduler \<Rightarrow> rat" where
  "weight s = of_int (sc_weightPerRequest (sch_cfg s))"

lemma run_bound_add: "run_bound B (a + b) = run_bound B a + run_bound B b"
  by (simp add: run_bound_def ring_distribs add_divide_distrib)

lemma run_bound_mono: "0 \<le> B \<Longrightarrow> a \<le> b \<Longrightarrow> run_bound B a \<le> run_bound B b"
  by (simp add: run_bound_def mult_left_mono mult_right_mono divide_right_mono)

text \<open>What one attempt spends and keeps, at a bucket that was refilled to \<open>t\<close> tokens.\<close>

lemma tryAcquire_spend:
  assumes wf: "sched_wf s" and r: "tryAcquire i now s = (g, s')"
  shows "(if g then weight s else 0) + sch_tokens s' \<le> sch_tokens (refill now s) + sch_budget s * eps64 \<and>
    sch_lastRefillMs s' = sch_lastRefillMs (refill now s)"
proof -
  have rr: "0 \<le> sch_tokens (refill now s) \<and> sch_tokens (refill now s) \<le> sch_budget s"
    using wf by (intro refill_range) (simp_all add: sched_wf_def)
  have e: "0 \<le> sch_budget s * eps64" using rr by (simp add: eps64_def)
  show ?thesis
  proof (cases rule: tryAcquire_cases [OF r, case_names denied granted])
    case denied
    with e show ?thesis by simp
  next
    case granted
    have "(0::rat) \<le> of_int (sc_weightPerRequest (sch_cfg s))" using wf by (simp add: sched_wf_def)
    from rnd64_sub_le(3) [OF this granted(2) conjunct2 [OF rr]] granted wf show ?thesis
      by (simp add: sched_wf_def weight_def)
  qed
qed

lemma sched_run_weight:
  assumes "sched_wf s" "0 \<le> sch_lastRefillMs s" "tries_in lo hi xs" "hi - sch_lastRefillMs s \<le> 2 ^ 53"
  shows "weight s * of_nat (fst (sched_run xs s)) + sch_tokens (snd (sched_run xs s))
      \<le> sch_tokens s + run_bound (sch_budget s) (of_int (max hi (sch_lastRefillMs s) - sch_lastRefillMs s)) +
        2 * sch_budget s * eps64 * of_nat (tries xs)"
  using assms
proof (induction xs arbitrary: s)
  case Nil
  have "0 \<le> run_bound (sch_budget s) (of_int (max hi (sch_lastRefillMs s) - sch_lastRefillMs s))"
    using Nil.prems(1) by (simp add: run_bound_def sched_wf_def)
  then show ?case by (simp add: tries_def)
next
  case (Cons x xs)
  obtain g s1 where st: "sched_step x s = (g, s1)" by fastforce
  obtain n s2 where rn: "sched_run xs s1 = (n, s2)" by fastforce
  have fr: "sch_budget s1 = sch_budget s" "weight s1 = weight s" "sched_wf s1"
    using sched_step_frame [of x s] sched_step_wf [OF Cons.prems(1), of x] st by (simp_all add: weight_def)
  show ?case
  proof (cases "is_try x")
    case False
    note o = other_step_frame [OF False, of s]
    show ?thesis using Cons.IH [OF fr(3)] o st rn fr Cons.prems(2-4) False
      by (simp add: tries_in_Cons tries_def)
  next
    case True
    then obtain i now where Try: "x = Try i now" by (cases x) simp_all
    have acq: "tryAcquire i now s = (g, s1)" using st Try by simp
    have now: "now \<le> hi" using Cons.prems(3) Try by (simp add: tries_in_Cons)
    note rf = refill_tokens [OF Cons.prems(1) _ Cons.prems(2), of now]
    have rf: "sch_tokens (refill now s) \<le> sch_tokens s +
        run_bound (sch_budget s) (of_int (max now (sch_lastRefillMs s) - sch_lastRefillMs s)) + sch_budget s * eps64"
      "sch_lastRefillMs (refill now s) = max now (sch_lastRefillMs s)"
      using rf now Cons.prems(4) by simp_all
    note sp = tryAcquire_spend [OF Cons.prems(1) acq]
    have l1: "sch_lastRefillMs s1 = max now (sch_lastRefillMs s)" using sp rf(2) by simp
    have ih: "weight s * of_nat n + sch_tokens s2 \<le> sch_tokens s1 +
        run_bound (sch_budget s) (of_int (max hi (sch_lastRefillMs s1) - sch_lastRefillMs s1)) +
        2 * sch_budget s * eps64 * of_nat (tries xs)"
      using Cons.IH [OF fr(3)] rn l1 now Cons.prems by (simp add: tries_in_Cons Try fr)
    have sum: "run_bound (sch_budget s) (of_int (max now (sch_lastRefillMs s) - sch_lastRefillMs s)) +
        run_bound (sch_budget s) (of_int (max hi (sch_lastRefillMs s1) - sch_lastRefillMs s1)) =
        run_bound (sch_budget s) (of_int (max hi (sch_lastRefillMs s) - sch_lastRefillMs s))"
    proof -
      have "max hi (max now (sch_lastRefillMs s)) = max hi (sch_lastRefillMs s)" using now by simp
      then show ?thesis unfolding run_bound_add [symmetric] l1 by simp
    qed
    have "weight s * of_nat (fst (sched_run (x # xs) s)) = (if g then weight s else 0) + weight s * of_nat n"
      using st rn by (simp add: ring_distribs)
    moreover have "of_nat (tries (x # xs)) = (1::rat) + of_nat (tries xs)" by (simp add: tries_def Try)
    then have "2 * sch_budget s * eps64 * of_nat (tries (x # xs)) =
        2 * (sch_budget s * eps64) + 2 * sch_budget s * eps64 * of_nat (tries xs)"
      by (simp add: ring_distribs)
    ultimately show ?thesis using ih sum sp rf(1) st rn by simp
  qed
qed

text \<open>From the first attempt on, a bucketful and what the window refills is all there is to spend.\<close>

lemma sched_window:
  assumes "sched_wf s" "0 \<le> t" "tries_in t (t + 60000) xs"
  shows "weight s * of_nat (fst (sched_run xs s))
      \<le> sch_budget s + run_bound (sch_budget s) 60000 + 2 * sch_budget s * eps64 * of_nat (tries xs)"
  using assms
proof (induction xs arbitrary: s)
  case Nil
  then show ?case by (simp add: run_bound_def sched_wf_def tries_def)
next
  case (Cons x xs)
  obtain g s1 where st: "sched_step x s = (g, s1)" by fastforce
  obtain n s2 where rn: "sched_run xs s1 = (n, s2)" by fastforce
  have fr: "sch_budget s1 = sch_budget s" "weight s1 = weight s" "sched_wf s1"
    using sched_step_frame [of x s] sched_step_wf [OF Cons.prems(1), of x] st by (simp_all add: weight_def)
  have B: "0 \<le> sch_budget s" using Cons.prems(1) by (simp add: sched_wf_def)
  show ?case
  proof (cases "is_try x")
    case False
    note o = other_step_frame [OF False, of s]
    show ?thesis using Cons.IH [OF fr(3) Cons.prems(2)] o st rn fr Cons.prems(3) False
      by (simp add: tries_in_Cons tries_def)
  next
    case True
    then obtain i now where x: "x = Try i now" by (cases x) simp_all
    have acq: "tryAcquire i now s = (g, s1)" using st x by simp
    have now: "t \<le> now" "now \<le> t + 60000" using Cons.prems(3) x by (simp_all add: tries_in_Cons)
    note sp = tryAcquire_spend [OF Cons.prems(1) acq]
    have full: "sch_tokens (refill now s) \<le> sch_budget s"
      using refill_range [of s now] Cons.prems(1) by (simp add: sched_wf_def)
    have last: "t \<le> sch_lastRefillMs s1" using sp now by (auto simp: refill_def)
    let ?L = "max (t + 60000) (sch_lastRefillMs s1) - sch_lastRefillMs s1"
    have "weight s * of_nat n + sch_tokens s2 \<le> sch_tokens s1 + run_bound (sch_budget s) (of_int ?L) +
        2 * sch_budget s * eps64 * of_nat (tries xs)"
      using sched_run_weight [OF fr(3), of t "t + 60000" xs] last Cons.prems x rn fr
      by (simp add: tries_in_Cons)
    moreover have "run_bound (sch_budget s) (of_int ?L) \<le> run_bound (sch_budget s) 60000"
    proof (rule run_bound_mono [OF B])
      have "?L \<le> 60000" using last by simp
      then have "(of_int ?L :: rat) \<le> of_int 60000" by (simp only: of_int_le_iff)
      then show "(of_int ?L :: rat) \<le> 60000" by simp
    qed
    moreover have "weight s * of_nat (fst (sched_run (x # xs) s)) = (if g then weight s else 0) + weight s * of_nat n"
      using st rn by (simp add: ring_distribs)
    moreover have "of_nat (tries (x # xs)) = (1::rat) + of_nat (tries xs)" by (simp add: tries_def x)
    then have "2 * sch_budget s * eps64 * of_nat (tries (x # xs)) =
        2 * (sch_budget s * eps64) + 2 * sch_budget s * eps64 * of_nat (tries xs)"
      by (simp add: ring_distribs)
    moreover have "0 \<le> sch_tokens s2" "0 \<le> sch_budget s * eps64"
      using sched_run_wf [OF fr(3), of xs] rn B by (simp_all add: sched_wf_def eps64_def)
    ultimately show ?thesis using sp full by linarith
  qed
qed

section \<open>Backoff and pauses\<close>

lemma backoff_loop_val: "0 < d \<Longrightarrow> min (backoff_loop k mx d) mx = min (d * 2 ^ k) mx"
proof (induction k arbitrary: d)
  case (Suc k)
  show ?case
  proof (cases "d < mx")
    case True
    with Suc show ?thesis by (simp add: mult.assoc)
  next
    case False
    have "(1::int) \<le> 2 ^ Suc k" by (rule one_le_power) simp
    then have "d * 1 \<le> d * 2 ^ Suc k" using Suc.prems by (intro mult_left_mono) simp_all
    with False show ?thesis by simp
  qed
qed simp

definition baseDelay :: "SnapshotSchedulerConfig \<Rightarrow> nat \<Rightarrow> int" where
  "baseDelay cfg n = min (sc_initialBackoffMs cfg * 2 ^ (n - 1)) (sc_maxBackoffMs cfg)"

lemma rnd64_le_exact: "x \<le> y \<Longrightarrow> rnd64 y = y \<Longrightarrow> rnd64 x \<le> y"
  using rnd64_mono by metis

text \<open>A quarter of an integer below \<open>2 ^ 51\<close> is a number of the format.\<close>

lemma rnd64_quarter:
  assumes "0 \<le> n" "n < 2 ^ 51"
  shows "rnd64 (of_int n / 4) = of_int n / 4"
proof (cases "n = 0")
  case False
  with assms have p: "(0::rat) < of_int n / 4" by simp
  have "(of_int n :: rat) < of_int (2 ^ 51)" using assms by (simp only: of_int_less_iff)
  then have "bin_exp (of_int n / 4) \<le> int 50" using p by (intro bin_exp_le) simp_all
  then have "rnd_pos (of_int n / 4) = of_int n / 4"
    using p by (intro rnd_pos_exact [of _ n "-2"]) (simp_all add: power_int_minus power2_eq_square)
  then show ?thesis using p by (simp add: rnd64_pos)
qed simp

lemma backoffDelay_range:
  assumes "0 < sc_initialBackoffMs cfg" "0 < sc_maxBackoffMs cfg" "sc_maxBackoffMs cfg < 2 ^ 51"
    and "sc_jitterFraction cfg = 1 / 4" "0 \<le> j" "j \<le> 1"
  shows "baseDelay cfg n \<le> backoffDelay cfg n j \<and>
    4 * backoffDelay cfg n j \<le> 5 * baseDelay cfg n \<and> 0 < baseDelay cfg n"
proof -
  let ?d = "baseDelay cfg n"
  have d: "0 < ?d" "?d < 2 ^ 51" using assms by (simp_all add: baseDelay_def)
  have "backoffDelay cfg n j = ?d + \<lfloor>rnd64 (rnd64 (rnd64 (of_int ?d) * (1 / 4)) * j)\<rfloor>"
    unfolding backoffDelay_def baseDelay_def backoff_loop_val [OF assms(1)] assms(4) Let_def by (rule refl)
  moreover have "rnd64 (of_int ?d) = of_int ?d" using d by (intro rnd64_of_int) simp
  moreover have q: "rnd64 (of_int ?d / 4) = of_int ?d / 4" using d by (intro rnd64_quarter) simp_all
  ultimately have b: "backoffDelay cfg n j = ?d + \<lfloor>rnd64 (of_int ?d / 4 * j)\<rfloor>" by simp
  have "0 \<le> rnd64 (of_int ?d / 4 * j)" using d assms by (intro fp64.rnd_nonneg) simp
  moreover have "rnd64 (of_int ?d / 4 * j) \<le> of_int ?d / 4"
    using d assms q mult_left_le [of j "of_int ?d / 4"] by (intro rnd64_le_exact) simp_all
  moreover have "of_int \<lfloor>rnd64 (of_int ?d / 4 * j)\<rfloor> \<le> rnd64 (of_int ?d / 4 * j)" by (rule of_int_floor_le)
  ultimately have "4 * of_int \<lfloor>rnd64 (of_int ?d / 4 * j)\<rfloor> \<le> (of_int ?d :: rat)" by linarith
  then have "(of_int (4 * \<lfloor>rnd64 (of_int ?d / 4 * j)\<rfloor>) :: rat) \<le> of_int ?d" by simp
  then have "4 * \<lfloor>rnd64 (of_int ?d / 4 * j)\<rfloor> \<le> ?d" by (simp only: of_int_le_iff)
  moreover have "0 \<le> \<lfloor>rnd64 (of_int ?d / 4 * j)\<rfloor>"
    using \<open>0 \<le> rnd64 (of_int ?d / 4 * j)\<close> by simp
  ultimately show ?thesis using b d by simp
qed

lemma pauseAll_until [simp]: "sch_pauseUntilMs (pauseAll now ms s) = max (sch_pauseUntilMs s) (now + ms)"
  by (simp add: pauseAll_def Let_def)

lemma checkUsedWeight_pause: "sch_pauseUntilMs s \<le> sch_pauseUntilMs (checkUsedWeight now w s)"
  by (simp add: checkUsedWeight_def)

lemma sched_step_pause: "sch_pauseUntilMs s \<le> sch_pauseUntilMs (snd (sched_step x s))"
proof (cases x)
  case (Failure i now h ra w j)
  have "sch_pauseUntilMs s \<le> sch_pauseUntilMs (checkUsedWeight now w t)" if "sch_pauseUntilMs s \<le> sch_pauseUntilMs t" for t
    using that checkUsedWeight_pause [of t now w] by simp
  then show ?thesis unfolding Failure by (simp add: onFailure_def Let_def)
qed (auto simp: tryAcquire_def Let_def onFetchOk_def onSynced_def checkUsedWeight_pause)

lemma sched_run_pause: "sch_pauseUntilMs s \<le> sch_pauseUntilMs (snd (sched_run xs s))"
proof (induction xs arbitrary: s)
  case (Cons x xs)
  from sched_step_pause [of s x] Cons [of "snd (sched_step x s)"] show ?case by (simp add: case_prod_beta)
qed simp

section \<open>Properties\<close>

definition spotScheduler :: "nat \<Rightarrow> SnapshotScheduler" where
  "spotScheduler n = newScheduler n defaultSchedulerConfig"

lemma spot_budget: "sch_budget (spotScheduler n) = 600"
proof -
  have "rnd64 (6000 * rnd64 (1 / 10)) = 600" by code_simp
  then show ?thesis by (simp add: spotScheduler_def newScheduler_def defaultSchedulerConfig_def Let_def)
qed



text \<open>C31: A rate-limit answer stops everything. After HTTP 429 or 418 no request is granted for any symbol,
  whatever else happens meanwhile, until the server's Retry-After is over, and at least for 60 s or
  300 s respectively with the default configuration.\<close>

theorem rate_limit_pauses_all:
  assumes "httpStatus = 429 \<or> httpStatus = 418"
    and "s' = snd (sched_run xs (onFailure i now httpStatus retryAfterSec w j s))"
    and "now' < now + max (if httpStatus = 418 then sc_minPause418Ms (sch_cfg s) else sc_minPause429Ms (sch_cfg s))
                         (retryAfterSec * 1000)"
  shows "\<not> fst (tryAcquire i' now' s')"
proof -
  let ?m = "max (if httpStatus = 418 then sc_minPause418Ms (sch_cfg s) else sc_minPause429Ms (sch_cfg s)) (retryAfterSec * 1000)"
  have "now + ?m \<le> sch_pauseUntilMs (onFailure i now httpStatus retryAfterSec w j s)"
    using assms(1) checkUsedWeight_pause [of "pauseAll now ?m t" now w for t]
    by (auto simp: onFailure_def Let_def intro: order_trans [OF _ checkUsedWeight_pause])
  also have "\<dots> \<le> sch_pauseUntilMs s'" unfolding assms(2) by (rule sched_run_pause)
  finally have "now' < sch_pauseUntilMs s'" using assms(3) by linarith
  then show ?thesis by (simp add: tryAcquire_def Let_def)
qed

lemma rate_limit_pauses_all_witness:
  "\<not> fst (tryAcquire 1 300999 (snd (sched_run [Synced 0, Try 1 50000] (onFailure 0 1000 418 3 (-1) 0 (spotScheduler 2)))))"
  by (rule rate_limit_pauses_all [of 418 _ "[Synced 0, Try 1 50000]" 0 1000 3 "-1" 0 "spotScheduler 2"])
    (simp_all add: spotScheduler_def newScheduler_def defaultSchedulerConfig_def Let_def)

text \<open>C33: The backoff. After the \<open>n\<close>-th consecutive failure of a symbol its next request waits
  \<open>min (initial * 2 ^ (n - 1)) max\<close> milliseconds, stretched by the jitter by at most a quarter, rounding
  included; other symbols keep their waiting times, and nothing is granted before the wait is over.\<close>

theorem backoff_window:
  assumes "sch_cfg s = cfg" "0 < sc_initialBackoffMs cfg" "0 < sc_maxBackoffMs cfg" "sc_maxBackoffMs cfg < 2 ^ 51"
    and "sc_jitterFraction cfg = 1 / 4" "0 \<le> j" "j < 1"
    and "i < length (sch_nextAllowedMs s)" "n = sch_failures s ! i + 1"
    and "s' = onFailure i now httpStatus retryAfterSec w j s"
  shows "now + baseDelay cfg n \<le> sch_nextAllowedMs s' ! i \<and>
    4 * (sch_nextAllowedMs s' ! i - now) \<le> 5 * baseDelay cfg n \<and>
    (\<forall>k. k \<noteq> i \<longrightarrow> sch_nextAllowedMs s' ! k = sch_nextAllowedMs s ! k) \<and>
    (\<forall>now' < now + baseDelay cfg n. \<not> fst (tryAcquire i now' s'))"
proof -
  have r: "baseDelay cfg n \<le> backoffDelay cfg n j" "4 * backoffDelay cfg n j \<le> 5 * baseDelay cfg n"
    using backoffDelay_range [OF assms(2-6), of n] assms(7) by simp_all
  have nx: "sch_nextAllowedMs s' = (sch_nextAllowedMs s)[i := now + backoffDelay cfg n j]"
    by (simp add: assms(1,9,10))
  have "\<not> fst (tryAcquire i now' s')" if "now' < now + baseDelay cfg n" for now'
    using that r(1) assms(8) by (simp add: tryAcquire_def Let_def nx)
  with r nx assms(8) show ?thesis by simp
qed

lemma backoff_window_witness:
  "1000 \<le> sch_nextAllowedMs (onFailure 0 0 0 0 (-1) (1 / 2) (spotScheduler 1)) ! 0 \<and>
   4 * sch_nextAllowedMs (onFailure 0 0 0 0 (-1) (1 / 2) (spotScheduler 1)) ! 0 \<le> 5000"
  using backoff_window [of "spotScheduler 1" defaultSchedulerConfig "1 / 2" 0 1
      "onFailure 0 0 0 0 (-1) (1 / 2) (spotScheduler 1)" 0 0 0 "-1"]
  by (simp add: spotScheduler_def newScheduler_def defaultSchedulerConfig_def Let_def baseDelay_def)



end
