(* ===== verification/Json_Reader.thy ===== *)
theory Json_Reader
  imports Doubles
begin

text \<open>
  \<open>cpp/include/json_reader.hpp\<close>: the checked accessors over a parsed JSON value, and the parsing of
  price levels.

  The JSON parser is a third-party library: the model starts at the value it returns, \<open>Json\<close>.
  Members keep their order and may repeat; a lookup finds the first. An integer literal is \<open>JInt\<close>,
  any other number \<open>JDouble\<close>. \<open>strtod\<close> of the C library (C locale) is modelled as far as its result,
  its end pointer and \<open>ERANGE\<close> go.

  The locale \<open>json_accessor\<close> is the contract the message handlers rely on when they read all fields
  first and test for an error once.
\<close>

section \<open>Values\<close>

datatype Json = JNull | JBool bool | JInt int | JDouble double | JString string
  | JArray "Json list" | JObject "(string \<times> Json) list"

definition isInt64 :: "Json \<Rightarrow> bool" where
  "isInt64 v = (case v of JInt n \<Rightarrow> in_i64 n | _ \<Rightarrow> False)"

definition isInt :: "Json \<Rightarrow> bool" where
  "isInt v = (case v of JInt n \<Rightarrow> - (2 ^ 31) \<le> n \<and> n < 2 ^ 31 | _ \<Rightarrow> False)"

section \<open>The C library's \<open>strtod\<close>\<close>

text \<open>A C string ends at its first NUL.\<close>

definition c_str :: "string \<Rightarrow> string" where
  "c_str s = takeWhile (\<lambda>c. of_char c \<noteq> (0::nat)) s"

definition is_space :: "char \<Rightarrow> bool" where
  "is_space c \<longleftrightarrow> of_char c = (32::nat) \<or> (9::nat) \<le> of_char c \<and> of_char c \<le> (13::nat)"

definition lower :: "char \<Rightarrow> char" where
  "lower c = (let n = of_char c :: nat in if 65 \<le> n \<and> n \<le> 90 then char_of (n + 32) else c)"

text \<open>The value of a digit, 99 for any other character.\<close>

definition digit_val :: "char \<Rightarrow> nat" where
  "digit_val c = (let n = of_char (lower c) :: nat
     in if 48 \<le> n \<and> n \<le> 57 then n - 48 else if 97 \<le> n \<and> n \<le> 102 then n - 87 else 99)"

definition digits_val :: "nat \<Rightarrow> string \<Rightarrow> nat" where
  "digits_val base ds = foldl (\<lambda>n c. n * base + digit_val c) 0 ds"

text \<open>An exponent: its marker, an optional sign, and at least one digit, or nothing.\<close>

definition scan_exp :: "char \<Rightarrow> string \<Rightarrow> int \<times> string" where
  "scan_exp marker s =
     (if s \<noteq> [] \<and> lower (hd s) = marker then
        let s1 = tl s;
            neg = (s1 \<noteq> [] \<and> hd s1 = CHR ''-'');
            s2 = (if s1 \<noteq> [] \<and> (hd s1 = CHR ''-'' \<or> hd s1 = CHR ''+'') then tl s1 else s1);
            ds = takeWhile (\<lambda>c. digit_val c < 10) s2
        in if ds = [] then (0, s)
           else ((if neg then - int (digits_val 10 ds) else int (digits_val 10 ds)), drop (length ds) s2)
      else (0, s))"

text \<open>A number in base 10 or 16; \<open>None\<close> when there is no digit.\<close>

definition scan_number :: "nat \<Rightarrow> string \<Rightarrow> (rat \<times> string) option" where
  "scan_number base s =
     (let dig = (\<lambda>c. digit_val c < base);
          ip = takeWhile dig s; r1 = drop (length ip) s;
          fp = (if r1 \<noteq> [] \<and> hd r1 = CHR ''.'' then takeWhile dig (tl r1) else []);
          r2 = (if r1 \<noteq> [] \<and> hd r1 = CHR ''.'' then drop (length fp) (tl r1) else r1)
      in if ip = [] \<and> fp = [] then None
         else case scan_exp (if base = 16 then CHR ''p'' else CHR ''e'') r2 of (e, r3) \<Rightarrow>
           Some (of_nat (digits_val base (ip @ fp)) / of_nat base ^ length fp *
                 (if base = 16 then 2 powi e else 10 powi e), r3))"

text \<open>
  The nearest \<open>double\<close> of a rational, and whether \<open>ERANGE\<close> is set: on overflow, and on a result below
  the normal range that is not exact.
\<close>

definition nearest_double :: "rat \<Rightarrow> double \<times> bool" where
  "nearest_double r =
     (case quotient_of r of (n, d) \<Rightarrow>
        if n = 0 then (Fin 0, False)
        else if (2 ^ 1024 - 2 ^ 970) * d \<le> \<bar>n\<bar> then ((if 0 < n then PosInf else NegInf), True)
        else if \<bar>n\<bar> * 2 ^ 1022 < d then
          (let m = r * 2 ^ 1074 in (Fin (of_int (rne m) / 2 ^ 1074), of_int (rne m) \<noteq> m))
        else (Fin (rnd64 r), False))"

definition starts :: "string \<Rightarrow> string \<Rightarrow> bool" where
  "starts p s \<longleftrightarrow> map lower (take (length p) s) = p"

text \<open>The optional \<open>(...)\<close> after \<open>nan\<close>.\<close>

definition skip_nan_payload :: "string \<Rightarrow> string" where
  "skip_nan_payload s =
     (if s \<noteq> [] \<and> hd s = CHR ''('' then
        let w = takeWhile (\<lambda>c. digit_val c < 10 \<or> (97::nat) \<le> of_char (lower c) \<and> of_char (lower c) \<le> (122::nat) \<or> c = CHR ''_'') (tl s);
            r = drop (length w) (tl s)
        in if r \<noteq> [] \<and> hd r = CHR '')'' then tl r else s
      else s)"

text \<open>\<open>None\<close>: no conversion (\<open>end == s\<close>). Otherwise the value, \<open>ERANGE\<close>, and what \<open>end\<close> points to.\<close>

definition strtod :: "string \<Rightarrow> (double \<times> bool \<times> string) option" where
  "strtod s0 =
     (let s1 = dropWhile is_space (c_str s0);
          neg = (s1 \<noteq> [] \<and> hd s1 = CHR ''-'');
          s = (if s1 \<noteq> [] \<and> (hd s1 = CHR ''-'' \<or> hd s1 = CHR ''+'') then tl s1 else s1)
      in if starts ''infinity'' s then Some (if neg then NegInf else PosInf, False, drop 8 s)
         else if starts ''inf'' s then Some (if neg then NegInf else PosInf, False, drop 3 s)
         else if starts ''nan'' s then Some (NaN, False, skip_nan_payload (drop 3 s))
         else case (if starts ''0x'' s then
                      (case scan_number 16 (drop 2 s) of None \<Rightarrow> Some (0, tl s) | Some x \<Rightarrow> Some x)
                    else scan_number 10 s) of
           None \<Rightarrow> None
         | Some (r, rest) \<Rightarrow> (case nearest_double (if neg then - r else r) of (d, er) \<Rightarrow> Some (d, er, rest)))"

section \<open>The reader\<close>

record JsonReader =
  rd_v :: "(string \<times> Json) list option"
  rd_err :: string

definition emptyReader :: JsonReader where
  "emptyReader = \<lparr>rd_v = None, rd_err = []\<rparr>"

definition newReader :: "Json \<Rightarrow> JsonReader" where
  "newReader v = (case v of JObject ms \<Rightarrow> \<lparr>rd_v = Some ms, rd_err = []\<rparr>
                  | _ \<Rightarrow> \<lparr>rd_v = None, rd_err = ''expected JSON object''\<rparr>)"

definition hasError :: "JsonReader \<Rightarrow> bool" where
  "hasError r \<longleftrightarrow> rd_err r \<noteq> []"

definition setError :: "string \<Rightarrow> JsonReader \<Rightarrow> JsonReader" where
  "setError msg r = (if rd_err r = [] then r\<lparr>rd_err := msg\<rparr> else r)"

text \<open>The nested reader and the parent, which remembers the error.\<close>

definition obj :: "string \<Rightarrow> JsonReader \<Rightarrow> JsonReader \<times> JsonReader" where
  "obj key r =
     (case rd_v r of None \<Rightarrow> (emptyReader\<lparr>rd_err := rd_err r\<rparr>, r)
      | Some ms \<Rightarrow>
          (case map_of ms key of
             None \<Rightarrow> let r' = setError (''missing object: '' @ key) r in (emptyReader\<lparr>rd_err := rd_err r'\<rparr>, r')
           | Some inner \<Rightarrow>
               (case inner of JObject ims \<Rightarrow> (newReader inner, r)
                | _ \<Rightarrow> let r' = setError (''not an object: '' @ key) r in (emptyReader\<lparr>rd_err := rd_err r'\<rparr>, r'))))"

text \<open>What all field accessors share: the missing key, the wrong type, the value.\<close>

definition field :: "string \<Rightarrow> (Json \<Rightarrow> 'a option) \<Rightarrow> (string \<Rightarrow> Json \<Rightarrow> string) \<Rightarrow> string \<Rightarrow> JsonReader \<Rightarrow> 'a option \<times> JsonReader" where
  "field kind get bad key r =
     (case rd_v r of None \<Rightarrow> (None, r)
      | Some ms \<Rightarrow>
          (case map_of ms key of
             None \<Rightarrow> (None, setError (''missing '' @ kind @ '': '' @ key) r)
           | Some f \<Rightarrow> (case get f of None \<Rightarrow> (None, setError (bad key f) r) | Some x \<Rightarrow> (Some x, r))))"

definition rd_string :: "string \<Rightarrow> JsonReader \<Rightarrow> string option \<times> JsonReader" where
  "rd_string = field ''string'' (\<lambda>f. case f of JString s \<Rightarrow> Some s | _ \<Rightarrow> None) (\<lambda>key f. ''not a string: '' @ key)"

definition rd_int64 :: "string \<Rightarrow> JsonReader \<Rightarrow> int option \<times> JsonReader" where
  "rd_int64 = field ''int64'' (\<lambda>f. case f of JInt n \<Rightarrow> if isInt64 f then Some n else None | _ \<Rightarrow> None)
     (\<lambda>key f. ''not an int64: '' @ key)"

definition rd_integer :: "string \<Rightarrow> JsonReader \<Rightarrow> int option \<times> JsonReader" where
  "rd_integer = field ''int'' (\<lambda>f. case f of JInt n \<Rightarrow> if isInt f then Some n else None | _ \<Rightarrow> None)
     (\<lambda>key f. ''not an int: '' @ key)"

definition rd_boolean :: "string \<Rightarrow> JsonReader \<Rightarrow> bool option \<times> JsonReader" where
  "rd_boolean = field ''bool'' (\<lambda>f. case f of JBool b \<Rightarrow> Some b | _ \<Rightarrow> None) (\<lambda>key f. ''not a bool: '' @ key)"

text \<open>\<open>strtod\<close> that converted something without a range error; what follows the number is not looked at.\<close>

definition price_of :: "string \<Rightarrow> double option" where
  "price_of s = (case strtod s of None \<Rightarrow> None | Some (d, er, rest) \<Rightarrow> if er then None else Some d)"

definition rd_priceString :: "string \<Rightarrow> JsonReader \<Rightarrow> double option \<times> JsonReader" where
  "rd_priceString = field ''string'' (\<lambda>f. case f of JString s \<Rightarrow> price_of s | _ \<Rightarrow> None)
     (\<lambda>key f. case f of JString s \<Rightarrow> ''strtod failed for '' @ key @ '': '' @ [CHR 0x27] @ c_str s @ [CHR 0x27]
              | _ \<Rightarrow> ''not a string: '' @ key)"

definition rd_array :: "string \<Rightarrow> JsonReader \<Rightarrow> Json list option \<times> JsonReader" where
  "rd_array = field ''array'' (\<lambda>f. case f of JArray xs \<Rightarrow> Some xs | _ \<Rightarrow> None) (\<lambda>key f. ''not an array: '' @ key)"

definition parseLevelPair :: "Json \<Rightarrow> (double \<times> double) option" where
  "parseLevelPair lvl =
     (case lvl of JArray (JString p # JString q # rest) \<Rightarrow>
        (case price_of p of None \<Rightarrow> None
         | Some px \<Rightarrow> (case price_of q of None \<Rightarrow> None | Some qt \<Rightarrow> Some (px, qt)))
      | _ \<Rightarrow> None)"

section \<open>The contract of an accessor\<close>

text \<open>A reader that was bound to an object, or carries the reason why it was not.\<close>

definition reader_ok :: "JsonReader \<Rightarrow> bool" where
  "reader_ok r \<longleftrightarrow> (rd_v r = None \<longrightarrow> hasError r)"

locale json_accessor =
  fixes acc :: "string \<Rightarrow> JsonReader \<Rightarrow> 'a option \<times> JsonReader"
  assumes acc_value: "acc k r = (x, r') \<Longrightarrow> rd_v r' = rd_v r"
    and acc_first_error: "acc k r = (x, r') \<Longrightarrow> hasError r \<Longrightarrow> rd_err r' = rd_err r"
    and acc_success: "acc k r = (Some y, r') \<Longrightarrow> r' = r"
    and acc_failure: "acc k r = (None, r') \<Longrightarrow> reader_ok r \<Longrightarrow> hasError r'"
begin

text \<open>One test at the end covers every read: no error then means that this read succeeded.\<close>

lemma acc_checked:
  assumes "acc k r = (x, r')" "reader_ok r" "\<not> hasError r'"
  shows "r' = r \<and> (\<exists>y. x = Some y)"
  using assms acc_success [of k r _ r'] acc_failure [of k r r'] by (cases x) auto

lemma acc_reader_ok: "acc k r = (x, r') \<Longrightarrow> reader_ok r \<Longrightarrow> reader_ok r'"
  using acc_value [of k r x r'] acc_first_error [of k r x r'] by (auto simp: reader_ok_def hasError_def)

lemma acc_error_sticky: "acc k r = (x, r') \<Longrightarrow> hasError r \<Longrightarrow> hasError r'"
  using acc_first_error [of k r x r'] by (simp add: hasError_def)

end

lemma setError_simps [simp]:
  "rd_v (setError m r) = rd_v r" "rd_err r \<noteq> [] \<Longrightarrow> setError m r = r"
  "m \<noteq> [] \<Longrightarrow> hasError (setError m r)"
  by (auto simp: setError_def hasError_def)

lemma field_accessor:
  assumes "\<And>k f. bad k f \<noteq> []"
  shows "json_accessor (field kind get bad)"
proof
  fix k r x r'
  assume a: "field kind get bad k r = (x, r')"
  show "rd_v r' = rd_v r" using a by (auto simp: field_def split: option.splits)
  show "hasError r \<Longrightarrow> rd_err r' = rd_err r"
    using a by (auto simp: field_def hasError_def split: option.splits)
next
  fix k r y r'
  assume "field kind get bad k r = (Some y, r')"
  then show "r' = r" by (auto simp: field_def split: option.splits)
next
  fix k r r'
  assume "field kind get bad k r = (None, r')" "reader_ok r"
  then show "hasError r'" using assms by (auto simp: field_def reader_ok_def split: option.splits)
qed

interpretation js_string: json_accessor rd_string
  unfolding rd_string_def by (rule field_accessor) simp

interpretation js_int64: json_accessor rd_int64
  unfolding rd_int64_def by (rule field_accessor) simp

interpretation js_integer: json_accessor rd_integer
  unfolding rd_integer_def by (rule field_accessor) simp

interpretation js_boolean: json_accessor rd_boolean
  unfolding rd_boolean_def by (rule field_accessor) simp

interpretation js_price: json_accessor rd_priceString
  unfolding rd_priceString_def by (rule field_accessor) (simp split: Json.split)

interpretation js_array: json_accessor rd_array
  unfolding rd_array_def by (rule field_accessor) simp

lemma newReader_ok: "reader_ok (newReader v)"
  by (cases v) (simp_all add: newReader_def reader_ok_def hasError_def)

lemma poisoned_ok: "m \<noteq> [] \<Longrightarrow> reader_ok (emptyReader\<lparr>rd_err := rd_err (setError m r)\<rparr>)"
  by (simp add: reader_ok_def hasError_def setError_def emptyReader_def)

lemma obj_ok:
  assumes "reader_ok r" "obj k r = (d, r')"
  shows "reader_ok d"
proof (cases "rd_v r")
  case None
  with assms show ?thesis by (auto simp: obj_def reader_ok_def hasError_def)
next
  case (Some ms)
  show ?thesis
  proof (cases "map_of ms k")
    case None
    then have "d = emptyReader\<lparr>rd_err := rd_err (setError (''missing object: '' @ k) r)\<rparr>"
      using Some assms(2) by (auto simp: obj_def Let_def)
    then show ?thesis using poisoned_ok [of "''missing object: '' @ k" r] by simp
  next
    case inner: (Some v)
    have "d = newReader v \<or> d = emptyReader\<lparr>rd_err := rd_err (setError (''not an object: '' @ k) r)\<rparr>"
      using Some inner assms(2) by (cases v) (auto simp: obj_def Let_def)
    then show ?thesis using newReader_ok poisoned_ok [of "''not an object: '' @ k" r] by auto
  qed
qed

section \<open>Levels\<close>

text \<open>The loop over the levels of a side: malformed ones are skipped.\<close>

definition parseLevels :: "Json list \<Rightarrow> (double \<times> double) list" where
  "parseLevels xs = List.map_filter parseLevelPair xs"

text \<open>What a price string may start with: decimal digits; and what ends them.\<close>

definition decimal :: "string \<Rightarrow> bool" where
  "decimal ds \<longleftrightarrow> ds \<noteq> [] \<and> list_all (\<lambda>c. digit_val c < 10) ds"

definition ends_number :: "string \<Rightarrow> bool" where
  "ends_number s \<longleftrightarrow> s = [] \<or> 10 \<le> digit_val (hd s) \<and> hd s \<noteq> CHR ''.'' \<and> lower (hd s) \<noteq> CHR ''e'' \<and> lower (hd s) \<noteq> CHR ''x''"

lemma digit_char:
  assumes "digit_val c < 10"
  shows "48 \<le> (of_char c :: nat)" "(of_char c :: nat) \<le> 57" "lower c = c"
proof -
  have n: "48 \<le> (of_char (lower c) :: nat) \<and> (of_char (lower c) :: nat) \<le> 57"
    using assms by (auto simp: digit_val_def Let_def split: if_splits)
  show l: "lower c = c"
  proof (rule ccontr)
    assume "lower c \<noteq> c"
    then have "65 \<le> (of_char c :: nat)" "(of_char c :: nat) \<le> 90" "lower c = char_of ((of_char c :: nat) + 32)"
      by (auto simp: lower_def Let_def split: if_splits)
    with n show False by simp
  qed
  with n show "48 \<le> (of_char c :: nat)" "(of_char c :: nat) \<le> 57" by simp_all
qed

lemma digit_not:
  assumes "digit_val c < 10" "(of_char x :: nat) < 48 \<or> 57 < (of_char x :: nat)"
  shows "lower c \<noteq> x" "c \<noteq> x"
  using digit_char [OF assms(1)] assms(2) by auto

lemma digit_not_space: "digit_val c < 10 \<Longrightarrow> \<not> is_space c \<and> (of_char c :: nat) \<noteq> 0"
  using digit_char [of c] by (auto simp: is_space_def)

lemma c_str_digits: "list_all (\<lambda>c. digit_val c < 10) ds \<Longrightarrow> c_str (ds @ s) = ds @ c_str s"
  by (induction ds) (auto simp: c_str_def digit_not_space)

lemma ends_number_c_str: "ends_number s \<Longrightarrow> ends_number (c_str s)"
  by (cases s) (auto simp: ends_number_def c_str_def)

lemma scan_digits:
  assumes "decimal ds" "ends_number s"
  shows "scan_number 10 (ds @ s) = Some (of_nat (digits_val 10 ds), s)"
proof -
  have tw: "takeWhile (\<lambda>c. digit_val c < 10) (ds @ s) = ds"
  proof -
    have "takeWhile (\<lambda>c. digit_val c < 10) s = []" using assms(2) by (cases s) (auto simp: ends_number_def)
    then show ?thesis using assms(1) by (simp add: decimal_def list_all_iff)
  qed
  have "scan_exp CHR ''e'' s = (0, s)" using assms(2) by (auto simp: scan_exp_def ends_number_def)
  moreover have "ds \<noteq> []" using assms(1) by (simp add: decimal_def)
  moreover have "hd s \<noteq> CHR ''.''" if "s \<noteq> []" using assms(2) that by (auto simp: ends_number_def)
  moreover have "drop (length ds) (ds @ s) = s" by simp
  ultimately show ?thesis unfolding scan_number_def tw Let_def by (cases s) simp_all
qed

lemma starts_digits:
  assumes "digit_val c < 10" "p \<noteq> []" "(of_char (hd p) :: nat) < 48 \<or> 57 < (of_char (hd p) :: nat)"
  shows "\<not> starts p (c # s)"
  using assms(2) digit_not [OF assms(1,3)] by (cases p) (auto simp: starts_def)

lemma no_hex:
  assumes "decimal ds" "ends_number s"
  shows "\<not> starts ''0x'' (ds @ s)"
proof -
  obtain c ds' where ds: "ds = c # ds'" and c: "digit_val c < 10" "list_all (\<lambda>c. digit_val c < 10) ds'"
    using assms(1) by (cases ds) (auto simp: decimal_def)
  show ?thesis
  proof (cases ds')
    case Nil
    with ds assms(2) show ?thesis by (cases s) (auto simp: starts_def ends_number_def)
  next
    case (Cons b bs)
    with c have "lower b \<noteq> CHR ''x''" by (intro digit_not) simp_all
    with ds Cons show ?thesis by (simp add: starts_def)
  qed
qed

lemma nearest_double_of_nat:
  assumes "n \<le> 2 ^ 53"
  shows "nearest_double (of_nat n) = (Fin (of_nat n), False)"
proof -
  have q: "quotient_of (of_nat n) = (int n, 1)" using quotient_of_int [of "int n"] by (simp add: of_int_of_nat_eq)
  have n: "int n \<le> 2 ^ 53" using assms by (metis of_nat_le_iff of_nat_numeral of_nat_power)
  have "\<not> (2 ^ 1024 - 2 ^ 970) \<le> int n"
  proof -
    define b where "b = (2::int) ^ 970"
    have "(2::int) ^ 1024 = 2 ^ 54 * b" unfolding b_def by (simp only: power_add [symmetric]) simp
    moreover have "(2::int) ^ 53 < b" unfolding b_def by (rule power_strict_increasing) simp_all
    ultimately show ?thesis unfolding b_def [symmetric] using n by (simp only:) simp
  qed
  moreover have "\<not> int n * 2 ^ 1022 < 1" if "0 < n"
  proof -
    have "(1::int) \<le> 2 ^ 1022" by (rule one_le_power) simp
    then have "1 * 1 \<le> int n * 2 ^ 1022" using that by (intro mult_mono) simp_all
    then show ?thesis by simp
  qed
  moreover have "rnd64 (of_nat n) = of_nat n" using rnd64_of_int [of "int n"] n by simp
  ultimately show ?thesis by (auto simp: nearest_double_def q)
qed

lemma price_of_digits:
  assumes "decimal ds" "ends_number s" "digits_val 10 ds \<le> 2 ^ 53"
  shows "price_of (ds @ s) = Some (Fin (of_nat (digits_val 10 ds)))"
proof -
  obtain c ds' where ds: "ds = c # ds'" and c: "digit_val c < 10"
    using assms(1) by (cases ds) (auto simp: decimal_def)
  have cs: "c_str (ds @ s) = ds @ c_str s" using assms(1) by (intro c_str_digits) (simp add: decimal_def)
  have sp: "dropWhile is_space (ds @ c_str s) = ds @ c_str s" using digit_not_space [OF c] by (simp add: ds)
  have sign: "c \<noteq> CHR ''-''" "c \<noteq> CHR ''+''" by (rule digit_not(2) [OF c]; simp)+
  have no: "\<not> starts ''infinity'' (ds @ c_str s)" "\<not> starts ''inf'' (ds @ c_str s)" "\<not> starts ''nan'' (ds @ c_str s)"
    unfolding ds append_Cons by (rule starts_digits [OF c]; simp)+
  have e: "ends_number (c_str s)" by (rule ends_number_c_str [OF assms(2)])
  have "hd (ds @ c_str s) \<noteq> CHR ''-''" "hd (ds @ c_str s) \<noteq> CHR ''+''" using sign by (simp_all add: ds)
  then have "strtod (ds @ s) = Some (Fin (of_nat (digits_val 10 ds)), False, c_str s)"
    unfolding strtod_def cs sp Let_def
    by (simp add: no no_hex [OF assms(1) e] scan_digits [OF assms(1) e] nearest_double_of_nat [OF assms(3)])
  then show ?thesis by (simp add: price_of_def)
qed

lemma price_of_nan: "price_of ''nan'' = Some NaN"
  by (simp add: price_of_def strtod_def c_str_def is_space_def starts_def lower_def skip_nan_payload_def)



text \<open>The loop over a side's levels keeps exactly the readable ones, in order.\<close>

lemma parseLevels_append: "parseLevels (xs @ ys) = parseLevels xs @ parseLevels ys"
  by (simp add: parseLevels_def List.map_filter_def)

end
