(* ===== verification/Rest_Client.thy ===== *)
theory Rest_Client
  imports Json_Reader Book_Side
begin

text \<open>
  \<open>cpp/include/rest_client.hpp\<close>: one HTTPS GET, the depth snapshot request and the parsing of its answer.

  The network (Boost.Beast, TLS, the exchange) is the parameter \<open>net\<close>: for a host, a port and a target
  it gives the text of the exception that was thrown, or a response. The JSON parser is the parameter
  \<open>parse\<close>: an error text or a value. Log lines are left out.

  The theory also has the decimal conversions \<open>std::to_string\<close> and \<open>std::stoi\<close> the requests and headers
  need; reading back what was printed is \<open>stoi_to_string\<close>.
\<close>

section \<open>Decimal conversions\<close>

definition digit_char_of :: "nat \<Rightarrow> char" where
  "digit_char_of n = char_of (48 + n)"

fun nat_string :: "nat \<Rightarrow> string" where
  "nat_string n = (if n < 10 then [digit_char_of n] else nat_string (n div 10) @ [digit_char_of (n mod 10)])"

declare nat_string.simps [simp del]

definition to_string :: "int \<Rightarrow> string" where
  "to_string n = (if n < 0 then ''-'' @ nat_string (nat (- n)) else nat_string (nat n))"

text \<open>\<open>None\<close>: \<open>std::invalid_argument\<close> or \<open>std::out_of_range\<close>.\<close>

definition stoi :: "string \<Rightarrow> int option" where
  "stoi s0 =
     (let s1 = dropWhile is_space (c_str s0);
          neg = (s1 \<noteq> [] \<and> hd s1 = CHR ''-'');
          s = (if s1 \<noteq> [] \<and> (hd s1 = CHR ''-'' \<or> hd s1 = CHR ''+'') then tl s1 else s1);
          ds = takeWhile (\<lambda>c. digit_val c < 10) s;
          v = (if neg then - int (digits_val 10 ds) else int (digits_val 10 ds))
      in if ds = [] then None else if - (2 ^ 31) \<le> v \<and> v < 2 ^ 31 then Some v else None)"

section \<open>Requests\<close>

record SnapshotData =
  sd_lastUpdateId :: int
  sd_bids :: "PriceLevel list"
  sd_asks :: "PriceLevel list"
  sd_success :: bool
  sd_error :: string
  sd_httpStatus :: int
  sd_retryAfterSec :: int
  sd_usedWeight1m :: int

definition emptySnapshotData :: SnapshotData where
  "emptySnapshotData = \<lparr>sd_lastUpdateId = 0, sd_bids = [], sd_asks = [], sd_success = False, sd_error = [],
     sd_httpStatus = 0, sd_retryAfterSec = 0, sd_usedWeight1m = -1\<rparr>"

record RestClient =
  rc_host :: string
  rc_port :: string
  rc_path :: string

record HttpResult =
  hr_status :: int
  hr_body :: string
  hr_retryAfterSec :: int
  hr_usedWeight1m :: int
  hr_error :: string

definition emptyHttpResult :: HttpResult where
  "emptyHttpResult = \<lparr>hr_status = 0, hr_body = [], hr_retryAfterSec = 0, hr_usedWeight1m = -1, hr_error = []\<rparr>"

text \<open>A response of the HTTP library: status, header lookup, body.\<close>

record Response =
  rs_status :: int
  rs_find :: "string \<Rightarrow> string option"
  rs_body :: string

type_synonym net = "string \<Rightarrow> string \<Rightarrow> string \<Rightarrow> string + Response"

type_synonym json_parser = "string \<Rightarrow> string + Json"

definition headerInt :: "Response \<Rightarrow> string \<Rightarrow> int \<Rightarrow> int" where
  "headerInt res name dflt =
     (case rs_find res name of None \<Rightarrow> dflt
      | Some v \<Rightarrow> (case stoi v of None \<Rightarrow> dflt | Some n \<Rightarrow> n))"

definition get :: "net \<Rightarrow> RestClient \<Rightarrow> string \<Rightarrow> HttpResult" where
  "get net rc target =
     (if rc_host rc = [] then emptyHttpResult\<lparr>hr_error := ''REST client has no host configured''\<rparr>
      else case net (rc_host rc) (rc_port rc) target of
        Inl e \<Rightarrow> emptyHttpResult\<lparr>hr_error := e\<rparr>
      | Inr res \<Rightarrow> \<lparr>hr_status = rs_status res, hr_body = rs_body res,
          hr_retryAfterSec = headerInt res ''Retry-After'' 0,
          hr_usedWeight1m = headerInt res ''X-MBX-USED-WEIGHT-1M'' (-1), hr_error = []\<rparr>)"

text \<open>The loops over the two sides of an answer.\<close>

definition levels_of :: "Json list \<Rightarrow> PriceLevel list" where
  "levels_of xs = map (\<lambda>(p, q). \<lparr>price = p, qty = q\<rparr>) (parseLevels xs)"

definition api_error :: "(string \<times> Json) list \<Rightarrow> Json \<Rightarrow> string" where
  "api_error ms cv =
     (let code = (case cv of JInt n \<Rightarrow> if isInt cv then n else 0 | _ \<Rightarrow> 0);
          msg = (case map_of ms ''msg'' of Some (JString m) \<Rightarrow> c_str m | _ \<Rightarrow> [])
      in ''API error '' @ to_string code @ '': '' @ msg)"

definition parseSnapshotResponse :: "json_parser \<Rightarrow> string \<Rightarrow> SnapshotData \<Rightarrow> SnapshotData" where
  "parseSnapshotResponse parse body result =
     (case parse (c_str body) of
        Inl e \<Rightarrow> result\<lparr>sd_error := ''JSON parse error: '' @ e\<rparr>
      | Inr doc \<Rightarrow>
          (case doc of JObject ms \<Rightarrow>
             (case map_of ms ''code'' of
                Some cv \<Rightarrow> result\<lparr>sd_error := api_error ms cv\<rparr>
              | None \<Rightarrow>
                  (let (lastId, r1) = rd_int64 ''lastUpdateId'' (newReader doc);
                       (bidsArr, r2) = rd_array ''bids'' r1;
                       (asksArr, r3) = rd_array ''asks'' r2
                   in if hasError r3 then result\<lparr>sd_error := ''Snapshot schema error: '' @ rd_err r3\<rparr>
                      else result\<lparr>sd_lastUpdateId := the lastId,
                                  sd_bids := sd_bids result @ levels_of (the bidsArr),
                                  sd_asks := sd_asks result @ levels_of (the asksArr),
                                  sd_success := True\<rparr>))
           | _ \<Rightarrow> result\<lparr>sd_error := ''Response not a JSON object''\<rparr>))"

definition snapshot_target :: "RestClient \<Rightarrow> string \<Rightarrow> int \<Rightarrow> string" where
  "snapshot_target rc symbol limit = rc_path rc @ ''?symbol='' @ symbol @ ''&limit='' @ to_string limit"

definition fetchSnapshot :: "net \<Rightarrow> json_parser \<Rightarrow> RestClient \<Rightarrow> string \<Rightarrow> int \<Rightarrow> SnapshotData" where
  "fetchSnapshot net parse rc symbol limit =
     (let r = get net rc (snapshot_target rc symbol limit);
          result = emptySnapshotData\<lparr>sd_httpStatus := hr_status r, sd_retryAfterSec := hr_retryAfterSec r,
                     sd_usedWeight1m := hr_usedWeight1m r\<rparr>
      in if hr_error r \<noteq> [] then result\<lparr>sd_error := hr_error r\<rparr>
         else if hr_status r \<noteq> 200 then result\<lparr>sd_error := ''HTTP '' @ to_string (hr_status r)\<rparr>
         else parseSnapshotResponse parse (hr_body r) result)"

section \<open>Printing and reading integers\<close>

lemma digit_char_of_val: "n < 10 \<Longrightarrow> digit_val (digit_char_of n) = n"
  by (auto simp: digit_char_of_def digit_val_def lower_def Let_def)

lemma digits_val_snoc: "digits_val b (ds @ [c]) = digits_val b ds * b + digit_val c"
  by (simp add: digits_val_def)

lemma nat_string_decimal: "decimal (nat_string n) \<and> digits_val 10 (nat_string n) = n"
proof (induction n rule: nat_string.induct)
  case (1 n)
  show ?case
  proof (cases "n < 10")
    case True
    then show ?thesis
      by (simp add: nat_string.simps [of n] decimal_def digits_val_def digit_char_of_val)
  next
    case False
    with 1 have "decimal (nat_string (n div 10))" "digits_val 10 (nat_string (n div 10)) = n div 10" by blast+
    with False show ?thesis
      by (simp add: nat_string.simps [of n] decimal_def digits_val_snoc digit_char_of_val)
  qed
qed

lemma takeWhile_decimal: "decimal ds \<Longrightarrow> takeWhile (\<lambda>c. digit_val c < 10) ds = ds"
  by (simp add: decimal_def list_all_iff)

lemma decimal_head:
  assumes "decimal ds"
  obtains c ds' where "ds = c # ds'" "\<not> is_space c" "c \<noteq> CHR ''-''" "c \<noteq> CHR ''+''"
proof -
  obtain c ds' where ds: "ds = c # ds'" and c: "digit_val c < 10"
    using assms by (cases ds) (auto simp: decimal_def)
  have "c \<noteq> CHR ''-''" "c \<noteq> CHR ''+''" by (rule digit_not(2) [OF c]; simp)+
  with ds digit_not_space [OF c] show ?thesis by (intro that) auto
qed

lemma stoi_decimal:
  assumes "decimal ds" "digits_val 10 ds < 2 ^ 31"
  shows "stoi ds = Some (int (digits_val 10 ds))"
proof -
  obtain c ds' where h: "ds = c # ds'" "\<not> is_space c" "c \<noteq> CHR ''-''" "c \<noteq> CHR ''+''"
    by (rule decimal_head [OF assms(1)])
  have cs: "c_str ds = ds" using c_str_digits [of ds "[]"] assms(1) by (simp add: decimal_def c_str_def)
  have sp: "dropWhile is_space ds = ds" using h(1,2) by simp
  have "hd ds \<noteq> CHR ''-''" "hd ds \<noteq> CHR ''+''" "ds \<noteq> []" using h by simp_all
  moreover have "int (digits_val 10 ds) < 2 ^ 31" using assms(2) by simp
  ultimately show ?thesis
    unfolding stoi_def cs sp Let_def by (simp add: takeWhile_decimal [OF assms(1)])
qed

lemma stoi_minus_decimal:
  assumes "decimal ds" "digits_val 10 ds \<le> 2 ^ 31"
  shows "stoi (CHR ''-'' # ds) = Some (- int (digits_val 10 ds))"
proof -
  have "c_str (CHR ''-'' # ds) = CHR ''-'' # ds"
    using c_str_digits [of ds "[]"] assms(1) by (simp add: decimal_def c_str_def)
  moreover have "\<not> is_space CHR ''-''" by (simp add: is_space_def)
  moreover have "int (digits_val 10 ds) \<le> 2 ^ 31" using assms(2) by simp
  moreover have "ds \<noteq> []" using assms(1) by (simp add: decimal_def)
  ultimately show ?thesis by (simp add: stoi_def takeWhile_decimal [OF assms(1)])
qed




section \<open>What a fetch returns\<close>

text \<open>The answer a snapshot is taken from.\<close>

definition good_answer :: "json_parser \<Rightarrow> string \<Rightarrow> int \<Rightarrow> Json list \<Rightarrow> Json list \<Rightarrow> bool" where
  "good_answer parse body n bs as \<longleftrightarrow>
     (case parse (c_str body) of Inr (JObject ms) \<Rightarrow>
        map_of ms ''code'' = None \<and> map_of ms ''lastUpdateId'' = Some (JInt n) \<and> in_i64 n \<and>
        map_of ms ''bids'' = Some (JArray bs) \<and> map_of ms ''asks'' = Some (JArray as)
      | _ \<Rightarrow> False)"

lemma field_Some:
  "field kind gt bad k r = (Some x, r') \<longleftrightarrow>
     (\<exists>ms f. rd_v r = Some ms \<and> map_of ms k = Some f \<and> gt f = Some x \<and> r' = r)"
  by (auto simp: field_def split: option.splits)

lemma json_getters:
  "(case f of JInt n \<Rightarrow> if isInt64 f then Some n else None | _ \<Rightarrow> None) = Some m \<longleftrightarrow> f = JInt m \<and> in_i64 m"
  "(case f of JArray xs \<Rightarrow> Some xs | _ \<Rightarrow> None) = Some ys \<longleftrightarrow> f = JArray ys"
  "(case f of JString s \<Rightarrow> Some s | _ \<Rightarrow> None) = Some t \<longleftrightarrow> f = JString t"
  by (cases f; auto simp: isInt64_def)+

lemma rd_int64_Some:
  "rd_int64 k r = (Some n, r') \<longleftrightarrow> (\<exists>ms. rd_v r = Some ms \<and> map_of ms k = Some (JInt n) \<and> in_i64 n \<and> r' = r)"
  by (auto simp: rd_int64_def field_Some json_getters)

lemma rd_array_Some:
  "rd_array k r = (Some xs, r') \<longleftrightarrow> (\<exists>ms. rd_v r = Some ms \<and> map_of ms k = Some (JArray xs) \<and> r' = r)"
  by (auto simp: rd_array_def field_Some json_getters)

lemma rd_string_Some:
  "rd_string k r = (Some x, r') \<longleftrightarrow> (\<exists>ms. rd_v r = Some ms \<and> map_of ms k = Some (JString x) \<and> r' = r)"
  by (auto simp: rd_string_def field_Some json_getters)

text \<open>Three reads and one test: either all three fields are there, or the reader has an error.\<close>

lemma snapshot_fields:
  assumes "rd_int64 ''lastUpdateId'' r = (i, r1)" "rd_array ''bids'' r1 = (b, r2)" "rd_array ''asks'' r2 = (a, r3)"
    and "reader_ok r" "\<not> hasError r3"
  obtains n bs as where "i = Some n" "b = Some bs" "a = Some as" "r1 = r" "r2 = r" "r3 = r"
proof -
  have ok1: "reader_ok r1" by (rule js_int64.acc_reader_ok [OF assms(1,4)])
  have ok2: "reader_ok r2" by (rule js_array.acc_reader_ok [OF assms(2) ok1])
  have a: "r3 = r2 \<and> (\<exists>y. a = Some y)" by (rule js_array.acc_checked [OF assms(3) ok2 assms(5)])
  with assms(5) have "\<not> hasError r2" by simp
  then have b: "r2 = r1 \<and> (\<exists>y. b = Some y)" by (rule js_array.acc_checked [OF assms(2) ok1])
  with \<open>\<not> hasError r2\<close> have "\<not> hasError r1" by simp
  then have "r1 = r \<and> (\<exists>y. i = Some y)" by (rule js_int64.acc_checked [OF assms(1,4)])
  with a b that show ?thesis by blast
qed

lemma newReader_object: "rd_v (newReader (JObject ms)) = Some ms" "rd_err (newReader (JObject ms)) = []"
  by (simp_all add: newReader_def)

lemma parseSnapshotResponse_good:
  assumes "good_answer parse body n bs as"
  shows "parseSnapshotResponse parse body res =
           res\<lparr>sd_lastUpdateId := n, sd_bids := sd_bids res @ levels_of bs,
               sd_asks := sd_asks res @ levels_of as, sd_success := True\<rparr>"
proof -
  obtain ms where p: "parse (c_str body) = Inr (JObject ms)" and c: "map_of ms ''code'' = None"
    and f: "map_of ms ''lastUpdateId'' = Some (JInt n)" "in_i64 n"
      "map_of ms ''bids'' = Some (JArray bs)" "map_of ms ''asks'' = Some (JArray as)"
    using assms by (auto simp: good_answer_def split: sum.splits Json.splits)
  define r where "r = newReader (JObject ms)"
  have v: "rd_v r = Some ms" "\<not> hasError r" by (simp_all add: r_def newReader_object hasError_def)
  have "rd_int64 ''lastUpdateId'' r = (Some n, r)" "rd_array ''bids'' r = (Some bs, r)" "rd_array ''asks'' r = (Some as, r)"
    using f v by (simp_all add: rd_int64_Some rd_array_Some)
  then show ?thesis using p c v(2) by (simp add: parseSnapshotResponse_def r_def)
qed

lemma parseSnapshotResponse_bad:
  assumes "\<nexists>n bs as. good_answer parse body n bs as"
  shows "\<exists>e. e \<noteq> [] \<and> parseSnapshotResponse parse body res = res\<lparr>sd_error := e\<rparr>"
proof (cases "\<exists>ms. parse (c_str body) = Inr (JObject ms) \<and> map_of ms ''code'' = None")
  case False
  then show ?thesis
    by (auto simp: parseSnapshotResponse_def api_error_def Let_def split: sum.splits Json.splits option.splits)
next
  case True
  then obtain ms where p: "parse (c_str body) = Inr (JObject ms)" and c: "map_of ms ''code'' = None" by blast
  define r where "r = newReader (JObject ms)"
  obtain i r1 where 1: "rd_int64 ''lastUpdateId'' r = (i, r1)" by (cases "rd_int64 ''lastUpdateId'' r")
  obtain b r2 where 2: "rd_array ''bids'' r1 = (b, r2)" by (cases "rd_array ''bids'' r1")
  obtain a r3 where 3: "rd_array ''asks'' r2 = (a, r3)" by (cases "rd_array ''asks'' r2")
  have err: "hasError r3"
  proof (rule ccontr)
    assume no: "\<not> hasError r3"
    obtain n bs as where "i = Some n" "b = Some bs" "a = Some as" "r1 = r" "r2 = r" "r3 = r"
      by (rule snapshot_fields [OF 1 2 3 _ no]) (simp add: r_def newReader_ok)
    with 1 2 3 have "good_answer parse body n bs as"
      using p c by (auto simp: good_answer_def rd_int64_Some rd_array_Some r_def newReader_object)
    with assms show False by blast
  qed
  have "parseSnapshotResponse parse body res = res\<lparr>sd_error := ''Snapshot schema error: '' @ rd_err r3\<rparr>"
    using p c 1 2 3 err by (simp add: parseSnapshotResponse_def r_def)
  then show ?thesis by auto
qed


lemma get_cases:
  obtains (failed) "hr_status (get net rc t) = 0" "\<nexists>res. rc_host rc \<noteq> [] \<and> net (rc_host rc) (rc_port rc) t = Inr res"
  | (answered) res where "rc_host rc \<noteq> []" "net (rc_host rc) (rc_port rc) t = Inr res"
      "hr_status (get net rc t) = rs_status res" "hr_body (get net rc t) = rs_body res" "hr_error (get net rc t) = []"
proof (cases "rc_host rc = []")
  case True
  then show ?thesis by (intro failed) (simp_all add: get_def emptyHttpResult_def)
next
  case False
  show ?thesis
  proof (cases "net (rc_host rc) (rc_port rc) t")
    case (Inl e)
    with False show ?thesis by (intro failed) (simp_all add: get_def emptyHttpResult_def)
  next
    case (Inr res)
    with False show ?thesis by (intro answered [of res]) (simp_all add: get_def)
  qed
qed

definition good_reply :: "net \<Rightarrow> json_parser \<Rightarrow> RestClient \<Rightarrow> string \<Rightarrow> int \<Rightarrow> Json list \<Rightarrow> Json list \<Rightarrow> bool" where
  "good_reply net parse rc target n bs as \<longleftrightarrow> rc_host rc \<noteq> [] \<and>
     (case net (rc_host rc) (rc_port rc) target of
        Inr res \<Rightarrow> rs_status res = 200 \<and> good_answer parse (rs_body res) n bs as | Inl e \<Rightarrow> False)"

text \<open>C30: A snapshot fetch succeeds exactly when the exchange answered 200 with an object that has no \<open>code\<close> member,
  an \<open>int64\<close> \<open>lastUpdateId\<close> and the arrays \<open>bids\<close> and \<open>asks\<close>; it then returns that id and the readable levels of each
  side in their order. On every other path (no host, a transport error, another status, a body that is not
  the expected object) it returns no levels, update id 0 and a reason.\<close>

theorem fetchSnapshot_result:
  "if \<exists>n bs as. good_reply net parse rc (snapshot_target rc sy depth) n bs as
   then \<exists>n bs as. good_reply net parse rc (snapshot_target rc sy depth) n bs as \<and>
      sd_success (fetchSnapshot net parse rc sy depth) \<and> sd_error (fetchSnapshot net parse rc sy depth) = [] \<and>
      sd_lastUpdateId (fetchSnapshot net parse rc sy depth) = n \<and>
      sd_bids (fetchSnapshot net parse rc sy depth) = levels_of bs \<and>
      sd_asks (fetchSnapshot net parse rc sy depth) = levels_of as
   else \<not> sd_success (fetchSnapshot net parse rc sy depth) \<and> sd_error (fetchSnapshot net parse rc sy depth) \<noteq> [] \<and>
      sd_lastUpdateId (fetchSnapshot net parse rc sy depth) = 0 \<and>
      sd_bids (fetchSnapshot net parse rc sy depth) = [] \<and> sd_asks (fetchSnapshot net parse rc sy depth) = []"
proof -
  define r where "r = get net rc (snapshot_target rc sy depth)"
  define e0 where "e0 = emptySnapshotData\<lparr>sd_httpStatus := hr_status r,
    sd_retryAfterSec := hr_retryAfterSec r, sd_usedWeight1m := hr_usedWeight1m r\<rparr>"
  have E: "sd_lastUpdateId e0 = 0" "sd_bids e0 = []" "sd_asks e0 = []" "\<not> sd_success e0" "sd_error e0 = []"
    by (simp_all add: e0_def emptySnapshotData_def)
  note F = fetchSnapshot_def [of net parse rc sy depth, folded r_def, unfolded Let_def, folded e0_def]
  show ?thesis
  proof (cases rule: get_cases [of net rc "snapshot_target rc sy depth"])
    case f: failed
    note failed = f [folded r_def]
    from f(2) have "\<nexists>n bs as. good_reply net parse rc (snapshot_target rc sy depth) n bs as"
      by (auto simp: good_reply_def split: sum.splits)
    with failed(1) E show ?thesis by (simp add: F)
  next
    case a: (answered res)
    note answered = a [folded r_def]
    then have g: "good_reply net parse rc (snapshot_target rc sy depth) n bs as \<longleftrightarrow>
        hr_status r = 200 \<and> good_answer parse (hr_body r) n bs as" for n bs as
      by (simp add: good_reply_def)
    show ?thesis
    proof (cases "hr_status r = 200")
      case False
      with answered E show ?thesis by (simp add: F g)
    next
      case True
      show ?thesis
      proof (cases "\<exists>n bs as. good_answer parse (hr_body r) n bs as")
        case yes: True
        then obtain n bs as where "good_answer parse (hr_body r) n bs as" by blast
        with True answered(5) E yes show ?thesis
          by (simp add: F g) (intro exI [of _ n] exI [of _ bs] exI [of _ as], simp add: parseSnapshotResponse_good)
      next
        case no: False
        from parseSnapshotResponse_bad [OF no, of e0] obtain e
          where "e \<noteq> []" "parseSnapshotResponse parse (hr_body r) e0 = e0\<lparr>sd_error := e\<rparr>" by blast
        with True answered(5) E no show ?thesis by (simp add: F g)
      qed
    qed
  qed
qed

end
