(* ===== verification/Snapshot_Worker.thy ===== *)
theory Snapshot_Worker
  imports Rest_Client "HOL-Library.Sublist"
begin

text \<open>
  \<open>cpp/include/snapshot_worker.hpp\<close>: the bounded queues between the WebSocket thread and the thread that
  fetches snapshots, and that thread's loop.

  Every queue operation holds the queue's mutex, so it is one step. The thread is a program counter in
  the state and \<open>worker_step\<close> its next action: \<open>None\<close> when it waits in \<open>pop_blocking\<close> or has ended. The data
  a fetch returns is an argument of the step. \<open>worker_run\<close> interleaves the two threads.
  Request ids are \<open>nat\<close>: a 64-bit counter does not wrap in the lifetime of a process.

  The locale \<open>request_service\<close> is what the quote handler relies on: fresh ids, and results that answer
  outstanding requests once.
\<close>

section \<open>Bounded queues\<close>

record SnapshotRequest =
  rq_symIdx :: nat
  rq_sym :: string
  rq_requestId :: nat

record SnapshotResult =
  sr_symIdx :: nat
  sr_sym :: string
  sr_requestId :: nat
  sr_data :: SnapshotData

record 'a BoundedQueue =
  bq_q :: "'a list"
  bq_capacity :: nat
  bq_shutdown :: bool

definition newQueue :: "nat \<Rightarrow> 'a BoundedQueue" where
  "newQueue capacity = \<lparr>bq_q = [], bq_capacity = capacity, bq_shutdown = False\<rparr>"

definition bq_push :: "'a \<Rightarrow> 'a BoundedQueue \<Rightarrow> bool \<times> 'a BoundedQueue" where
  "bq_push item b =
     (if bq_shutdown b then (False, b)
      else let dropped = (bq_capacity b \<le> length (bq_q b));
               q = (if dropped then tl (bq_q b) else bq_q b)
           in (\<not> dropped, b\<lparr>bq_q := q @ [item]\<rparr>))"

text \<open>\<open>None\<close>: the caller waits. \<open>Some (None, _)\<close>: shut down and empty.\<close>

definition bq_pop_blocking :: "'a BoundedQueue \<Rightarrow> ('a option \<times> 'a BoundedQueue) option" where
  "bq_pop_blocking b =
     (case bq_q b of [] \<Rightarrow> if bq_shutdown b then Some (None, b) else None
      | x # xs \<Rightarrow> Some (Some x, b\<lparr>bq_q := xs\<rparr>))"

definition bq_try_pop :: "'a BoundedQueue \<Rightarrow> 'a option \<times> 'a BoundedQueue" where
  "bq_try_pop b = (case bq_q b of [] \<Rightarrow> (None, b) | x # xs \<Rightarrow> (Some x, b\<lparr>bq_q := xs\<rparr>))"

definition bq_drain :: "'a BoundedQueue \<Rightarrow> 'a list \<times> 'a BoundedQueue" where
  "bq_drain b = (bq_q b, b\<lparr>bq_q := []\<rparr>)"

definition bq_shut :: "'a BoundedQueue \<Rightarrow> 'a BoundedQueue" where
  "bq_shut b = b\<lparr>bq_shutdown := True\<rparr>"

interpretation worker_queue: bounded_fifo
    "\<lambda>b. \<not> bq_shutdown b \<and> bq_capacity b = Suc n \<and> length (bq_q b) \<le> Suc n" bq_q
    "\<lambda>x b. snd (bq_push x b)" "Suc n" for n
  by unfold_locales (auto simp: bq_push_def Let_def last_n_push)

section \<open>The worker\<close>

definition QUEUE_CAPACITY :: nat where
  "QUEUE_CAPACITY = 10"

text \<open>Where the worker thread is: not started, at the loop test, in \<open>pop_blocking\<close>, in a fetch, ended.\<close>

datatype worker_pc = NotStarted | AtTest | AtPop | Fetching SnapshotRequest | Ended

record SnapshotWorker =
  sw_requests :: "SnapshotRequest BoundedQueue"
  sw_results :: "SnapshotResult BoundedQueue"
  sw_running :: bool
  sw_nextRequestId :: nat
  sw_pc :: worker_pc

definition newWorker :: SnapshotWorker where
  "newWorker = \<lparr>sw_requests = newQueue QUEUE_CAPACITY, sw_results = newQueue QUEUE_CAPACITY,
     sw_running = False, sw_nextRequestId = 0, sw_pc = NotStarted\<rparr>"

definition sw_start :: "SnapshotWorker \<Rightarrow> SnapshotWorker" where
  "sw_start w = (if sw_running w then w else w\<lparr>sw_running := True, sw_pc := AtTest\<rparr>)"

text \<open>\<open>stop\<close> up to the join; the join waits until the thread has ended.\<close>

definition sw_stop :: "SnapshotWorker \<Rightarrow> SnapshotWorker" where
  "sw_stop w =
     (if \<not> sw_running w then w
      else w\<lparr>sw_running := False, sw_requests := bq_shut (sw_requests w), sw_results := bq_shut (sw_results w)\<rparr>)"

definition enqueueRequest :: "nat \<Rightarrow> string \<Rightarrow> SnapshotWorker \<Rightarrow> nat \<times> SnapshotWorker" where
  "enqueueRequest symIdx sy w =
     (let rid = Suc (sw_nextRequestId w);
          (accepted, q) = bq_push \<lparr>rq_symIdx = symIdx, rq_sym = sy, rq_requestId = rid\<rparr> (sw_requests w)
      in (rid, w\<lparr>sw_nextRequestId := rid, sw_requests := q\<rparr>))"

definition drainResults :: "SnapshotWorker \<Rightarrow> SnapshotResult list \<times> SnapshotWorker" where
  "drainResults w = (case bq_drain (sw_results w) of (rs, q) \<Rightarrow> (rs, w\<lparr>sw_results := q\<rparr>))"

text \<open>One action of \<open>runLoop\<close>; \<open>fetched\<close> is what the fetcher returns for the request, if this action is a fetch.\<close>

definition worker_step :: "(SnapshotRequest \<Rightarrow> SnapshotData) \<Rightarrow> SnapshotWorker \<Rightarrow> SnapshotWorker option" where
  "worker_step fetched w =
     (case sw_pc w of
        NotStarted \<Rightarrow> None
      | AtTest \<Rightarrow> Some (w\<lparr>sw_pc := (if sw_running w then AtPop else Ended)\<rparr>)
      | AtPop \<Rightarrow>
          (case bq_pop_blocking (sw_requests w) of
             None \<Rightarrow> None
           | Some (None, q) \<Rightarrow> Some (w\<lparr>sw_requests := q, sw_pc := Ended\<rparr>)
           | Some (Some req, q) \<Rightarrow> Some (w\<lparr>sw_requests := q, sw_pc := Fetching req\<rparr>))
      | Fetching req \<Rightarrow>
          Some (w\<lparr>sw_results := snd (bq_push \<lparr>sr_symIdx = rq_symIdx req, sr_sym = rq_sym req,
                     sr_requestId = rq_requestId req, sr_data = fetched req\<rparr> (sw_results w)),
                  sw_pc := AtTest\<rparr>)
      | Ended \<Rightarrow> None)"

section \<open>What is outstanding\<close>

text \<open>The requests the worker still owes an answer or a drop, oldest first, as symbol, name and id.\<close>

definition res_key :: "SnapshotResult \<Rightarrow> nat \<times> string \<times> nat" where
  "res_key r = (sr_symIdx r, sr_sym r, sr_requestId r)"

definition req_key :: "SnapshotRequest \<Rightarrow> nat \<times> string \<times> nat" where
  "req_key r = (rq_symIdx r, rq_sym r, rq_requestId r)"

definition in_flight :: "SnapshotWorker \<Rightarrow> (nat \<times> string \<times> nat) list" where
  "in_flight w = map res_key (bq_q (sw_results w)) @
     (case sw_pc w of Fetching r \<Rightarrow> [req_key r] | _ \<Rightarrow> []) @ map req_key (bq_q (sw_requests w))"

definition key_id :: "nat \<times> string \<times> nat \<Rightarrow> nat" where
  "key_id k = snd (snd k)"

definition worker_ok :: "SnapshotWorker \<Rightarrow> bool" where
  "worker_ok w \<longleftrightarrow>
     sorted_wrt (<) (map key_id (in_flight w)) \<and> (\<forall>k \<in> set (in_flight w). key_id k \<le> sw_nextRequestId w) \<and>
     length (bq_q (sw_requests w)) \<le> QUEUE_CAPACITY \<and> length (bq_q (sw_results w)) \<le> QUEUE_CAPACITY \<and>
     bq_capacity (sw_requests w) = QUEUE_CAPACITY \<and> bq_capacity (sw_results w) = QUEUE_CAPACITY"

lemma worker_ok_new: "worker_ok newWorker"
  by (simp add: worker_ok_def newWorker_def newQueue_def in_flight_def)

text \<open>A push appends, or drops the head and appends, or does nothing.\<close>

lemma bq_push_cases:
  assumes "bq_push x b = (a, b')"
  obtains (shut) "bq_shutdown b" "b' = b"
  | (kept) "length (bq_q b) < bq_capacity b" "b' = b\<lparr>bq_q := bq_q b @ [x]\<rparr>"
  | (dropped) "bq_capacity b \<le> length (bq_q b)" "b' = b\<lparr>bq_q := tl (bq_q b) @ [x]\<rparr>"
proof (cases "bq_shutdown b")
  case True
  then have "b' = b" using assms by (simp add: bq_push_def)
  with True show ?thesis by (rule shut)
next
  case False
  then have b': "b' = b\<lparr>bq_q := (if bq_capacity b \<le> length (bq_q b) then tl (bq_q b) else bq_q b) @ [x]\<rparr>"
    using assms unfolding bq_push_def Let_def by simp
  show ?thesis
  proof (cases "bq_capacity b \<le> length (bq_q b)")
    case True
    with b' show ?thesis by (intro dropped) simp_all
  next
    case False
    with b' show ?thesis by (intro kept) simp_all
  qed
qed

lemma bq_push_len:
  assumes "bq_push x b = (a, b')" "length (bq_q b) \<le> bq_capacity b" "0 < bq_capacity b"
  shows "length (bq_q b') \<le> bq_capacity b \<and> bq_capacity b' = bq_capacity b"
  using assms(1) by (cases rule: bq_push_cases) (use assms in auto)


lemma subseq_set: "subseq xs ys \<Longrightarrow> x \<in> set xs \<Longrightarrow> x \<in> set ys"
  by (induction rule: list_emb.induct) auto

lemma sorted_wrt_subseq: "subseq xs ys \<Longrightarrow> sorted_wrt P ys \<Longrightarrow> sorted_wrt P xs"
  by (induction rule: list_emb.induct) (auto dest: subseq_set)

lemma in_flight_enqueue:
  assumes "enqueueRequest i sy w = (rid, w')"
  shows "subseq (in_flight w') (in_flight w @ [(i, sy, rid)]) \<and> rid = Suc (sw_nextRequestId w) \<and>
    sw_nextRequestId w' = rid"
proof -
  define rq where "rq = \<lparr>rq_symIdx = i, rq_sym = sy, rq_requestId = Suc (sw_nextRequestId w)\<rparr>"
  obtain a q where p: "bq_push rq (sw_requests w) = (a, q)" by (cases "bq_push rq (sw_requests w)")
  have w': "rid = Suc (sw_nextRequestId w)" "w' = w\<lparr>sw_nextRequestId := rid, sw_requests := q\<rparr>"
    using assms p unfolding enqueueRequest_def Let_def rq_def by auto
  have k: "req_key rq = (i, sy, rid)" by (simp add: rq_def req_key_def w'(1))
  from p have "subseq (map req_key (bq_q q)) (map req_key (bq_q (sw_requests w)) @ [req_key rq])"
  proof (cases rule: bq_push_cases)
    case dropped
    then show ?thesis by (cases "bq_q (sw_requests w)") auto
  qed auto
  then show ?thesis by (auto simp: in_flight_def w' k intro: list_emb_append_mono)
qed

lemma in_flight_drain:
  assumes "drainResults w = (rs, w')"
  shows "in_flight w = map res_key rs @ in_flight w' \<and> sw_nextRequestId w' = sw_nextRequestId w"
  using assms by (auto simp: drainResults_def bq_drain_def in_flight_def)

lemma worker_step_cases:
  assumes "worker_step f w = Some w'"
  obtains (test) "sw_pc w = AtTest" "w' = w\<lparr>sw_pc := (if sw_running w then AtPop else Ended)\<rparr>"
  | (ended) "sw_pc w = AtPop" "bq_q (sw_requests w) = []" "bq_shutdown (sw_requests w)" "w' = w\<lparr>sw_pc := Ended\<rparr>"
  | (popped) req rest where "sw_pc w = AtPop" "bq_q (sw_requests w) = req # rest"
      "w' = w\<lparr>sw_requests := (sw_requests w)\<lparr>bq_q := rest\<rparr>, sw_pc := Fetching req\<rparr>"
  | (fetch) req q a where "sw_pc w = Fetching req"
      "bq_push \<lparr>sr_symIdx = rq_symIdx req, sr_sym = rq_sym req, sr_requestId = rq_requestId req, sr_data = f req\<rparr>
         (sw_results w) = (a, q)"
      "w' = w\<lparr>sw_results := q, sw_pc := AtTest\<rparr>"
proof (cases "sw_pc w")
  case AtPop
  show ?thesis
  proof (cases "bq_q (sw_requests w)")
    case Nil
    then have "bq_shutdown (sw_requests w)" "w' = w\<lparr>sw_pc := Ended\<rparr>"
      using assms AtPop by (auto simp: worker_step_def bq_pop_blocking_def split: if_splits)
    with AtPop Nil show ?thesis by (intro ended)
  next
    case (Cons req rest)
    with assms AtPop show ?thesis by (intro popped) (auto simp: worker_step_def bq_pop_blocking_def)
  qed
next
  case (Fetching req)
  obtain a q where "bq_push \<lparr>sr_symIdx = rq_symIdx req, sr_sym = rq_sym req, sr_requestId = rq_requestId req,
      sr_data = f req\<rparr> (sw_results w) = (a, q)" by (metis surj_pair)
  with assms Fetching show ?thesis by (intro fetch) (auto simp: worker_step_def)
next
  case AtTest
  with assms show ?thesis by (intro test) (auto simp: worker_step_def)
qed (use assms in \<open>simp_all add: worker_step_def\<close>)

lemma in_flight_step:
  assumes "worker_step f w = Some w'"
  shows "subseq (in_flight w') (in_flight w) \<and> sw_nextRequestId w' = sw_nextRequestId w"
  using assms
proof (cases rule: worker_step_cases)
  case (fetch req q a)
  have "subseq (map res_key (bq_q q)) (map res_key (bq_q (sw_results w)) @ [req_key req])"
    using fetch(2)
  proof (cases rule: bq_push_cases)
    case dropped
    then show ?thesis by (cases "bq_q (sw_results w)") (auto simp: res_key_def req_key_def)
  qed (auto simp: res_key_def req_key_def)
  then have "subseq (map res_key (bq_q q) @ map req_key (bq_q (sw_requests w)))
      ((map res_key (bq_q (sw_results w)) @ [req_key req]) @ map req_key (bq_q (sw_requests w)))"
    by (rule list_emb_append_mono) simp
  with fetch show ?thesis by (simp add: in_flight_def)
qed (auto simp: in_flight_def)


section \<open>The two threads together\<close>

text \<open>
  The runs of a worker that fetches with one client and depth. \<open>asked\<close> is every request in the order of
  the calls (a start waits for the join of a stop before it), \<open>got\<close> every result the other thread has drained. The network may behave differently at each fetch.
\<close>

inductive worker_run ::
    "json_parser \<Rightarrow> RestClient \<Rightarrow> int \<Rightarrow> (nat \<times> string \<times> nat) list \<Rightarrow> SnapshotResult list \<Rightarrow> SnapshotWorker \<Rightarrow> bool"
  for parse rc depth where
  begin_run: "worker_run parse rc depth [] [] newWorker"
| start: "worker_run parse rc depth asked got w \<Longrightarrow> sw_running w \<or> sw_pc w = NotStarted \<or> sw_pc w = Ended \<Longrightarrow>
    worker_run parse rc depth asked got (sw_start w)"
| stop: "worker_run parse rc depth asked got w \<Longrightarrow> worker_run parse rc depth asked got (sw_stop w)"
| enqueue: "worker_run parse rc depth asked got w \<Longrightarrow> enqueueRequest i sy w = (rid, w') \<Longrightarrow>
    worker_run parse rc depth (asked @ [(i, sy, rid)]) got w'"
| drain: "worker_run parse rc depth asked got w \<Longrightarrow> drainResults w = (rs, w') \<Longrightarrow>
    worker_run parse rc depth asked (got @ rs) w'"
| work: "worker_run parse rc depth asked got w \<Longrightarrow>
    worker_step (\<lambda>req. fetchSnapshot net parse rc (rq_sym req) depth) w = Some w' \<Longrightarrow>
    worker_run parse rc depth asked got w'"

definition queues_ok :: "SnapshotWorker \<Rightarrow> bool" where
  "queues_ok w \<longleftrightarrow>
     length (bq_q (sw_requests w)) \<le> QUEUE_CAPACITY \<and> length (bq_q (sw_results w)) \<le> QUEUE_CAPACITY \<and>
     bq_capacity (sw_requests w) = QUEUE_CAPACITY \<and> bq_capacity (sw_results w) = QUEUE_CAPACITY"

definition fetched_for :: "json_parser \<Rightarrow> RestClient \<Rightarrow> int \<Rightarrow> SnapshotResult \<Rightarrow> bool" where
  "fetched_for parse rc depth r \<longleftrightarrow> (\<exists>net. sr_data r = fetchSnapshot net parse rc (sr_sym r) depth)"

lemma queue_pos: "0 < QUEUE_CAPACITY"
  by (simp add: QUEUE_CAPACITY_def)

lemma queues_ok_enqueue: "enqueueRequest i sy w = (rid, w') \<Longrightarrow> queues_ok w \<Longrightarrow> queues_ok w'"
  using bq_push_len [of "\<lparr>rq_symIdx = i, rq_sym = sy, rq_requestId = Suc (sw_nextRequestId w)\<rparr>" "sw_requests w"] queue_pos
  by (auto simp: enqueueRequest_def Let_def queues_ok_def split: prod.splits)

lemma queues_ok_step: "worker_step f w = Some w' \<Longrightarrow> queues_ok w \<Longrightarrow> queues_ok w'"
proof (erule worker_step_cases)
  fix req q a
  assume w: "queues_ok w" "sw_pc w = Fetching req" "w' = w\<lparr>sw_results := q, sw_pc := AtTest\<rparr>"
    and p: "bq_push \<lparr>sr_symIdx = rq_symIdx req, sr_sym = rq_sym req, sr_requestId = rq_requestId req, sr_data = f req\<rparr>
         (sw_results w) = (a, q)"
  from bq_push_len [OF p] w queue_pos show "queues_ok w'" by (simp add: queues_ok_def)
qed (auto simp: queues_ok_def)

lemma in_set_tlD: "x \<in> set (tl xs) \<Longrightarrow> x \<in> set xs"
  by (cases xs) simp_all

lemma results_step:
  assumes "worker_step f w = Some w'" "r \<in> set (bq_q (sw_results w'))"
  shows "r \<in> set (bq_q (sw_results w)) \<or> (\<exists>req. sr_sym r = rq_sym req \<and> sr_data r = f req)"
  using assms(1)
proof (cases rule: worker_step_cases)
  case (fetch req q a)
  from fetch(2) show ?thesis
    by (cases rule: bq_push_cases) (use assms(2) fetch(3) in \<open>auto dest: in_set_tlD\<close>)
qed (use assms(2) in auto)

lemma worker_run_inv:
  assumes "worker_run parse rc depth asked got w"
  shows "subseq (map res_key got @ in_flight w) asked \<and> map key_id asked = [1..<Suc (sw_nextRequestId w)] \<and> queues_ok w \<and>
    (\<forall>r \<in> set got \<union> set (bq_q (sw_results w)). fetched_for parse rc depth r)"
  using assms
proof induction
  case begin_run
  then show ?case by (simp add: newWorker_def newQueue_def in_flight_def queues_ok_def)
next
  case (start asked got w)
  then show ?case
    by (cases "sw_running w") (auto simp: sw_start_def in_flight_def queues_ok_def)
next
  case (stop asked got w)
  then show ?case by (simp add: sw_stop_def in_flight_def queues_ok_def bq_shut_def)
next
  case (enqueue asked got w i sy rid w')
  note e = in_flight_enqueue [OF enqueue.hyps(2)]
  have "subseq (map res_key got @ in_flight w') ((map res_key got @ in_flight w) @ [(i, sy, rid)])"
    unfolding append_assoc using e by (intro list_emb_append_mono) auto
  moreover have "subseq ((map res_key got @ in_flight w) @ [(i, sy, rid)]) (asked @ [(i, sy, rid)])"
    using enqueue.IH by (intro list_emb_append_mono) simp_all
  ultimately have "subseq (map res_key got @ in_flight w') (asked @ [(i, sy, rid)])" by (rule subseq_order.trans)
  moreover have "sw_results w' = sw_results w"
    using enqueue.hyps(2) by (auto simp: enqueueRequest_def Let_def split: prod.splits)
  ultimately show ?case using enqueue e by (simp add: key_id_def queues_ok_enqueue)
next
  case (drain asked got w rs w')
  then show ?case using in_flight_drain [OF drain.hyps(2)]
    by (auto simp: drainResults_def bq_drain_def queues_ok_def)
next
  case (work asked got w net w')
  note f = in_flight_step [OF work.hyps(2)]
  have "subseq (map res_key got @ in_flight w') (map res_key got @ in_flight w)"
    using f by (intro list_emb_append_mono) auto
  with work.IH have "subseq (map res_key got @ in_flight w') asked" by (blast intro: subseq_order.trans)
  moreover have "fetched_for parse rc depth r" if "r \<in> set (bq_q (sw_results w'))" for r
    using results_step [OF work.hyps(2) that] work.IH by (auto simp: fetched_for_def)
  ultimately show ?case using work f queues_ok_step [OF work.hyps(2)] by auto
qed


lemma sorted_ids_subseq:
  assumes "subseq ks asked" "map key_id asked = [1..<n]"
  shows "sorted_wrt (<) (map key_id ks)"
proof -
  have "subseq (map key_id ks) [1..<n]" using assms by (metis subseq_map)
  then show ?thesis by (rule sorted_wrt_subseq) simp
qed

text \<open>C28: The worker answers requests in the order they were made, each at most once, whatever the interleaving
  of the two threads and however requests and results are dropped from full queues: the drained results
  are a subsequence of the requests by symbol, name and id, their ids increase, each carries what a fetch of
  its own symbol returned, and no queue ever holds more than its capacity.\<close>

theorem worker_answers_in_order:
  assumes "worker_run parse rc depth asked got w"
  shows "subseq (map res_key got) asked \<and> sorted_wrt (<) (map sr_requestId got) \<and>
    (\<forall>r \<in> set got. fetched_for parse rc depth r) \<and>
    length (bq_q (sw_requests w)) \<le> QUEUE_CAPACITY \<and> length (bq_q (sw_results w)) \<le> QUEUE_CAPACITY"
proof -
  note i = worker_run_inv [OF assms]
  have "subseq (map res_key got @ []) (map res_key got @ in_flight w)" by (rule list_emb_append_mono) simp_all
  then have s: "subseq (map res_key got) asked" using i by (metis append_Nil2 subseq_order.trans)
  moreover from s i have "sorted_wrt (<) (map key_id (map res_key got))" by (blast intro: sorted_ids_subseq)
  then have "sorted_wrt (<) (map sr_requestId got)" by (simp add: key_id_def res_key_def comp_def)
  ultimately show ?thesis using i by (auto simp: queues_ok_def)
qed

lemma demo_worker_run:
  "\<exists>got w. worker_run (\<lambda>_. Inl []) \<lparr>rc_host = [], rc_port = [], rc_path = []\<rparr> 1000 [(0, ''B'', 1)] got w \<and> length got = 1"
proof -
  let ?run = "worker_run (\<lambda>_. Inl []) \<lparr>rc_host = [], rc_port = [], rc_path = []\<rparr> 1000"
  let ?f = "\<lambda>req. fetchSnapshot (\<lambda>_ _ _. Inl []) (\<lambda>_. Inl []) \<lparr>rc_host = [], rc_port = [], rc_path = []\<rparr> (rq_sym req) 1000"
  define rq where "rq = \<lparr>rq_symIdx = 0, rq_sym = ''B'', rq_requestId = 1\<rparr>"
  define w1 where "w1 = sw_start newWorker"
  define w2 where "w2 = w1\<lparr>sw_nextRequestId := 1, sw_requests := (sw_requests w1)\<lparr>bq_q := [rq]\<rparr>\<rparr>"
  define w3 where "w3 = w2\<lparr>sw_pc := AtPop\<rparr>"
  define w4 where "w4 = w3\<lparr>sw_requests := (sw_requests w3)\<lparr>bq_q := []\<rparr>, sw_pc := Fetching rq\<rparr>"
  define rs where "rs = \<lparr>sr_symIdx = 0, sr_sym = ''B'', sr_requestId = 1, sr_data = ?f rq\<rparr>"
  define w5 where "w5 = w4\<lparr>sw_results := (sw_results w4)\<lparr>bq_q := [rs]\<rparr>, sw_pc := AtTest\<rparr>"
  note ds = w1_def w2_def w3_def w4_def w5_def sw_start_def newWorker_def newQueue_def QUEUE_CAPACITY_def
  have "?run [] [] w1" unfolding w1_def by (intro worker_run.start worker_run.begin_run) (simp add: newWorker_def)
  moreover have "enqueueRequest 0 ''B'' w1 = (1, w2)" by (simp add: ds enqueueRequest_def bq_push_def rq_def)
  ultimately have "?run ([] @ [(0, ''B'', 1)]) [] w2" by (rule worker_run.enqueue)
  moreover have "worker_step ?f w2 = Some w3" by (simp add: ds worker_step_def)
  ultimately have "?run ([] @ [(0, ''B'', 1)]) [] w3" by (rule worker_run.work)
  moreover have "worker_step ?f w3 = Some w4" by (simp add: ds worker_step_def bq_pop_blocking_def)
  ultimately have "?run ([] @ [(0, ''B'', 1)]) [] w4" by (rule worker_run.work)
  moreover have "worker_step ?f w4 = Some w5" by (simp add: ds worker_step_def bq_push_def rs_def rq_def)
  ultimately have "?run ([] @ [(0, ''B'', 1)]) [] w5" by (rule worker_run.work)
  moreover have "drainResults w5 = ([rs], w5\<lparr>sw_results := (sw_results w5)\<lparr>bq_q := []\<rparr>\<rparr>)"
    by (simp add: drainResults_def bq_drain_def w5_def)
  ultimately have "?run ([] @ [(0, ''B'', 1)]) ([] @ [rs]) (w5\<lparr>sw_results := (sw_results w5)\<lparr>bq_q := []\<rparr>\<rparr>)"
    by (rule worker_run.drain)
  then show ?thesis by auto
qed

theorem worker_answers_in_order_witness:
  "\<exists>got w. worker_run (\<lambda>_. Inl []) \<lparr>rc_host = [], rc_port = [], rc_path = []\<rparr> 1000 [(0, ''B'', 1)] got w \<and>
     map res_key got = [(0, ''B'', 1)]"
proof -
  obtain got w where r: "worker_run (\<lambda>_. Inl []) \<lparr>rc_host = [], rc_port = [], rc_path = []\<rparr> 1000 [(0, ''B'', 1)] got w"
    and l: "length got = 1" using demo_worker_run by blast
  have "subseq (map res_key got) [(0, ''B'', 1)]" using worker_answers_in_order [OF r] by blast
  moreover obtain g where "got = [g]" using l by (cases got) auto
  ultimately have "map res_key got = [(0, ''B'', 1)]" by (simp split: if_splits)
  with r show ?thesis by (intro exI conjI)
qed

text \<open>A run of the thread alone: \<open>Some\<close> when it ends within the given actions.\<close>

fun until_ended :: "(SnapshotRequest \<Rightarrow> SnapshotData) list \<Rightarrow> SnapshotWorker \<Rightarrow> SnapshotWorker option" where
  "until_ended fs w =
     (if sw_pc w = Ended then Some w
      else case fs of [] \<Rightarrow> None
        | f # fs' \<Rightarrow> (case worker_step f w of None \<Rightarrow> None | Some w' \<Rightarrow> until_ended fs' w'))"

declare until_ended.simps [simp del]

text \<open>C29: \<open>stop\<close> returns: after it, a started worker thread ends within three actions wherever it was, never
  waiting on the queue, at most one more request is fetched, and no result is queued any more. So the join
  always finishes when the fetch in progress does.\<close>

theorem stop_joins:
  assumes "sw_running w" "sw_pc w \<noteq> NotStarted"
  shows "\<exists>w'. until_ended [f1, f2, f3] (sw_stop w) = Some w' \<and>
    bq_q (sw_results w') = bq_q (sw_results w) \<and>
    length (bq_q (sw_requests w)) \<le> length (bq_q (sw_requests w')) + 1"
proof -
  show ?thesis
    using assms
    by (cases "sw_pc w"; cases "bq_q (sw_requests w)")
      (simp_all add: until_ended.simps worker_step_def sw_stop_def bq_shut_def bq_pop_blocking_def bq_push_def)
qed


theorem stop_joins_witness:
  "\<exists>w'. until_ended [\<lambda>_. emptySnapshotData, \<lambda>_. emptySnapshotData, \<lambda>_. emptySnapshotData] (sw_stop (sw_start newWorker)) = Some w' \<and>
     bq_q (sw_results w') = []"
proof -
  have "sw_running (sw_start newWorker)" "sw_pc (sw_start newWorker) \<noteq> NotStarted"
    "bq_q (sw_results (sw_start newWorker)) = []"
    by (simp_all add: sw_start_def newWorker_def newQueue_def)
  then show ?thesis
    using stop_joins [of "sw_start newWorker" "\<lambda>_. emptySnapshotData" "\<lambda>_. emptySnapshotData" "\<lambda>_. emptySnapshotData"] by auto
qed

section \<open>The service the quote handler uses\<close>

text \<open>The pairs of symbol and id a worker may still answer.\<close>

definition owed :: "SnapshotWorker \<Rightarrow> (nat \<times> nat) set" where
  "owed w = (\<lambda>k. (fst k, key_id k)) ` set (in_flight w)"

definition answer_key :: "SnapshotResult \<Rightarrow> nat \<times> nat" where
  "answer_key r = (sr_symIdx r, sr_requestId r)"

definition ids_ok :: "SnapshotWorker \<Rightarrow> bool" where
  "ids_ok w \<longleftrightarrow> sorted_wrt (<) (map key_id (in_flight w)) \<and> (\<forall>k \<in> set (in_flight w). key_id k \<le> sw_nextRequestId w)"

text \<open>
  The handler's table: for each symbol the id of its latest request (or one more, once it has given the
  request up) and when it was made, 0 if nothing is awaited. \<open>table_ok\<close>: a result that will be accepted
  is awaited, and there is at most one per symbol.
\<close>

definition table_ok :: "(nat \<times> nat) set \<Rightarrow> nat list \<Rightarrow> int list \<Rightarrow> bool" where
  "table_ok out latest requestedAt \<longleftrightarrow> length latest = length requestedAt \<and>
     (\<forall>(i, rid) \<in> out. i < length latest \<and> (latest ! i \<le> rid \<longrightarrow> rid = latest ! i \<and> requestedAt ! i \<noteq> 0))"

lemma table_ok_mono: "table_ok out lat since \<Longrightarrow> out' \<subseteq> out \<Longrightarrow> table_ok out' lat since"
  unfolding table_ok_def by blast

lemma table_okD:
  assumes "table_ok out lat since" "(i, rid) \<in> out"
  shows "i < length lat" "lat ! i \<le> rid \<Longrightarrow> rid = lat ! i \<and> since ! i \<noteq> 0"
  using assms by (auto simp: table_ok_def)

text \<open>Giving a request up (a timeout, a reconnect) makes its result stale.\<close>

lemma table_give_up:
  assumes "table_ok out lat since" "i < length lat"
  shows "table_ok out (lat[i := Suc (lat ! i)]) (since[i := 0])"
  unfolding table_ok_def
proof (intro conjI ballI)
  show "length (lat[i := Suc (lat ! i)]) = length (since[i := 0])" using assms by (simp add: table_ok_def)
  fix k assume "k \<in> out"
  moreover obtain j rid where k: "k = (j, rid)" by (cases k)
  ultimately have m: "(j, rid) \<in> out" by simp
  from table_okD [OF assms(1) m] show "case k of (i', rid) \<Rightarrow> i' < length (lat[i := Suc (lat ! i)]) \<and>
      ((lat[i := Suc (lat ! i)]) ! i' \<le> rid \<longrightarrow> rid = (lat[i := Suc (lat ! i)]) ! i' \<and> since[i := 0] ! i' \<noteq> 0)"
    by (cases "i = j") (auto simp: k)
qed

text \<open>Accepting a result settles its symbol: nothing else that is outstanding will be accepted for it.\<close>

lemma table_answer:
  assumes "table_ok (insert (i, rid) out) lat since" "lat ! i \<le> rid" "rid \<notin> snd ` out"
  shows "table_ok out lat (since[i := 0])"
  unfolding table_ok_def
proof (intro conjI ballI)
  show "length lat = length (since[i := 0])" using assms(1) by (simp add: table_ok_def)
  have r: "rid = lat ! i" using table_okD(2) [OF assms(1) _ assms(2)] by simp
  fix k assume "k \<in> out"
  moreover obtain j rid' where k: "k = (j, rid')" by (cases k)
  ultimately have m: "(j, rid') \<in> insert (i, rid) out" "(j, rid') \<in> out" by simp_all
  then have "rid' \<noteq> rid" using assms(3) by force
  with table_okD [OF assms(1) m(1)] r show "case k of (i', rid) \<Rightarrow> i' < length lat \<and>
      (lat ! i' \<le> rid \<longrightarrow> rid = lat ! i' \<and> since[i := 0] ! i' \<noteq> 0)"
    by (cases "i = j") (auto simp: k)
qed

locale request_service =
  fixes enq :: "nat \<Rightarrow> string \<Rightarrow> 's \<Rightarrow> nat \<times> 's" and drn :: "'s \<Rightarrow> 'r list \<times> 's" and wrk :: "'s \<Rightarrow> 's \<Rightarrow> bool"
    and out :: "'s \<Rightarrow> (nat \<times> nat) set" and issued :: "'s \<Rightarrow> nat" and key :: "'r \<Rightarrow> nat \<times> nat" and sane :: "'s \<Rightarrow> bool"
  assumes enq_law: "sane s \<Longrightarrow> enq i sy s = (rid, s') \<Longrightarrow>
      sane s' \<and> rid = Suc (issued s) \<and> issued s' = rid \<and> out s' \<subseteq> insert (i, rid) (out s)"
    and drn_law: "sane s \<Longrightarrow> drn s = (rs, s') \<Longrightarrow>
      sane s' \<and> issued s' = issued s \<and> key ` set rs \<union> out s' \<subseteq> out s \<and>
      snd ` key ` set rs \<inter> snd ` out s' = {} \<and> distinct (map (snd \<circ> key) rs)"
    and wrk_law: "sane s \<Longrightarrow> wrk s s' \<Longrightarrow> sane s' \<and> issued s' = issued s \<and> out s' \<subseteq> out s"
    and out_issued: "sane s \<Longrightarrow> (i, rid) \<in> out s \<Longrightarrow> rid \<le> issued s"
begin

lemma table_work: "sane s \<Longrightarrow> wrk s s' \<Longrightarrow> table_ok (out s) lat since \<Longrightarrow> table_ok (out s') lat since"
  using wrk_law [of s s'] by (auto intro: table_ok_mono)

text \<open>A request makes every earlier request of its symbol stale.\<close>

lemma table_request:
  assumes "sane s" "enq i sy s = (rid, s')" "table_ok (out s) lat since" "i < length lat" "now \<noteq> 0"
  shows "table_ok (out s') (lat[i := rid]) (since[i := now])"
  unfolding table_ok_def
proof (intro conjI ballI)
  note e = enq_law [OF assms(1,2)]
  have len: "length since = length lat" using assms(3) by (simp add: table_ok_def)
  then show "length (lat[i := rid]) = length (since[i := now])" by simp
  fix k assume "k \<in> out s'"
  moreover obtain j r where k: "k = (j, r)" by (cases k)
  ultimately consider "j = i" "r = rid" | "(j, r) \<in> out s" using e by blast
  then show "case k of (i', r) \<Rightarrow> i' < length (lat[i := rid]) \<and>
      (lat[i := rid] ! i' \<le> r \<longrightarrow> r = lat[i := rid] ! i' \<and> since[i := now] ! i' \<noteq> 0)"
  proof cases
    case 1
    then show ?thesis using assms(4,5) len by (simp add: k)
  next
    case 2
    then show ?thesis
      using table_okD [OF assms(3) 2] out_issued [OF assms(1) 2] e by (cases "i = j") (auto simp: k)
  qed
qed

text \<open>What is outstanding before the results of a drain are looked at, one by one.\<close>

lemma table_drain:
  assumes "sane s" "drn s = (rs, s')" "table_ok (out s) lat since"
  shows "table_ok (key ` set rs \<union> out s') lat since"
  using drn_law [OF assms(1,2)] assms(3) by (auto intro: table_ok_mono)

end

lemma ids_ok_subseq:
  assumes "ids_ok w" "subseq (in_flight w') (in_flight w)" "sw_nextRequestId w' = sw_nextRequestId w"
  shows "ids_ok w' \<and> owed w' \<subseteq> owed w"
proof -
  have "sorted_wrt (<) (map key_id (in_flight w'))"
    using assms(1) by (intro sorted_wrt_subseq [OF subseq_map [OF assms(2)]]) (simp add: ids_ok_def)
  with assms show ?thesis by (auto simp: ids_ok_def owed_def dest: subseq_set)
qed

interpretation snapshot_service: request_service enqueueRequest drainResults
    "\<lambda>w w'. \<exists>f. worker_step f w = Some w'" owed sw_nextRequestId answer_key ids_ok
proof
  fix w w' i sy rid
  assume ok: "ids_ok w" and e: "enqueueRequest i sy w = (rid, w')"
  note f = in_flight_enqueue [OF e]
  have "sorted_wrt (<) (map key_id (in_flight w @ [(i, sy, rid)]))"
    using ok f by (auto simp: ids_ok_def sorted_wrt_append key_id_def)
  then have "sorted_wrt (<) (map key_id (in_flight w'))"
    using sorted_wrt_subseq [OF subseq_map] f by blast
  moreover have "k \<in> set (in_flight w) \<or> k = (i, sy, rid)" if "k \<in> set (in_flight w')" for k
    using f that by (auto dest: subseq_set)
  ultimately show "ids_ok w' \<and> rid = Suc (sw_nextRequestId w) \<and> sw_nextRequestId w' = rid \<and>
      owed w' \<subseteq> insert (i, rid) (owed w)"
    using f ok by (force simp: ids_ok_def owed_def key_id_def)
next
  fix w w' and rs :: "SnapshotResult list"
  assume ok: "ids_ok w" and d: "drainResults w = (rs, w')"
  note f = in_flight_drain [OF d]
  have k: "map key_id (map res_key rs) = map (snd \<circ> answer_key) rs"
    by (simp add: key_id_def res_key_def answer_key_def comp_def)
  have so: "sorted_wrt (<) (map (snd \<circ> answer_key) rs @ map key_id (in_flight w'))"
    unfolding k [symmetric] using ok f by (simp add: ids_ok_def)
  have ow: "owed w = answer_key ` set rs \<union> owed w'"
    using f by (simp add: owed_def image_Un image_image) (simp add: res_key_def key_id_def answer_key_def)
  have sn: "snd ` owed w' = set (map key_id (in_flight w'))" by (force simp: owed_def)
  have "distinct (map (snd \<circ> answer_key) rs @ map key_id (in_flight w'))"
    using so strict_sorted_iff by blast
  then have "snd ` answer_key ` set rs \<inter> snd ` owed w' = {}" "distinct (map (snd \<circ> answer_key) rs)"
    unfolding sn by (simp_all add: image_comp)
  moreover have "ids_ok w'" using f ok by (simp add: ids_ok_def sorted_wrt_append)
  ultimately show "ids_ok w' \<and> sw_nextRequestId w' = sw_nextRequestId w \<and> answer_key ` set rs \<union> owed w' \<subseteq> owed w \<and>
      snd ` answer_key ` set rs \<inter> snd ` owed w' = {} \<and> distinct (map (snd \<circ> answer_key) rs)"
    using f ow by blast
next
  show "ids_ok w \<Longrightarrow> \<exists>f. worker_step f w = Some w' \<Longrightarrow>
      ids_ok w' \<and> sw_nextRequestId w' = sw_nextRequestId w \<and> owed w' \<subseteq> owed w" for w w'
    using in_flight_step ids_ok_subseq by metis
  show "ids_ok w \<Longrightarrow> (i, rid) \<in> owed w \<Longrightarrow> rid \<le> sw_nextRequestId w" for w i rid
    by (auto simp: ids_ok_def owed_def)
qed

end
