(* ===== verification/K_Rows.thy ===== *)
theory K_Rows
  imports Order_Book
begin

text \<open>
  kdb+ objects and the rows the handlers publish: \<open>cpp/include/quote_row.hpp\<close>,
  \<open>cpp/include/trade_row.hpp\<close> and the row of \<open>cpp/include/trade_gap.hpp\<close>. An object is a value of
  \<open>kobj\<close>; reference counts are not modelled. A row is the list of its columns, in schema order.
  The first column is a timestamp counted from the kdb+ epoch.
\<close>

section \<open>kdb+ objects\<close>

datatype kobj =
    KTimestamp int | KSym string | KLong int | KInt int | KFloat double | KBool bool
  | KSyms "string list" | KLongs "int list" | KMixed "kobj list" | KError string | KOther

type_synonym krow = "kobj list"

definition KDB_EPOCH_OFFSET_NS :: int where
  "KDB_EPOCH_OFFSET_NS = 946684800000000000"

section \<open>Quote rows\<close>

definition quoteRowWidth :: "nat \<Rightarrow> bool \<Rightarrow> nat" where
  "quoteRowWidth depth futuresLayout = 4 * depth + 10 + (if futuresLayout then 2 else 0)"

definition quoteSendUsIndex :: "nat \<Rightarrow> bool \<Rightarrow> nat" where
  "quoteSendUsIndex depth futuresLayout = quoteRowWidth depth futuresLayout - 2"

definition buildQuoteRow :: "BookQuote \<Rightarrow> int \<Rightarrow> int \<Rightarrow> int \<Rightarrow> bool \<Rightarrow> krow" where
  "buildQuoteRow q timeUtcNs fhParseUs fhSendUs futuresLayout =
     (let qid = (\<lambda>v. if q_isValid q then v else null_long)
      in [KTimestamp (timeUtcNs - KDB_EPOCH_OFFSET_NS), KSym (q_sym q)] @
         map KFloat (q_bidPrices q) @ map KFloat (q_bidQtys q) @
         map KFloat (q_askPrices q) @ map KFloat (q_askQtys q) @
         [KBool (q_isValid q), KLong (q_exchEventTimeMs q)] @
         (if futuresLayout then [KLong (q_exchTransactTimeMs q)] else []) @
         [KLong (qid (q_exchFirstUpdateId q)), KLong (qid (q_exchUpdateId q))] @
         (if futuresLayout then [KLong (qid (q_exchPrevUpdateId q))] else []) @
         [KLong (q_fhRecvTimeUtcNs q), KLong fhParseUs, KLong fhSendUs, KLong (q_fhSeqNo q)])"

section \<open>Trade rows\<close>

definition buildTradeRow ::
    "int \<Rightarrow> int \<Rightarrow> string \<Rightarrow> int \<Rightarrow> double \<Rightarrow> double \<Rightarrow> bool \<Rightarrow> int \<Rightarrow> int \<Rightarrow> int \<Rightarrow> int \<Rightarrow> int \<Rightarrow> krow" where
  "buildTradeRow timeUtcNs fhRecvTimeUtcNs sy tradeId px qt buyerIsMaker exchEventTimeMs exchTradeTimeMs
     fhParseUs fhSendUs fhSeqNo =
     [KTimestamp (timeUtcNs - KDB_EPOCH_OFFSET_NS), KSym sy, KLong tradeId, KFloat px, KFloat qt,
      KBool buyerIsMaker, KLong exchEventTimeMs, KLong exchTradeTimeMs, KLong fhRecvTimeUtcNs,
      KLong fhParseUs, KLong fhSendUs, KLong fhSeqNo]"

definition buildAggTradeRow ::
    "int \<Rightarrow> int \<Rightarrow> string \<Rightarrow> int \<Rightarrow> int \<Rightarrow> int \<Rightarrow> double \<Rightarrow> double \<Rightarrow> double \<Rightarrow> bool \<Rightarrow> int \<Rightarrow> int \<Rightarrow> int \<Rightarrow> int \<Rightarrow> int
      \<Rightarrow> krow" where
  "buildAggTradeRow timeUtcNs fhRecvTimeUtcNs sy aggTradeId firstTradeId lastTradeId px qt qtyExRpi
     buyerIsMaker exchEventTimeMs exchTradeTimeMs fhParseUs fhSendUs fhSeqNo =
     [KTimestamp (timeUtcNs - KDB_EPOCH_OFFSET_NS), KSym sy, KLong aggTradeId, KLong firstTradeId,
      KLong lastTradeId, KFloat px, KFloat qt, KFloat qtyExRpi, KBool buyerIsMaker,
      KLong exchEventTimeMs, KLong exchTradeTimeMs, KLong fhRecvTimeUtcNs, KLong fhParseUs,
      KLong fhSendUs, KLong fhSeqNo]"

definition TRADE_ROW_WIDTH :: nat where "TRADE_ROW_WIDTH = 12"
definition TRADE_ROW_SEND_US_IDX :: nat where "TRADE_ROW_SEND_US_IDX = 10"
definition AGG_TRADE_ROW_WIDTH :: nat where "AGG_TRADE_ROW_WIDTH = 15"
definition AGG_TRADE_ROW_SEND_US_IDX :: nat where "AGG_TRADE_ROW_SEND_US_IDX = 13"

section \<open>Gap rows\<close>

datatype GapStatus = Detected | Partial | Recovered | Unrecoverable

fun gapStatusName :: "GapStatus \<Rightarrow> string" where
  "gapStatusName Detected = ''detected''"
| "gapStatusName Partial = ''partial''"
| "gapStatusName Recovered = ''recovered''"
| "gapStatusName Unrecoverable = ''unrecoverable''"

record TradeGap =
  gap_sym :: string
  gap_firstId :: int
  gap_lastId :: int
  gap_recovered :: int
  gap_through :: int

definition missing :: "TradeGap \<Rightarrow> int" where
  "missing g = gap_lastId g - gap_firstId g + 1"

definition nextNeededId :: "TradeGap \<Rightarrow> int" where
  "nextNeededId g = (if 0 < gap_through g then gap_through g + 1 else gap_firstId g)"

definition GAP_ROW_WIDTH :: nat where "GAP_ROW_WIDTH = 10"

definition buildGapRow :: "int \<Rightarrow> TradeGap \<Rightarrow> string \<Rightarrow> GapStatus \<Rightarrow> string \<Rightarrow> krow" where
  "buildGapRow timeUtcNs g srcTable status reason =
     [KTimestamp (timeUtcNs - KDB_EPOCH_OFFSET_NS), KSym (gap_sym g), KSym srcTable,
      KLong (gap_firstId g), KLong (gap_lastId g), KLong (missing g), KSym (gapStatusName status),
      KLong (gap_recovered g), KLong (if 0 < gap_through g then gap_through g else null_long), KSym reason]"

section \<open>Properties\<close>

lemma quote_row_shape:
  assumes "length (q_bidPrices q) = d" "length (q_bidQtys q) = d"
    and "length (q_askPrices q) = d" "length (q_askQtys q) = d"
  shows "length (buildQuoteRow q t p s f) = quoteRowWidth d f \<and>
    (buildQuoteRow q t p s f)[quoteSendUsIndex d f := KLong s'] = buildQuoteRow q t p s' f \<and>
    last (buildQuoteRow q t p s f) = KLong (q_fhSeqNo q)"
proof -
  define pre where "pre = [KTimestamp (t - KDB_EPOCH_OFFSET_NS), KSym (q_sym q)] @
         map KFloat (q_bidPrices q) @ map KFloat (q_bidQtys q) @ map KFloat (q_askPrices q) @ map KFloat (q_askQtys q) @
         [KBool (q_isValid q), KLong (q_exchEventTimeMs q)] @
         (if f then [KLong (q_exchTransactTimeMs q)] else []) @
         [KLong (if q_isValid q then q_exchFirstUpdateId q else null_long),
          KLong (if q_isValid q then q_exchUpdateId q else null_long)] @
         (if f then [KLong (if q_isValid q then q_exchPrevUpdateId q else null_long)] else []) @
         [KLong (q_fhRecvTimeUtcNs q), KLong p]"
  have row: "buildQuoteRow q t p x f = pre @ [KLong x, KLong (q_fhSeqNo q)]" for x
    by (simp add: buildQuoteRow_def pre_def Let_def)
  have len: "length pre = quoteSendUsIndex d f"
    using assms by (simp add: pre_def quoteSendUsIndex_def quoteRowWidth_def)
  then have "quoteSendUsIndex d f + 2 = quoteRowWidth d f" by (simp add: quoteSendUsIndex_def quoteRowWidth_def)
  with len show ?thesis by (simp add: row list_update_append flip: len)
qed

text \<open>The handler announces to the tickerplant exactly the width of the rows it sends: a quote row has
  \<open>quoteRowWidth\<close> columns when its four price and quantity vectors have the configured depth, and
  the column that is patched after the row is built, \<open>quoteSendUsIndex\<close>, is \<open>fhSendUs\<close>, right before
  the sequence number and untouched by the depth and the futures columns.\<close>

theorem quote_row_layout:
  assumes "length (q_bidPrices q) = d" "length (q_bidQtys q) = d"
    and "length (q_askPrices q) = d" "length (q_askQtys q) = d"
  shows "length (buildQuoteRow q t p s f) = quoteRowWidth d f \<and>
    (buildQuoteRow q t p s f)[quoteSendUsIndex d f := KLong s'] = buildQuoteRow q t p s' f \<and>
    last (buildQuoteRow q t p s f) = KLong (q_fhSeqNo q)"
  using quote_row_shape [OF assms] .

lemma quote_row_layout_witness:
  "length (buildQuoteRow (emptyQuote 5) 0 1 2 True) = 32 \<and>
   (buildQuoteRow (emptyQuote 5) 0 1 2 True)[30 := KLong 7] = buildQuoteRow (emptyQuote 5) 0 1 7 True"
  using quote_row_layout [of "emptyQuote 5" 5 0 1 2 True 7]
  by (simp add: emptyQuote_def quoteRowWidth_def quoteSendUsIndex_def)


end
