(* ===== verification/Tp_Publisher.thy ===== *)
theory Tp_Publisher
  imports K_Rows "HOL-Library.Sublist"
begin

text \<open>
  \<open>cpp/include/tp_publisher.hpp\<close>: the resend ring, the connection to the tickerplant (connect,
  register, resend), publishing, and event rows.

  The kdb+ C API, the network and the tickerplant behind them are a parameter: a record \<open>TpIo\<close> of
  operations on a world of type \<open>'w\<close>. A sync call answers with an object, or \<open>None\<close> when the
  connection is lost; an async call says whether the socket took the message; \<open>io_poll\<close> reads the
  shutdown flag other threads may set. \<open>connect\<close> retries without bound, so it is a partial
  function: \<open>None\<close> is a run that never ends.

  \<open>tp_contract\<close> states what the tickerplant documents: it logs the rows it receives in order, a lost
  connection loses a suffix of what was sent and not logged, and a registration is answered with
  the number of the last logged row. Under it \<open>published_rows_all_arrive\<close> shows that no row is lost.
\<close>

section \<open>The resend ring\<close>

type_synonym ring = "(int \<times> krow) list"

definition ring_capacity :: "nat \<Rightarrow> nat" where
  "ring_capacity n = (if n = 0 then 1 else n)"

definition ring_push :: "nat \<Rightarrow> int \<Rightarrow> krow \<Rightarrow> ring \<Rightarrow> ring" where
  "ring_push cap fhSeqNo row rows =
     (if cap \<le> length rows then tl rows else rows) @ [(fhSeqNo, row)]"

lemma ring_capacity_pos [simp]: "0 < ring_capacity n"
  by (simp add: ring_capacity_def)

text \<open>The ring is a bounded queue.\<close>

interpretation ring_queue: bounded_fifo "\<lambda>rows. length rows \<le> ring_capacity n" "\<lambda>rows. rows"
    "\<lambda>(s, r). ring_push (ring_capacity n) s r" "ring_capacity n" for n
proof unfold_locales
  show pos: "0 < ring_capacity n" by (rule ring_capacity_pos)
  show "length rows \<le> ring_capacity n \<Longrightarrow> length ((case x of (s, r) \<Rightarrow> ring_push (ring_capacity n) s r) rows) \<le> ring_capacity n"
    for rows x by (cases rows) (auto simp: ring_push_def Suc_le_eq split: prod.split)
  show "length rows \<le> ring_capacity n \<Longrightarrow> (case x of (s, r) \<Rightarrow> ring_push (ring_capacity n) s r) rows =
      last_n (ring_capacity n) (rows @ [x])" for rows x
    using last_n_push [of rows "ring_capacity n" x] pos by (auto simp: ring_push_def split: prod.split)
qed

definition oldestSeq :: "ring \<Rightarrow> int" where
  "oldestSeq rows = (if rows = [] then 0 else fst (hd rows))"

definition newestSeq :: "ring \<Rightarrow> int" where
  "newestSeq rows = (if rows = [] then 0 else fst (last rows))"

definition missingAfter :: "int \<Rightarrow> ring \<Rightarrow> int" where
  "missingAfter afterSeq rows =
     (if rows = [] then 0
      else let firstNeeded = afterSeq + 1
           in if firstNeeded < fst (hd rows) then fst (hd rows) - firstNeeded else 0)"

section \<open>The publisher\<close>

record 'w TpIo =
  io_khpu :: "string \<Rightarrow> int \<Rightarrow> 'w \<Rightarrow> int \<times> 'w"
  io_kclose :: "int \<Rightarrow> 'w \<Rightarrow> 'w"
  io_call :: "int \<Rightarrow> string \<Rightarrow> kobj list \<Rightarrow> 'w \<Rightarrow> kobj option \<times> 'w"
  io_async :: "int \<Rightarrow> string \<Rightarrow> kobj list \<Rightarrow> 'w \<Rightarrow> bool \<times> 'w"
  io_poll :: "'w \<Rightarrow> bool \<times> 'w"
  io_sleep :: "nat \<Rightarrow> 'w \<Rightarrow> 'w"

record TpPublisherConfig =
  tc_host :: string
  tc_port :: int
  tc_table :: string
  tc_width :: int
  tc_sessionId :: int
  tc_ringSize :: nat
  tc_initialBackoffMs :: nat
  tc_maxBackoffMs :: nat

definition defaultTpConfig :: TpPublisherConfig where
  "defaultTpConfig = \<lparr>tc_host = ''localhost'', tc_port = 5010, tc_table = [], tc_width = 0, tc_sessionId = 0,
     tc_ringSize = 4096, tc_initialBackoffMs = 1000, tc_maxBackoffMs = 8000\<rparr>"

record TpPublisher =
  p_cfg :: TpPublisherConfig
  p_running :: bool
  p_ring :: ring
  p_handle :: int
  p_fatalError :: string
  p_reconnects :: nat
  p_rowsResent :: nat
  p_rowsUnresendable :: int
  p_lastReply :: int

definition newTpPublisher :: "TpPublisherConfig \<Rightarrow> TpPublisher" where
  "newTpPublisher cfg = \<lparr>p_cfg = cfg, p_running = True, p_ring = [], p_handle = -1, p_fatalError = [],
     p_reconnects = 0, p_rowsResent = 0, p_rowsUnresendable = 0, p_lastReply = -1\<rparr>"

definition p_capacity :: "TpPublisher \<Rightarrow> nat" where
  "p_capacity p = ring_capacity (tc_ringSize (p_cfg p))"

definition connected :: "TpPublisher \<Rightarrow> bool" where
  "connected p \<longleftrightarrow> 0 < p_handle p"

text \<open>\<open>while (running_)\<close>: the flag is false once this publisher or anyone else cleared it.\<close>

definition running :: "'w TpIo \<Rightarrow> TpPublisher \<Rightarrow> 'w \<Rightarrow> bool \<times> 'w" where
  "running io p w = (case io_poll io w of (stop, w') \<Rightarrow> (p_running p \<and> \<not> stop, w'))"

text \<open>1 registered, 0 connection lost, -1 rejected; the second component is \<open>lastLogged\<close>.\<close>

definition registerSession ::
    "'w TpIo \<Rightarrow> int \<Rightarrow> int \<Rightarrow> TpPublisher \<Rightarrow> 'w \<Rightarrow> int \<times> int \<times> TpPublisher \<times> 'w" where
  "registerSession io h nextFhSeqNo p w =
     (case io_call io h ''.tp.registerSession''
             [KSym (tc_table (p_cfg p)), KLong (tc_sessionId (p_cfg p)), KLong nextFhSeqNo, KLong (tc_width (p_cfg p))] w of
        (None, w') \<Rightarrow> (0, -1, p, w')
      | (Some (KError e), w') \<Rightarrow>
          (-1, -1, p\<lparr>p_fatalError := ''registration rejected for '' @ tc_table (p_cfg p) @ '': '' @ e\<rparr>, w')
      | (Some r, w') \<Rightarrow>
          (let lastLogged = (case r of KLong n \<Rightarrow> n | _ \<Rightarrow> -1)
           in (1, lastLogged, p\<lparr>p_lastReply := lastLogged\<rparr>, w')))"

text \<open>Send the given rows in order; stop at the first the socket does not take.\<close>

fun send_rows :: "'w TpIo \<Rightarrow> int \<Rightarrow> string \<Rightarrow> krow list \<Rightarrow> 'w \<Rightarrow> bool \<times> 'w" where
  "send_rows io h table [] w = (True, w)"
| "send_rows io h table (r # rs) w =
     (case io_async io h ''.u.upd'' [KSym table, KMixed r] w of
        (False, w') \<Rightarrow> (False, w')
      | (True, w') \<Rightarrow> send_rows io h table rs w')"

definition rows_after :: "int \<Rightarrow> ring \<Rightarrow> krow list" where
  "rows_after afterSeq rows = map snd (filter (\<lambda>e. afterSeq < fst e) rows)"

definition resend :: "'w TpIo \<Rightarrow> int \<Rightarrow> int \<Rightarrow> TpPublisher \<Rightarrow> 'w \<Rightarrow> bool \<times> TpPublisher \<times> 'w" where
  "resend io h lastLogged p w =
     (if lastLogged < 0 \<or> p_ring p = [] \<or> newestSeq (p_ring p) \<le> lastLogged then (True, p, w)
      else let gone = missingAfter lastLogged (p_ring p);
               p1 = (if 0 < gone then p\<lparr>p_rowsUnresendable := p_rowsUnresendable p + gone\<rparr> else p);
               rows = rows_after lastLogged (p_ring p)
           in case send_rows io h (tc_table (p_cfg p)) rows w of
                (False, w') \<Rightarrow> (False, p1, w')
              | (True, w') \<Rightarrow> (True, p1\<lparr>p_rowsResent := p_rowsResent p1 + length rows\<rparr>, w'))"

definition reconnectDelay :: "TpPublisherConfig \<Rightarrow> nat \<Rightarrow> nat" where
  "reconnectDelay cfg attempt =
     min (rec_nat (tc_initialBackoffMs cfg) (\<lambda>_ d. if d < tc_maxBackoffMs cfg then d * 2 else d) attempt)
       (tc_maxBackoffMs cfg)"

function sleep_loop :: "'w TpIo \<Rightarrow> TpPublisher \<Rightarrow> nat \<Rightarrow> nat \<Rightarrow> 'w \<Rightarrow> 'w" where
  "sleep_loop io p delay slept w =
     (if slept < delay
      then case running io p w of (run, w1) \<Rightarrow>
             if run then sleep_loop io p delay (slept + 100) (io_sleep io 100 w1) else w1
      else w)"
  by pat_completeness auto
termination by (relation "measure (\<lambda>(io, p, delay, slept, w). delay - slept)") auto

declare sleep_loop.simps [simp del]

definition sleepWithBackoff :: "'w TpIo \<Rightarrow> nat \<Rightarrow> TpPublisher \<Rightarrow> 'w \<Rightarrow> bool \<times> 'w" where
  "sleepWithBackoff io attempt p w =
     running io p (sleep_loop io p (reconnectDelay (p_cfg p) attempt) 0 w)"

text \<open>One round of the loop of \<open>connect\<close>, up to the sleep: \<open>Some b\<close> is a return of \<open>b\<close>.\<close>

definition connectOnce ::
    "'w TpIo \<Rightarrow> int \<Rightarrow> TpPublisher \<Rightarrow> 'w \<Rightarrow> bool option \<times> TpPublisher \<times> 'w" where
  "connectOnce io nextFhSeqNo p w =
     (case io_khpu io (tc_host (p_cfg p)) (tc_port (p_cfg p)) w of (h, w1) \<Rightarrow>
        if 0 < h then
          (case registerSession io h nextFhSeqNo p w1 of (reg, lastLogged, p1, w2) \<Rightarrow>
             if reg < 0 then (Some False, p1\<lparr>p_running := False\<rparr>, io_kclose io h w2)
             else if reg = 1 then
               (case resend io h lastLogged p1 w2 of (ok, p2, w3) \<Rightarrow>
                  if ok then (Some True, p2\<lparr>p_handle := h\<rparr>, w3) else (None, p2, io_kclose io h w3))
             else (None, p1, io_kclose io h w2))
        else (None, p, w1))"

partial_function (option) connect_loop ::
    "'w TpIo \<Rightarrow> int \<Rightarrow> nat \<Rightarrow> TpPublisher \<Rightarrow> 'w \<Rightarrow> (bool \<times> TpPublisher \<times> 'w) option" where
  "connect_loop io nextFhSeqNo attempt p w =
     (case running io p w of (run, w1) \<Rightarrow>
        if \<not> run then Some (False, p, w1)
        else case connectOnce io nextFhSeqNo p w1 of (res, p1, w2) \<Rightarrow>
          (case res of Some b \<Rightarrow> Some (b, p1, w2)
           | None \<Rightarrow> (case sleepWithBackoff io attempt p1 w2 of (go, w3) \<Rightarrow>
               if go then connect_loop io nextFhSeqNo (Suc attempt) p1 w3 else Some (False, p1, w3))))"

declare connect_loop.simps [code]

definition connect :: "'w TpIo \<Rightarrow> int \<Rightarrow> TpPublisher \<Rightarrow> 'w \<Rightarrow> (bool \<times> TpPublisher \<times> 'w) option" where
  "connect io nextFhSeqNo p w = connect_loop io nextFhSeqNo 0 p w"

definition publish :: "'w TpIo \<Rightarrow> krow \<Rightarrow> int \<Rightarrow> TpPublisher \<Rightarrow> 'w \<Rightarrow> (bool \<times> TpPublisher \<times> 'w) option" where
  "publish io row fhSeqNo p0 w =
     (let p = p0\<lparr>p_ring := ring_push (p_capacity p0) fhSeqNo row (p_ring p0)\<rparr>
      in if 0 < p_handle p then
           (case io_async io (p_handle p) ''.u.upd'' [KSym (tc_table (p_cfg p)), KMixed row] w of
              (True, w1) \<Rightarrow> Some (True, p, w1)
            | (False, w1) \<Rightarrow>
                connect io (fhSeqNo + 1) (p\<lparr>p_handle := -1, p_reconnects := p_reconnects p + 1\<rparr>)
                  (io_kclose io (p_handle p) w1))
         else connect io (fhSeqNo + 1) p w)"

datatype EventResult = Acked | ConnectionLost | Rejected

definition sendEvent ::
    "'w TpIo \<Rightarrow> string \<Rightarrow> krow \<Rightarrow> TpPublisher \<Rightarrow> 'w \<Rightarrow> EventResult \<times> TpPublisher \<times> 'w" where
  "sendEvent io table row p w =
     (if p_handle p \<le> 0 then (ConnectionLost, p, w)
      else case io_call io (p_handle p) ''.tp.event'' [KSym table, KMixed row] w of
        (None, w1) \<Rightarrow>
          (ConnectionLost, p\<lparr>p_handle := -1, p_reconnects := p_reconnects p + 1\<rparr>, io_kclose io (p_handle p) w1)
      | (Some (KError e), w1) \<Rightarrow> (Rejected, p, w1)
      | (Some r, w1) \<Rightarrow> (Acked, p, w1))"

record OpenGap =
  og_sym :: string
  og_firstId :: int
  og_lastId :: int
  og_recovered :: int
  og_through :: int

record TradeState =
  ts_ok :: bool
  ts_lastIds :: "(string \<times> int) list"
  ts_openGaps :: "OpenGap list"

text \<open>The reply is a list of seven vectors; the ones with wrong types are ignored.\<close>

definition parseTradeState :: "kobj \<Rightarrow> TradeState" where
  "parseTradeState r =
     (case r of KMixed [syms, ids, gs, gf, gl, gr, gt] \<Rightarrow>
        \<lparr>ts_ok = True,
         ts_lastIds = (case (syms, ids) of (KSyms ss, KLongs xs) \<Rightarrow> if length ss = length xs then zip ss xs else []
                       | _ \<Rightarrow> []),
         ts_openGaps = (case (gs, gf, gl, gr, gt) of
             (KSyms s, KLongs f, KLongs l, KLongs c, KLongs t) \<Rightarrow>
               map (\<lambda>i. \<lparr>og_sym = s ! i, og_firstId = f ! i, og_lastId = l ! i, og_recovered = c ! i,
                         og_through = (if t ! i = null_long then 0 else t ! i)\<rparr>) [0..<length s]
           | _ \<Rightarrow> [])\<rparr>
      | _ \<Rightarrow> \<lparr>ts_ok = False, ts_lastIds = [], ts_openGaps = []\<rparr>)"

definition tradeState :: "'w TpIo \<Rightarrow> TpPublisher \<Rightarrow> 'w \<Rightarrow> TradeState \<times> TpPublisher \<times> 'w" where
  "tradeState io p w =
     (let none = \<lparr>ts_ok = False, ts_lastIds = [], ts_openGaps = []\<rparr>
      in if p_handle p \<le> 0 then (none, p, w)
         else case io_call io (p_handle p) ''.tp.tradeState'' [KSym (tc_table (p_cfg p))] w of
           (None, w1) \<Rightarrow> (none, p\<lparr>p_handle := -1, p_reconnects := p_reconnects p + 1\<rparr>, io_kclose io (p_handle p) w1)
         | (Some (KError e), w1) \<Rightarrow> (none, p, w1)
         | (Some r, w1) \<Rightarrow> (parseTradeState r, p, w1))"

definition close :: "'w TpIo \<Rightarrow> TpPublisher \<Rightarrow> 'w \<Rightarrow> TpPublisher \<times> 'w" where
  "close io p w = (if 0 < p_handle p then (p\<lparr>p_handle := -1\<rparr>, io_kclose io (p_handle p) w) else (p, w))"

section \<open>The tickerplant's side\<close>

text \<open>
  What can be observed of the tickerplant for one table and session: the rows in its log, the rows
  the socket took that are not logged yet, whether it knows the session, and the number it started
  counting from.
\<close>

record TpView =
  tv_logged :: "krow list"
  tv_flight :: "krow list"
  tv_known :: bool
  tv_start :: int

definition row_seq :: "krow \<Rightarrow> int" where
  "row_seq r = (if r = [] then 0 else case last r of KLong n \<Rightarrow> n | _ \<Rightarrow> 0)"

text \<open>The last number the tickerplant has logged for a session it knows.\<close>

definition last_logged :: "TpView \<Rightarrow> int" where
  "last_logged v = (if tv_logged v = [] then tv_start v else row_seq (last (tv_logged v)))"

text \<open>Time passes: some of what is in flight reaches the log, in order.\<close>

definition settles :: "TpView \<Rightarrow> TpView \<Rightarrow> bool" where
  "settles v v' \<longleftrightarrow> tv_logged v' @ tv_flight v' = tv_logged v @ tv_flight v \<and>
     prefix (tv_logged v) (tv_logged v') \<and> tv_known v' = tv_known v \<and> tv_start v' = tv_start v"

text \<open>A connection ends: some of what is in flight may still reach the log, the rest is gone.\<close>

definition loses :: "TpView \<Rightarrow> TpView \<Rightarrow> bool" where
  "loses v v' \<longleftrightarrow> prefix (tv_logged v') (tv_logged v @ tv_flight v) \<and> prefix (tv_logged v) (tv_logged v') \<and>
     tv_flight v' = [] \<and> tv_known v' = tv_known v \<and> tv_start v' = tv_start v"

definition registers :: "TpView \<Rightarrow> int \<Rightarrow> TpView \<Rightarrow> bool" where
  "registers v nextSeq v' \<longleftrightarrow> tv_logged v' = tv_logged v \<and> tv_flight v' = tv_flight v \<and>
     tv_known v' \<and> tv_start v' = (if tv_known v then tv_start v else nextSeq - 1)"

text \<open>An async message: it joins the flight, or the socket refused it.\<close>

definition sends :: "TpView \<Rightarrow> krow \<Rightarrow> bool \<Rightarrow> TpView \<Rightarrow> bool" where
  "sends v row ok v' \<longleftrightarrow>
     (if ok then \<exists>u. settles v u \<and> v' = u\<lparr>tv_flight := tv_flight u @ [row]\<rparr> else settles v v')"

text \<open>The reply to a registration on a new connection.\<close>

definition replies :: "TpView \<Rightarrow> int \<Rightarrow> kobj option \<Rightarrow> TpView \<Rightarrow> bool" where
  "replies v n r v' \<longleftrightarrow>
     (case r of None \<Rightarrow> v' = v \<or> registers v n v'
      | Some x \<Rightarrow> (\<exists>e. x = KError e) \<and> v' = v \<or>
          registers v n v' \<and> x = KLong (if tv_known v then last_logged v else -1))"

definition tp_contract :: "'w TpIo \<Rightarrow> ('w \<Rightarrow> TpView) \<Rightarrow> TpPublisherConfig \<Rightarrow> bool" where
  "tp_contract io view cfg \<longleftrightarrow>
     (\<forall>w. settles (view w) (view (snd (io_poll io w)))) \<and>
     (\<forall>n w. settles (view w) (view (io_sleep io n w))) \<and>
     (\<forall>h p w. settles (view w) (view (snd (io_khpu io h p w)))) \<and>
     (\<forall>h w. loses (view w) (view (io_kclose io h w))) \<and>
     (\<forall>h row w. let x = io_async io h ''.u.upd'' [KSym (tc_table cfg), KMixed row] w
        in sends (view w) row (fst x) (view (snd x))) \<and>
     (\<forall>h n w. tv_flight (view w) = [] \<longrightarrow>
        (let x = io_call io h ''.tp.registerSession''
                [KSym (tc_table cfg), KLong (tc_sessionId cfg), KLong n, KLong (tc_width cfg)] w
         in replies (view w) n (fst x) (view (snd x)))) \<and>
     (\<forall>h t row w. settles (view w) (view (snd (io_call io h ''.tp.event'' [KSym t, KMixed row] w))))"

lemma settles_refl [simp]: "settles v v"
  by (simp add: settles_def)

lemma settles_trans: "settles a b \<Longrightarrow> settles b c \<Longrightarrow> settles a c"
  by (auto simp: settles_def dest: prefix_order.trans)

lemma settles_prefix: "settles v v' \<Longrightarrow> prefix (tv_logged v @ tv_flight v) H \<Longrightarrow> prefix (tv_logged v' @ tv_flight v') H"
  by (simp add: settles_def)

section \<open>Rows and the ring\<close>

text \<open>The published rows are numbered 1, 2, 3, ...\<close>

definition numbered :: "krow list \<Rightarrow> bool" where
  "numbered H \<longleftrightarrow> (\<forall>i < length H. row_seq (H ! i) = int i + 1)"

definition ring_of :: "nat \<Rightarrow> krow list \<Rightarrow> ring" where
  "ring_of cap H = map (\<lambda>r. (row_seq r, r)) (last_n cap H)"

lemma numbered_snoc: "numbered (H @ [r]) \<longleftrightarrow> numbered H \<and> row_seq r = int (length H) + 1"
  by (auto simp: numbered_def nth_append less_Suc_eq)

lemma last_n_snoc:
  assumes "0 < cap"
  shows "last_n cap (H @ [r]) = (if cap \<le> length (last_n cap H) then tl (last_n cap H) else last_n cap H) @ [r]"
proof (cases "length H < cap")
  case True
  then show ?thesis by (simp add: last_n_def)
next
  case False
  then have "tl (drop (length H - cap) H) = drop (Suc (length H) - cap) H" by (simp add: tl_drop Suc_diff_le drop_Suc)
  with False assms show ?thesis by (simp add: last_n_def)
qed

lemma ring_push_of:
  assumes "0 < cap" "row_seq r = n"
  shows "ring_push cap n r (ring_of cap H) = ring_of cap (H @ [r])"
proof -
  have "length (ring_of cap H) = length (last_n cap H)" by (simp add: ring_of_def)
  moreover have "tl (ring_of cap H) = map (\<lambda>r. (row_seq r, r)) (tl (last_n cap H))" by (simp add: ring_of_def map_tl)
  ultimately show ?thesis
    using assms last_n_snoc [OF assms(1), of H r] by (simp add: ring_push_def ring_of_def)
qed

lemma last_n_nonempty: "H \<noteq> [] \<Longrightarrow> 0 < cap \<Longrightarrow> last_n cap H \<noteq> []"
  by (simp add: last_n_def) (metis diff_less length_greater_0_conv not_le)

lemma last_last_n: "H \<noteq> [] \<Longrightarrow> 0 < cap \<Longrightarrow> last (last_n cap H) = last H"
  using last_n_nonempty [of H cap] by (simp add: last_n_def)

lemma newestSeq_of:
  assumes "numbered H" "0 < cap"
  shows "newestSeq (ring_of cap H) = int (length H)"
proof (cases "H = []")
  case False
  then have "row_seq (last H) = int (length H)"
    using assms(1) by (cases H rule: rev_cases) (simp_all add: numbered_snoc)
  with False last_n_nonempty [OF False assms(2)] last_last_n [OF False assms(2)] show ?thesis
    by (simp add: newestSeq_def ring_of_def last_map)
qed (simp add: newestSeq_def ring_of_def last_n_def)

lemma numbered_filter:
  assumes "numbered H"
  shows "filter (\<lambda>r. int k < row_seq r) (drop m H) = drop (max k m) H"
proof -
  have "filter (\<lambda>r. int k < row_seq r) (drop m H) = drop (k - m) (drop m H)"
    using assms
  proof (induction "length H - m" arbitrary: m)
    case 0
    then show ?case by simp
  next
    case (Suc n)
    then have m: "m < length H" by simp
    have d: "drop m H = H ! m # drop (Suc m) H" using m by (simp add: Cons_nth_drop_Suc)
    have s: "row_seq (H ! m) = int m + 1" using Suc.prems m by (simp add: numbered_def)
    have ih: "filter (\<lambda>r. int k < row_seq r) (drop (Suc m) H) = drop (k - Suc m) (drop (Suc m) H)"
      using Suc by simp
    show ?case
    proof (cases "k \<le> m")
      case True
      with ih s show ?thesis by (simp add: d)
    next
      case False
      then have "k - m = Suc (k - Suc m)" by simp
      with False ih s show ?thesis by (simp add: d)
    qed
  qed
  then show ?thesis by (simp add: max_def add.commute)
qed

lemma rows_after_of:
  assumes "numbered H"
  shows "rows_after (int k) (ring_of cap H) = drop (max k (length H - cap)) H"
proof -
  have "rows_after (int k) (ring_of cap H) = filter (\<lambda>r. int k < row_seq r) (last_n cap H)"
    by (simp add: rows_after_def ring_of_def filter_map comp_def)
  then show ?thesis using numbered_filter [OF assms, of k "length H - cap"] by (simp add: last_n_def)
qed

lemma missingAfter_of:
  assumes "numbered H" "0 < cap" "k \<le> length H"
  shows "missingAfter (int k) (ring_of cap H) = int (length H - cap - k)"
proof (cases "H = []")
  case True
  then show ?thesis by (simp add: missingAfter_def ring_of_def)
next
  case False
  have ne: "last_n cap H \<noteq> []" using False assms(2) by (rule last_n_nonempty)
  have "length H - cap < length H" using False assms(2) by simp
  then have "hd (last_n cap H) = H ! (length H - cap)" by (simp add: last_n_def hd_drop_conv_nth)
  then have "fst (hd (ring_of cap H)) = int (length H - cap) + 1"
    using assms(1,2) False ne by (simp add: ring_of_def hd_map numbered_def)
  moreover have "ring_of cap H \<noteq> []" using ne by (simp add: ring_of_def)
  ultimately show ?thesis by (simp add: missingAfter_def Let_def)
qed

section \<open>No row is lost\<close>

text \<open>The publisher and the tickerplant after the rows \<open>H\<close> were published.\<close>

definition tp_base :: "('w \<Rightarrow> TpView) \<Rightarrow> TpPublisher \<Rightarrow> krow list \<Rightarrow> 'w \<Rightarrow> bool" where
  "tp_base view p H w \<longleftrightarrow> p_ring p = ring_of (p_capacity p) H \<and> numbered H \<and> 0 \<le> p_rowsUnresendable p \<and>
     (tv_known (view w) \<longrightarrow> tv_start (view w) = 0)"

definition tp_idle :: "('w \<Rightarrow> TpView) \<Rightarrow> TpPublisher \<Rightarrow> krow list \<Rightarrow> 'w \<Rightarrow> bool" where
  "tp_idle view p H w \<longleftrightarrow> tp_base view p H w \<and> tv_flight (view w) = [] \<and>
     (\<not> tv_known (view w) \<longrightarrow> H = [] \<and> tv_logged (view w) = []) \<and>
     (p_rowsUnresendable p = 0 \<longrightarrow> prefix (tv_logged (view w)) H)"

definition tp_live :: "('w \<Rightarrow> TpView) \<Rightarrow> TpPublisher \<Rightarrow> krow list \<Rightarrow> 'w \<Rightarrow> bool" where
  "tp_live view p H w \<longleftrightarrow> tp_base view p H w \<and> tv_known (view w) \<and>
     (p_rowsUnresendable p = 0 \<longrightarrow> tv_logged (view w) @ tv_flight (view w) = H)"

lemma settles_idle: "settles v v' \<Longrightarrow> tv_flight v = [] \<Longrightarrow> v' = v"
proof -
  assume a: "settles v v'" "tv_flight v = []"
  then have "tv_logged v' @ tv_flight v' = tv_logged v" "prefix (tv_logged v) (tv_logged v')"
    by (simp_all add: settles_def)
  then have "tv_logged v' = tv_logged v \<and> tv_flight v' = []" by (auto simp: prefix_def)
  with a show "v' = v" by (simp add: settles_def TpView.equality)
qed

text \<open>The contract as rules.\<close>

lemma contract_poll:
  assumes "tp_contract io view cfg" "io_poll io w = (b, w')"
  shows "settles (view w) (view w')"
proof -
  have "settles (view w) (view (snd (io_poll io w)))" using assms(1) by (simp add: tp_contract_def)
  with assms(2) show ?thesis by simp
qed

lemma contract_sleep: "tp_contract io view cfg \<Longrightarrow> settles (view w) (view (io_sleep io n w))"
  by (simp add: tp_contract_def)

lemma contract_khpu:
  assumes "tp_contract io view cfg" "io_khpu io hst prt w = (h, w')"
  shows "settles (view w) (view w')"
proof -
  have "settles (view w) (view (snd (io_khpu io hst prt w)))" using assms(1) by (simp add: tp_contract_def)
  with assms(2) show ?thesis by simp
qed

lemma contract_kclose: "tp_contract io view cfg \<Longrightarrow> loses (view w) (view (io_kclose io h w))"
  by (simp add: tp_contract_def)

lemma contract_async:
  assumes "tp_contract io view cfg" "io_async io h ''.u.upd'' [KSym (tc_table cfg), KMixed row] w = (ok, w')"
  shows "sends (view w) row ok (view w')"
proof -
  have "let x = io_async io h ''.u.upd'' [KSym (tc_table cfg), KMixed row] w
        in sends (view w) row (fst x) (view (snd x))"
    using assms(1) unfolding tp_contract_def by blast
  with assms(2) show ?thesis by simp
qed

lemma contract_register:
  assumes "tp_contract io view cfg" "tv_flight (view w) = []"
    "io_call io h ''.tp.registerSession''
       [KSym (tc_table cfg), KLong (tc_sessionId cfg), KLong n, KLong (tc_width cfg)] w = (r, w')"
  shows "replies (view w) n r (view w')"
proof -
  have "let x = io_call io h ''.tp.registerSession''
                [KSym (tc_table cfg), KLong (tc_sessionId cfg), KLong n, KLong (tc_width cfg)] w
         in replies (view w) n (fst x) (view (snd x))"
    using assms(1,2) unfolding tp_contract_def by blast
  with assms(3) show ?thesis by simp
qed

lemma contract_event:
  assumes "tp_contract io view cfg" "io_call io h ''.tp.event'' [KSym t, KMixed row] w = (r', w')"
  shows "settles (view w) (view w')"
proof -
  have "settles (view w) (view (snd (io_call io h ''.tp.event'' [KSym t, KMixed row] w)))"
    using assms(1) by (simp add: tp_contract_def)
  with assms(2) show ?thesis by simp
qed

text \<open>Sending a list of rows.\<close>

lemma send_rows_view:
  assumes "tp_contract io view cfg" "send_rows io h (tc_table cfg) rs w = (ok, w')"
  shows "(if ok then tv_logged (view w') @ tv_flight (view w') = tv_logged (view w) @ tv_flight (view w) @ rs
          else prefix (tv_logged (view w') @ tv_flight (view w')) (tv_logged (view w) @ tv_flight (view w) @ rs)) \<and>
    tv_known (view w') = tv_known (view w) \<and> tv_start (view w') = tv_start (view w)"
  using assms(2)
proof (induction rs arbitrary: w)
  case (Cons r rs)
  obtain b w1 where s: "io_async io h ''.u.upd'' [KSym (tc_table cfg), KMixed r] w = (b, w1)" by fastforce
  note a = contract_async [OF assms(1) s]
  show ?case
  proof (cases b)
    case False
    with a have "settles (view w) (view w1)" by (simp add: sends_def)
    with Cons.prems s False show ?thesis by (auto simp: settles_def)
  next
    case True
    with a obtain v where v: "settles (view w) v" "view w1 = v\<lparr>tv_flight := tv_flight v @ [r]\<rparr>" by (auto simp: sends_def)
    then have w1: "tv_logged (view w1) @ tv_flight (view w1) = tv_logged (view w) @ tv_flight (view w) @ [r]"
        "tv_known (view w1) = tv_known (view w)" "tv_start (view w1) = tv_start (view w)"
      by (simp_all add: settles_def flip: append_assoc)
    have e: "tv_logged (view w1) @ tv_flight (view w1) @ rs = tv_logged (view w) @ tv_flight (view w) @ r # rs"
      using w1(1) by (metis append.assoc append_Cons append_Nil)
    have "send_rows io h (tc_table cfg) rs w1 = (ok, w')" using Cons.prems s True by simp
    from Cons.IH [OF this] show ?thesis unfolding e w1(2,3) .
  qed
qed simp

lemma tp_base_cong:
  "tp_base view p H w \<Longrightarrow> view w' = view w \<Longrightarrow> tp_base view p H w'"
  by (simp add: tp_base_def)

lemma tp_idle_settles:
  "tp_idle view p H w \<Longrightarrow> settles (view w) (view w') \<Longrightarrow> tp_idle view p H w' \<and> view w' = view w"
  using settles_idle [of "view w" "view w'"] by (simp add: tp_idle_def tp_base_def)

lemma tp_live_settles:
  "tp_live view p H w \<Longrightarrow> settles (view w) (view w') \<Longrightarrow> tp_live view p H w'"
  by (simp add: tp_live_def tp_base_def settles_def)

text \<open>Closing a connection on which only rows of \<open>H\<close> were sent.\<close>

lemma tp_close_idle:
  assumes base: "tp_base view p H w" "tv_known (view w)"
    and pre: "p_rowsUnresendable p = 0 \<Longrightarrow> prefix (tv_logged (view w) @ tv_flight (view w)) H"
    and l: "loses (view w) (view w')"
  shows "tp_idle view p H w'"
proof -
  have "prefix (tv_logged (view w')) H" if "p_rowsUnresendable p = 0"
    using l pre [OF that] unfolding loses_def by (metis prefix_order.trans)
  with base l show ?thesis by (simp add: tp_idle_def tp_base_def loses_def)
qed

lemma tp_live_close: "tp_live view p H w \<Longrightarrow> loses (view w) (view w') \<Longrightarrow> tp_idle view p H w'"
  by (rule tp_close_idle) (auto simp: tp_live_def)

lemma numbered_last: "numbered H \<Longrightarrow> H \<noteq> [] \<Longrightarrow> row_seq (last H) = int (length H)"
  by (cases H rule: rev_cases) (simp_all add: numbered_snoc)

lemma numbered_prefix:
  assumes "numbered H" "prefix L H"
  shows "numbered L"
proof -
  obtain zs where H: "H = L @ zs" using assms(2) by (auto simp: prefix_def)
  have "row_seq (L ! i) = int i + 1" if "i < length L" for i
    using assms(1) that unfolding numbered_def H by (metis length_append nth_append trans_less_add1)
  then show ?thesis by (simp add: numbered_def)
qed

lemma last_logged_prefix:
  assumes "numbered H" "prefix (tv_logged v) H" "tv_start v = 0"
  shows "last_logged v = int (length (tv_logged v))"
  using numbered_last [OF numbered_prefix [OF assms(1,2)]] assms(3) by (simp add: last_logged_def)

lemma missingAfter_nonneg: "0 \<le> missingAfter k r"
  by (simp add: missingAfter_def Let_def)

text \<open>Resending after a registration that said \<open>lastLogged\<close>.\<close>

lemma resend_view:
  assumes con: "tp_contract io view (p_cfg p)" and base: "tp_base view p H w" and kn: "tv_known (view w)"
    and fl: "tv_flight (view w) = []"
    and pre: "p_rowsUnresendable p = 0 \<Longrightarrow> prefix (tv_logged (view w)) H \<and>
        (lastLogged = int (length (tv_logged (view w))) \<or> lastLogged = -1 \<and> H = [])"
    and res: "resend io h lastLogged p w = (ok, p', w')"
  shows "p_cfg p' = p_cfg p \<and> p_handle p' = p_handle p \<and> p_rowsUnresendable p \<le> p_rowsUnresendable p' \<and>
    (if ok then tp_live view p' H w'
     else tp_base view p' H w' \<and> tv_known (view w') \<and>
       (p_rowsUnresendable p' = 0 \<longrightarrow> prefix (tv_logged (view w') @ tv_flight (view w')) H))"
proof -
  have cap: "0 < p_capacity p" by (simp add: p_capacity_def)
  have ring: "p_ring p = ring_of (p_capacity p) H" and num: "numbered H" and un: "0 \<le> p_rowsUnresendable p"
    using base by (simp_all add: tp_base_def)
  have new: "newestSeq (p_ring p) = int (length H)" by (simp add: ring newestSeq_of [OF num cap])
  have ne: "p_ring p = [] \<longleftrightarrow> H = []" using last_n_nonempty [OF _ cap, of H] by (auto simp: ring ring_of_def last_n_def)
  show ?thesis
  proof (cases "lastLogged < 0 \<or> p_ring p = [] \<or> newestSeq (p_ring p) \<le> lastLogged")
    case True
    then have r: "ok" "p' = p" "w' = w" using res by (simp_all add: resend_def)
    have "tv_logged (view w) = H" if z: "p_rowsUnresendable p = 0"
    proof -
      have "length H \<le> length (tv_logged (view w)) \<or> H = []" using pre [OF z] True new ne by auto
      with pre [OF z] show ?thesis by (auto simp: prefix_def)
    qed
    with base kn fl r show ?thesis by (simp add: tp_live_def)
  next
    case False
    let ?gone = "missingAfter lastLogged (p_ring p)"
    let ?p1 = "if 0 < ?gone then p\<lparr>p_rowsUnresendable := p_rowsUnresendable p + ?gone\<rparr> else p"
    let ?rows = "rows_after lastLogged (p_ring p)"
    obtain b w1 where s: "send_rows io h (tc_table (p_cfg p)) ?rows w = (b, w1)" by fastforce
    have r: "ok = b" "w' = w1" "p' = (if b then ?p1\<lparr>p_rowsResent := p_rowsResent ?p1 + length ?rows\<rparr> else ?p1)"
      using res False s by (auto simp: resend_def Let_def split: bool.splits if_splits)
    have un': "p_rowsUnresendable p' = p_rowsUnresendable p + ?gone"
      using missingAfter_nonneg [of lastLogged "p_ring p"] by (simp add: r(3))
    have fr: "p_cfg p' = p_cfg p" "p_handle p' = p_handle p" "p_ring p' = p_ring p" "p_capacity p' = p_capacity p"
      by (simp_all add: r(3) p_capacity_def)
    note sv = send_rows_view [OF con s]
    have full: "tv_logged (view w) @ ?rows = H" if z: "p_rowsUnresendable p' = 0"
    proof -
      have z1: "p_rowsUnresendable p = 0" "?gone = 0"
        using z un' un missingAfter_nonneg [of lastLogged "p_ring p"] by linarith+
      with pre [OF z1(1)] False ne have L: "prefix (tv_logged (view w)) H" "lastLogged = int (length (tv_logged (view w)))"
        by auto
      let ?k = "length (tv_logged (view w))"
      have k: "?k \<le> length H" using L(1) by (rule prefix_length_le)
      have "length H - p_capacity p \<le> ?k"
        using z1(2) missingAfter_of [OF num cap k] by (simp add: ring L(2))
      then have "?rows = drop ?k H" using rows_after_of [OF num, of ?k] by (simp add: ring L(2) max_def)
      with L(1) show ?thesis by (auto simp: prefix_def)
    qed
    have base': "tp_base view p' H w'"
      using base fr un' un missingAfter_nonneg [of lastLogged "p_ring p"] sv by (simp add: tp_base_def r(2))
    show ?thesis
    proof (cases b)
      case True
      have "tv_logged (view w') @ tv_flight (view w') = H" if "p_rowsUnresendable p' = 0"
        using sv full [OF that] True fl by (simp add: r(2))
      with sv kn base' fr(1,2) un' True missingAfter_nonneg [of lastLogged "p_ring p"] show ?thesis
        by (simp add: tp_live_def r(1,2))
    next
      case False
      have "prefix (tv_logged (view w') @ tv_flight (view w')) H" if "p_rowsUnresendable p' = 0"
        using sv full [OF that] False fl by (simp add: r(2))
      with sv kn base' fr(1,2) un' False missingAfter_nonneg [of lastLogged "p_ring p"] show ?thesis
        by (simp add: r(1,2))
    qed
  qed
qed

lemma registers_idle:
  assumes idle: "tp_idle view p H w" and reg: "registers (view w) (int (length H) + 1) (view w')"
  shows "tp_idle view p H w' \<and> tv_known (view w')"
  using assms by (auto simp: tp_idle_def tp_base_def registers_def)

lemma registerSession_view:
  assumes con: "tp_contract io view (p_cfg p)" and idle: "tp_idle view p H w"
    and res: "registerSession io h (int (length H) + 1) p w = (reg, lastLogged, p', w')"
  shows "p_cfg p' = p_cfg p \<and> p_handle p' = p_handle p \<and> p_rowsUnresendable p' = p_rowsUnresendable p \<and>
    tp_idle view p' H w' \<and>
    (reg = 1 \<longrightarrow> tv_known (view w') \<and> (p_rowsUnresendable p' = 0 \<longrightarrow>
       lastLogged = int (length (tv_logged (view w'))) \<or> lastLogged = -1 \<and> H = []))"
proof -
  obtain r w1 where c: "io_call io h ''.tp.registerSession'' [KSym (tc_table (p_cfg p)), KLong (tc_sessionId (p_cfg p)),
      KLong (int (length H) + 1), KLong (tc_width (p_cfg p))] w = (r, w1)" by fastforce
  have fl: "tv_flight (view w) = []" using idle by (simp add: tp_idle_def)
  note rp = contract_register [OF con fl c]
  show ?thesis
  proof (cases r)
    case None
    then have "tp_idle view p H w1"
      using rp idle registers_idle [OF idle, of w1] by (auto simp: replies_def tp_idle_def tp_base_def)
    with None c res show ?thesis by (auto simp: registerSession_def)
  next
    case (Some x)
    show ?thesis
    proof (cases "\<exists>e. x = KError e")
      case True
      with rp Some have "view w1 = view w" by (auto simp: replies_def)
      then have "tp_idle view p H w1" using idle by (simp add: tp_idle_def tp_base_def)
      with True Some c res show ?thesis by (auto simp: registerSession_def tp_idle_def tp_base_def p_capacity_def)
    next
      case False
      with rp Some have rg: "registers (view w) (int (length H) + 1) (view w1)"
          and x: "x = KLong (if tv_known (view w) then last_logged (view w) else -1)"
        by (auto simp: replies_def)
      have res': "reg = 1" "lastLogged = (if tv_known (view w) then last_logged (view w) else -1)"
          "p' = p\<lparr>p_lastReply := lastLogged\<rparr>" "w' = w1"
        using res c Some x by (auto simp: registerSession_def Let_def)
      have id1: "tp_idle view p H w1" "tv_known (view w1)" using registers_idle [OF idle rg] by simp_all
      have "lastLogged = int (length (tv_logged (view w1))) \<or> lastLogged = -1 \<and> H = []"
        if "p_rowsUnresendable p = 0"
      proof (cases "tv_known (view w)")
        case True
        have "last_logged (view w) = int (length (tv_logged (view w)))"
          by (rule last_logged_prefix [of H]) (use idle that True in \<open>simp_all add: tp_idle_def tp_base_def\<close>)
        with True res'(2) rg show ?thesis by (simp add: registers_def)
      next
        case False
        with res'(2) idle show ?thesis by (simp add: tp_idle_def)
      qed
      moreover have "tp_idle view p' H w1"
        using id1(1) by (simp add: res'(3) tp_idle_def tp_base_def p_capacity_def)
      ultimately show ?thesis using res'(1,3,4) id1(2) by simp
    qed
  qed
qed

lemma connectOnce_view:
  assumes con: "tp_contract io view (p_cfg p)" and idle: "tp_idle view p H w"
    and res: "connectOnce io (int (length H) + 1) p w = (r, p', w')"
  shows "p_cfg p' = p_cfg p \<and> p_rowsUnresendable p \<le> p_rowsUnresendable p' \<and>
    (r = Some True \<longrightarrow> tp_live view p' H w' \<and> 0 < p_handle p') \<and>
    (r \<noteq> Some True \<longrightarrow> tp_idle view p' H w' \<and> p_handle p' = p_handle p)"
proof -
  obtain h w1 where k: "io_khpu io (tc_host (p_cfg p)) (tc_port (p_cfg p)) w = (h, w1)" by fastforce
  have idle1: "tp_idle view p H w1" using tp_idle_settles [OF idle contract_khpu [OF con k]] by simp
  show ?thesis
  proof (cases "0 < h")
    case False
    with k res idle1 show ?thesis by (auto simp: connectOnce_def)
  next
    case True
    obtain reg ll p1 w2 where rg: "registerSession io h (int (length H) + 1) p w1 = (reg, ll, p1, w2)"
      by (metis prod_cases4)
    note rv = registerSession_view [OF con idle1 rg]
    have con1: "tp_contract io view (p_cfg p1)" using con rv by simp
    have closed: "tp_idle view p1 H (io_kclose io h w2)"
      using rv contract_kclose [OF con, of w2 h] by (auto simp: tp_idle_def tp_base_def loses_def)
    consider (rejected) "reg < 0" | (lost) "0 \<le> reg" "reg \<noteq> 1" | (registered) "reg = 1" by linarith
    then show ?thesis
    proof cases
      case rejected
      then have "r = Some False" "p' = p1\<lparr>p_running := False\<rparr>" "w' = io_kclose io h w2"
        using res k True rg by (auto simp: connectOnce_def)
      with rv closed show ?thesis by (simp add: tp_idle_def tp_base_def p_capacity_def)
    next
      case lost
      from closed have "tp_idle view p1 H (io_kclose io h w2)" .
      moreover have "r = None" "p' = p1" "w' = io_kclose io h w2"
        using lost res k True rg by (auto simp: connectOnce_def)
      ultimately show ?thesis using rv by simp
    next
      case registered
      obtain ok p2 w3 where rs: "resend io h ll p1 w2 = (ok, p2, w3)" by (metis prod_cases3)
      have out: "(r, p', w') = (if ok then (Some True, p2\<lparr>p_handle := h\<rparr>, w3) else (None, p2, io_kclose io h w3))"
        using registered res k True rg rs by (auto simp: connectOnce_def)
      have idle2: "tp_idle view p1 H w2" "tv_known (view w2)" using rv registered by simp_all
      have rs': "p_cfg p2 = p_cfg p1 \<and> p_handle p2 = p_handle p1 \<and> p_rowsUnresendable p1 \<le> p_rowsUnresendable p2 \<and>
          (if ok then tp_live view p2 H w3
           else tp_base view p2 H w3 \<and> tv_known (view w3) \<and>
             (p_rowsUnresendable p2 = 0 \<longrightarrow> prefix (tv_logged (view w3) @ tv_flight (view w3)) H))"
        by (rule resend_view [OF con1 _ idle2(2) _ _ rs]) (use idle2 rv registered in \<open>auto simp: tp_idle_def\<close>)
      show ?thesis
      proof (cases ok)
        case True
        then have "tp_live view (p2\<lparr>p_handle := h\<rparr>) H w3"
          using rs' by (simp add: tp_live_def tp_base_def p_capacity_def)
        with True out rs' rv \<open>0 < h\<close> show ?thesis by simp
      next
        case False
        then have "tp_idle view p2 H (io_kclose io h w3)"
          using rs' tp_close_idle [of view p2 H w3 "io_kclose io h w3"] contract_kclose [OF con, of w3 h] by auto
        with False out rs' rv show ?thesis by simp
      qed
    qed
  qed
qed

lemma running_view: "tp_contract io view cfg \<Longrightarrow> running io p w = (b, w') \<Longrightarrow> settles (view w) (view w')"
  using contract_poll by (fastforce simp: running_def split: prod.splits)

lemma sleep_loop_view:
  assumes con: "tp_contract io view cfg"
  shows "settles (view w) (view (sleep_loop io p delay slept w))"
proof (induction "delay - slept" arbitrary: slept w rule: less_induct)
  case less
  show ?case
  proof (cases "slept < delay")
    case False
    then show ?thesis by (simp add: sleep_loop.simps)
  next
    case True
    obtain run w1 where r: "running io p w = (run, w1)" by fastforce
    have s1: "settles (view w) (view w1)" by (rule running_view [OF con r])
    show ?thesis
    proof (cases run)
      case False
      with True r s1 show ?thesis by (simp add: sleep_loop.simps [of io p delay slept])
    next
      case t: True
      have "settles (view w1) (view (io_sleep io 100 w1))" by (rule contract_sleep [OF con])
      moreover have "settles (view (io_sleep io 100 w1)) (view (sleep_loop io p delay (slept + 100) (io_sleep io 100 w1)))"
        by (rule less) (use True in simp)
      ultimately have "settles (view w) (view (sleep_loop io p delay (slept + 100) (io_sleep io 100 w1)))"
        using s1 settles_trans by blast
      with True r t show ?thesis by (simp add: sleep_loop.simps [of io p delay slept])
    qed
  qed
qed

text \<open>Whatever \<open>connect\<close> does, if it returns true then every row is logged or in flight again, and
  if it gives up the ring still matches what was published.\<close>

definition connect_post :: "('w \<Rightarrow> TpView) \<Rightarrow> krow list \<Rightarrow> TpPublisher \<Rightarrow> bool \<times> TpPublisher \<times> 'w \<Rightarrow> bool" where
  "connect_post view H p y \<longleftrightarrow> (case y of (b, p', w') \<Rightarrow>
     p_cfg p' = p_cfg p \<and> p_rowsUnresendable p \<le> p_rowsUnresendable p' \<and>
     (if b then tp_live view p' H w' \<and> 0 < p_handle p' else tp_idle view p' H w' \<and> p_handle p' \<le> 0))"

lemma connect_post_trans:
  "connect_post view H p1 y \<Longrightarrow> p_cfg p1 = p_cfg p \<Longrightarrow> p_rowsUnresendable p \<le> p_rowsUnresendable p1 \<Longrightarrow>
     connect_post view H p y"
  by (auto simp: connect_post_def)

lemma connect_loop_view:
  assumes con: "tp_contract io view cfg" and ret: "connect_loop io n att p w = Some y"
  shows "n = int (length H) + 1 \<longrightarrow> p_cfg p = cfg \<longrightarrow> tp_idle view p H w \<longrightarrow> p_handle p \<le> 0 \<longrightarrow> connect_post view H p y"
proof -
  let ?P = "\<lambda>io' n att p w y. io' = io \<longrightarrow> n = int (length H) + 1 \<longrightarrow> p_cfg p = cfg \<longrightarrow> tp_idle view p H w \<longrightarrow>
      p_handle p \<le> 0 \<longrightarrow> connect_post view H p y"
  have "?P io n att p w y"
  proof (rule connect_loop.raw_induct [where P = ?P, OF _ ret])
    fix f io' n att p w y
    assume ih: "\<And>a aa b c d y. f a aa b c d = Some y \<Longrightarrow> ?P a aa b c d y"
      and eq: "(case running io' p w of (run, w1) \<Rightarrow>
        if \<not> run then Some (False, p, w1)
        else case connectOnce io' n p w1 of (res, p1, w2) \<Rightarrow>
          (case res of Some b \<Rightarrow> Some (b, p1, w2)
           | None \<Rightarrow> (case sleepWithBackoff io' att p1 w2 of (go, w3) \<Rightarrow>
               if go then f io' n (Suc att) p1 w3 else Some (False, p1, w3)))) = Some y"
    show "?P io' n att p w y"
    proof (intro impI)
      assume a: "io' = io" "n = int (length H) + 1" "p_cfg p = cfg" "tp_idle view p H w" and hd: "p_handle p \<le> 0"
      obtain run w1 where r: "running io p w = (run, w1)" by fastforce
      have i1: "tp_idle view p H w1" using tp_idle_settles [OF a(4) running_view [OF con r]] by simp
      obtain res p1 w2 where c: "connectOnce io n p w1 = (res, p1, w2)" by (metis prod_cases3)
      have con': "tp_contract io view (p_cfg p)" using con a(3) by simp
      note cv = connectOnce_view [OF con' i1 c [unfolded a(2)]]
      have eq': "(if \<not> run then Some (False, p, w1) else
          (case res of Some b \<Rightarrow> Some (b, p1, w2)
           | None \<Rightarrow> (case sleepWithBackoff io att p1 w2 of (go, w3) \<Rightarrow>
               if go then f io n (Suc att) p1 w3 else Some (False, p1, w3)))) = Some y"
        using eq r c a(1) by (simp only: prod.case)
      show "connect_post view H p y"
      proof (cases "\<not> run \<or> res \<noteq> None")
        case True
        then have "y = (if \<not> run then (False, p, w1) else (the res, p1, w2))"
          using eq' by (cases res) (auto split: if_splits)
        then show ?thesis using cv True i1 hd by (cases res) (auto simp: connect_post_def)
      next
        case False
        obtain go w3 where s: "sleepWithBackoff io att p1 w2 = (go, w3)" by fastforce
        define w2' where "w2' = sleep_loop io p1 (reconnectDelay (p_cfg p1) att) 0 w2"
        have sl: "settles (view w2) (view w2')" "running io p1 w2' = (go, w3)"
          using s sleep_loop_view [OF con] by (simp_all add: sleepWithBackoff_def w2'_def)
        have i2: "tp_idle view p1 H w2" using cv False by simp
        have i2': "tp_idle view p1 H w2'" using tp_idle_settles [OF i2 sl(1)] by (rule conjunct1)
        have i3: "tp_idle view p1 H w3" using tp_idle_settles [OF i2' running_view [OF con sl(2)]] by (rule conjunct1)
        show ?thesis
        proof (cases go)
          case True
          then have f: "f io n (Suc att) p1 w3 = Some y" using eq' s False by simp
          have c1: "p_cfg p1 = p_cfg p" "p_rowsUnresendable p \<le> p_rowsUnresendable p1" using cv by blast+
          have "p_cfg p1 = cfg" unfolding c1(1) by (rule a(3))
          moreover have "p_handle p1 \<le> 0" using cv False hd by simp
          ultimately have "connect_post view H p1 y" using ih [OF f] a(2) i3 by blast
          then show ?thesis using c1 by (rule connect_post_trans)
        next
          case go: False
          then have "y = (False, p1, w3)" using eq' s False by simp
          then show ?thesis using cv i3 hd False by (simp add: connect_post_def)
        qed
      qed
    qed
  qed
  then show ?thesis by simp
qed

definition tp_ready :: "('w \<Rightarrow> TpView) \<Rightarrow> TpPublisher \<Rightarrow> krow list \<Rightarrow> 'w \<Rightarrow> bool" where
  "tp_ready view p H w \<longleftrightarrow> tv_known (view w) \<and> (if 0 < p_handle p then tp_live view p H w else tp_idle view p H w)"

lemma publish_view:
  assumes con: "tp_contract io view (p_cfg p)" and ready: "tp_ready view p H w"
    and seq: "row_seq r = int (length H) + 1"
    and ret: "publish io r (row_seq r) p w = Some y"
  shows "connect_post view (H @ [r]) p y"
proof -
  let ?p = "p\<lparr>p_ring := ring_push (p_capacity p) (row_seq r) r (p_ring p)\<rparr>"
  have base: "tp_base view p H w" "tv_known (view w)"
    using ready by (auto simp: tp_ready_def tp_live_def tp_idle_def split: if_splits)
  then have base': "tp_base view ?p (H @ [r]) w"
    using ring_push_of [of "p_capacity p" r "row_seq r" H] seq
    by (simp add: tp_base_def numbered_snoc p_capacity_def)
  have idle': "tp_idle view q (H @ [r]) w'"
    if "tp_idle view p H w'" "p_ring q = p_ring ?p" "p_cfg q = p_cfg p" "tv_known (view w')"
      "p_rowsUnresendable q = p_rowsUnresendable p" for w' q
    using that base' by (auto simp: tp_idle_def tp_base_def p_capacity_def intro: prefix_order.trans)
  have n: "row_seq r + 1 = int (length (H @ [r])) + 1" using seq by simp
  show ?thesis
  proof (cases "0 < p_handle p")
    case False
    then have c: "connect_loop io (row_seq r + 1) 0 ?p w = Some y"
      using ret by (simp add: publish_def connect_def Let_def)
    have "tp_idle view ?p (H @ [r]) w" by (rule idle') (use ready False base in \<open>simp_all add: tp_ready_def\<close>)
    then have "connect_post view (H @ [r]) ?p y" using connect_loop_view [OF con c, of "H @ [r]"] n False by simp
    then show ?thesis by (simp add: connect_post_def)
  next
    case True
    have lv: "tp_live view p H w" using ready True by (simp add: tp_ready_def)
    obtain ok w1 where s: "io_async io (p_handle p) ''.u.upd'' [KSym (tc_table (p_cfg p)), KMixed r] w = (ok, w1)"
      by fastforce
    note sn = contract_async [OF con s]
    show ?thesis
    proof (cases ok)
      case ok: True
      then obtain u where u: "settles (view w) u" "view w1 = u\<lparr>tv_flight := tv_flight u @ [r]\<rparr>"
        using sn by (auto simp: sends_def)
      have "tv_logged (view w1) @ tv_flight (view w1) = tv_logged (view w) @ tv_flight (view w) @ [r]"
        using u by (simp add: settles_def flip: append_assoc)
      then have "tp_live view ?p (H @ [r]) w1"
        using lv base' u by (auto simp: tp_live_def tp_base_def settles_def)
      moreover have "y = (True, ?p, w1)" using ret True ok s by (simp add: publish_def Let_def)
      ultimately show ?thesis using True by (simp add: connect_post_def)
    next
      case bad: False
      let ?q = "?p\<lparr>p_handle := -1, p_reconnects := p_reconnects p + 1\<rparr>"
      let ?w2 = "io_kclose io (p_handle p) w1"
      have c: "connect_loop io (row_seq r + 1) 0 ?q ?w2 = Some y"
        using ret True bad s by (simp add: publish_def connect_def Let_def)
      have "tp_live view p H w1" using tp_live_settles [OF lv] sn bad by (simp add: sends_def)
      then have i: "tp_idle view p H ?w2" and k: "tv_known (view ?w2)"
        using tp_live_close [of view p H w1 ?w2] contract_kclose [OF con, of w1 "p_handle p"]
        by (auto simp: tp_live_def loses_def)
      have "tp_idle view ?q (H @ [r]) ?w2" by (rule idle' [OF i _ _ k]) simp_all
      then have "connect_post view (H @ [r]) ?q y" using connect_loop_view [OF con c, of "H @ [r]"] n by simp
      then show ?thesis by (simp add: connect_post_def)
    qed
  qed
qed

lemma connect_post_ready: "connect_post view H p (True, p', w') \<Longrightarrow> tp_ready view p' H w'"
  by (simp add: connect_post_def tp_ready_def tp_live_def)

text \<open>Whether or not \<open>publish\<close> gave up, the row is accounted for.\<close>

lemma publish_ready:
  assumes "tp_contract io view (p_cfg p)" "tp_ready view p H w" "row_seq r = int (length H) + 1"
    and "publish io r (row_seq r) p w = Some (b, p', w')"
  shows "tp_ready view p' (H @ [r]) w' \<and> p_cfg p' = p_cfg p \<and> p_rowsUnresendable p \<le> p_rowsUnresendable p'"
proof -
  note post = publish_view [OF assms]
  show ?thesis
  proof (cases b)
    case True
    with post connect_post_ready [of view "H @ [r]" p p' w'] show ?thesis by (simp add: connect_post_def)
  next
    case False
    with post show ?thesis by (auto simp: connect_post_def tp_ready_def tp_idle_def)
  qed
qed

lemma tp_ready_settles: "tp_ready view p H w \<Longrightarrow> settles (view w) (view w') \<Longrightarrow> tp_ready view p H w'"
  using tp_live_settles [of view p H w w'] tp_idle_settles [of view p H w w']
  by (auto simp: tp_ready_def settles_def split: if_splits)

text \<open>Messages on other tables do not touch the handler's table.\<close>

definition health_contract :: "'w TpIo \<Rightarrow> ('w \<Rightarrow> TpView) \<Rightarrow> bool" where
  "health_contract io view \<longleftrightarrow>
     (\<forall>h row w. settles (view w) (view (snd (io_async io h ''.u.upd'' [KSym ''health_feed_handler'', KMixed row] w)))) \<and>
     (\<forall>h t ns vs w. settles (view w) (view (snd (io_async io h ''.tp.fhStats'' [KSym t, KSyms ns, KLongs vs] w))))"

lemma sendEvent_view:
  assumes con: "tp_contract io view (p_cfg p)" and ready: "tp_ready view p H w"
    and ret: "sendEvent io t r p w = (e, p', w')"
  shows "tp_ready view p' H w' \<and> p_cfg p' = p_cfg p \<and> p_rowsUnresendable p' = p_rowsUnresendable p"
proof (cases "p_handle p \<le> 0")
  case True
  with ret ready show ?thesis by (simp add: sendEvent_def)
next
  case False
  then have lv: "tp_live view p H w" using ready by (simp add: tp_ready_def)
  obtain x w1 where c: "io_call io (p_handle p) ''.tp.event'' [KSym t, KMixed r] w = (x, w1)" by fastforce
  have l1: "tp_live view p H w1" by (rule tp_live_settles [OF lv contract_event [OF con c]])
  show ?thesis
  proof (cases x)
    case None
    let ?w2 = "io_kclose io (p_handle p) w1" and ?p = "p\<lparr>p_handle := -1, p_reconnects := p_reconnects p + 1\<rparr>"
    have "tp_idle view p H ?w2" "tv_known (view ?w2)"
      using tp_live_close [OF l1] contract_kclose [OF con, of w1 "p_handle p"] l1
      by (auto simp: tp_live_def loses_def)
    then have "tp_ready view ?p H ?w2" by (simp add: tp_ready_def tp_idle_def tp_base_def p_capacity_def)
    moreover have "p' = ?p" "w' = ?w2" using ret False c None by (simp_all add: sendEvent_def)
    ultimately show ?thesis by simp
  next
    case (Some y)
    then have "p' = p" "w' = w1" using ret False c by (auto simp: sendEvent_def split: kobj.splits)
    with l1 False show ?thesis by (simp add: tp_ready_def tp_live_def)
  qed
qed

text \<open>A run of rows and events, as long as every \<open>publish\<close> returns true.\<close>

datatype tp_op = OpPublish krow | OpEvent string krow

fun tp_run :: "'w TpIo \<Rightarrow> tp_op list \<Rightarrow> TpPublisher \<Rightarrow> 'w \<Rightarrow> (bool \<times> TpPublisher \<times> 'w) option" where
  "tp_run io [] p w = Some (True, p, w)"
| "tp_run io (OpPublish r # ops) p w =
     (case publish io r (row_seq r) p w of
        None \<Rightarrow> None
      | Some (False, p', w') \<Rightarrow> Some (False, p', w')
      | Some (True, p', w') \<Rightarrow> tp_run io ops p' w')"
| "tp_run io (OpEvent t r # ops) p w = (case sendEvent io t r p w of (e, p', w') \<Rightarrow> tp_run io ops p' w')"

fun published :: "tp_op list \<Rightarrow> krow list" where
  "published [] = []"
| "published (OpPublish r # ops) = r # published ops"
| "published (OpEvent t r # ops) = published ops"

lemma tp_run_view:
  assumes "tp_contract io view (p_cfg p)" "tp_ready view p H w" "numbered (H @ published ops)"
    and "tp_run io ops p w = Some (True, p', w')"
  shows "tp_ready view p' (H @ published ops) w' \<and> p_rowsUnresendable p \<le> p_rowsUnresendable p'"
  using assms
proof (induction ops arbitrary: p w H)
  case (Cons x ops)
  show ?case
  proof (cases x)
    case (OpEvent t r)
    obtain e p1 w1 where s: "sendEvent io t r p w = (e, p1, w1)" by (metis prod_cases3)
    note v = sendEvent_view [OF Cons.prems(1,2) s]
    from Cons.IH [of p1 H w1] Cons.prems v s OpEvent show ?thesis by simp
  next
    case (OpPublish r)
    have "row_seq r = int (length H) + 1"
      using Cons.prems(3) by (auto simp: numbered_def OpPublish nth_append dest: spec [of _ "length H"])
    note pv = publish_view [OF Cons.prems(1,2) this]
    obtain b p1 w1 where s: "publish io r (row_seq r) p w = Some (b, p1, w1)"
      using Cons.prems(4) by (auto simp: OpPublish split: option.splits)
    then have b: "b" using Cons.prems(4) by (cases b) (auto simp: OpPublish)
    have post: "connect_post view (H @ [r]) p (True, p1, w1)" using pv [OF s] b by simp
    then have "p_cfg p1 = p_cfg p" "p_rowsUnresendable p \<le> p_rowsUnresendable p1" by (simp_all add: connect_post_def)
    with Cons.IH [of p1 "H @ [r]" w1] Cons.prems connect_post_ready [OF post] s b OpPublish show ?thesis by simp
  qed
qed simp

section \<open>A tickerplant that dies\<close>

text \<open>
  A concrete instance of the parameter: the tickerplant logs a row when the next one is sent. After
  \<open>dw_life\<close> messages the connection is dead: what is in flight is lost, and \<open>khpu\<close> opens a new one.
\<close>

record DyingTp =
  dw_view :: TpView
  dw_life :: nat

definition settle_all :: "TpView \<Rightarrow> TpView" where
  "settle_all v = v\<lparr>tv_logged := tv_logged v @ tv_flight v, tv_flight := []\<rparr>"

definition dying_io :: "DyingTp TpIo" where
  "dying_io = \<lparr>
     io_khpu = (\<lambda>hst prt w. (7, w\<lparr>dw_life := 2\<rparr>)),
     io_kclose = (\<lambda>h w. w\<lparr>dw_view := (dw_view w)\<lparr>tv_flight := []\<rparr>\<rparr>),
     io_call = (\<lambda>h f args w.
        if f = ''.tp.registerSession'' then
          (case args of [t, sid, KLong n, wd] \<Rightarrow>
             (Some (KLong (if tv_known (dw_view w) then last_logged (dw_view w) else -1)),
              w\<lparr>dw_view := (dw_view w)\<lparr>tv_known := True,
                  tv_start := (if tv_known (dw_view w) then tv_start (dw_view w) else n - 1)\<rparr>\<rparr>)
           | _ \<Rightarrow> (None, w))
        else (Some (KLong 1), w)),
     io_async = (\<lambda>h f args w. case args of [t, KMixed row] \<Rightarrow>
        if dw_life w = 0 then (False, w)
        else if t = KSym ''health_feed_handler'' then (True, w)
        else (True, w\<lparr>dw_life := dw_life w - 1,
                 dw_view := (settle_all (dw_view w))\<lparr>tv_flight := [row]\<rparr>\<rparr>)
        | _ \<Rightarrow> (False, w)),
     io_poll = (\<lambda>w. (False, w)),
     io_sleep = (\<lambda>n w. w)\<rparr>"

definition dying_start :: DyingTp where
  "dying_start = \<lparr>dw_view = \<lparr>tv_logged = [], tv_flight = [], tv_known = False, tv_start = 0\<rparr>, dw_life = 2\<rparr>"

lemma settles_all: "settles v (settle_all v)"
  by (simp add: settles_def settle_all_def)

lemma dying_contract: "tc_table cfg \<noteq> ''health_feed_handler'' \<Longrightarrow> tp_contract dying_io dw_view cfg"
proof -
  assume t: "tc_table cfg \<noteq> ''health_feed_handler''"
  have "sends (dw_view w) row (fst (io_async dying_io h f [KSym (tc_table cfg), KMixed row] w))
      (dw_view (snd (io_async dying_io h f [KSym (tc_table cfg), KMixed row] w)))" for h f row w
    using t by (auto simp: sends_def dying_io_def settle_all_def intro!: exI [of _ "settle_all (dw_view w)"] simp: settles_def)
  moreover have "replies (dw_view w) n (fst (io_call dying_io h ''.tp.registerSession'' [t, sid, KLong n, wd] w))
      (dw_view (snd (io_call dying_io h ''.tp.registerSession'' [t, sid, KLong n, wd] w)))" for h t sid n wd w
    by (simp add: replies_def registers_def dying_io_def)
  ultimately show ?thesis
    by (simp add: tp_contract_def Let_def) (simp add: dying_io_def loses_def)
qed

lemma dying_health: "health_contract dying_io dw_view"
  by (simp add: health_contract_def dying_io_def)

section \<open>Properties\<close>

text \<open>C4: No row is lost. A session that connects and publishes the rows numbered 1 to n, with any event rows
  in between and with any number of lost connections, reconnects and failed attempts on the way, ends
  with every row, exactly once and in order, in the tickerplant's log or on its way to it, as long
  as the counter \<open>rowsUnresendable\<close> is zero: the only way to lose a row is counted there.\<close>

theorem published_rows_all_arrive:
  assumes "tp_contract io view cfg"
    and "view w0 = \<lparr>tv_logged = [], tv_flight = [], tv_known = False, tv_start = st\<rparr>"
    and "connect io 1 (newTpPublisher cfg) w0 = Some (True, p1, w1)"
    and "numbered (published ops)" "tp_run io ops p1 w1 = Some (True, p2, w2)"
    and "p_rowsUnresendable p2 = 0" "connected p2"
  shows "tv_logged (view w2) @ tv_flight (view w2) = published ops"
proof -
  let ?p = "newTpPublisher cfg"
  have idle: "tp_idle view ?p [] w0"
    by (simp add: tp_idle_def tp_base_def newTpPublisher_def assms(2) ring_of_def last_n_def numbered_def)
  have cfg: "p_cfg ?p = cfg" by (simp add: newTpPublisher_def)
  have "connect_loop io 1 0 ?p w0 = Some (True, p1, w1)" using assms(3) by (simp add: connect_def)
  moreover have "p_handle ?p \<le> 0" by (simp add: newTpPublisher_def)
  ultimately have post0: "connect_post view [] ?p (True, p1, w1)"
    using connect_loop_view [OF assms(1), of 1 0 ?p w0 "(True, p1, w1)" "[]"] idle cfg by simp
  then have post: "connect_post view [] ?p (True, p1, w1)" by simp
  then have c1: "p_cfg p1 = cfg" using cfg by (simp add: connect_post_def)
  have "tp_ready view p2 ([] @ published ops) w2 \<and> p_rowsUnresendable p1 \<le> p_rowsUnresendable p2"
    by (rule tp_run_view [OF _ connect_post_ready [OF post] _ assms(5)]) (simp_all add: c1 assms(1,4))
  with assms(6,7) show ?thesis by (simp add: tp_ready_def tp_live_def connected_def)
qed

definition demo_row :: "int \<Rightarrow> krow" where
  "demo_row n = [KSym ''BTCUSDT'', KLong n]"

definition demo_ops :: "tp_op list" where
  "demo_ops = [OpPublish (demo_row 1), OpPublish (demo_row 2), OpEvent ''trade_gap'' [], OpPublish (demo_row 3),
     OpPublish (demo_row 4)]"

definition demo1 :: "(bool \<times> TpPublisher \<times> DyingTp) option" where
  "demo1 = connect dying_io 1 (newTpPublisher defaultTpConfig) dying_start"

definition demo2 :: "(bool \<times> TpPublisher \<times> DyingTp) option" where
  "demo2 = (case demo1 of Some (b, p, w) \<Rightarrow> tp_run dying_io demo_ops p w | None \<Rightarrow> None)"

lemma demo1_val: "map_option fst demo1 = Some True"
  by code_simp

lemma demo2_val:
  "map_option (\<lambda>(b, p, w). (b, p_rowsUnresendable p, connected p, p_rowsResent p)) demo2 = Some (True, 0, True, 4)"
  by code_simp

lemma published_rows_all_arrive_witness:
  "\<exists>p1 w1 p2 w2. connect dying_io 1 (newTpPublisher defaultTpConfig) dying_start = Some (True, p1, w1) \<and>
     tp_run dying_io demo_ops p1 w1 = Some (True, p2, w2) \<and> p_rowsResent p2 = 4 \<and>
     tv_logged (dw_view w2) @ tv_flight (dw_view w2) = [demo_row 1, demo_row 2, demo_row 3, demo_row 4]"
proof -
  obtain p1 w1 where r1: "demo1 = Some (True, p1, w1)" using demo1_val by (cases demo1) auto
  obtain p2 w2 where r2: "demo2 = Some (True, p2, w2)" "p_rowsUnresendable p2 = 0" "connected p2" "p_rowsResent p2 = 4"
    using demo2_val by (cases demo2) auto
  have run: "tp_run dying_io demo_ops p1 w1 = Some (True, p2, w2)" using r2(1) unfolding demo2_def r1 by simp
  have n: "numbered (published demo_ops)"
    by (simp add: numbered_def demo_ops_def demo_row_def row_seq_def less_Suc_eq nth_Cons')
  have "tv_logged (dw_view w2) @ tv_flight (dw_view w2) = published demo_ops"
    by (rule published_rows_all_arrive [OF dying_contract _ r1 [unfolded demo1_def] n run r2(2,3), of 0])
      (simp_all add: dying_start_def defaultTpConfig_def)
  with r1 run r2(4) show ?thesis by (auto simp: demo_ops_def demo1_def)
qed



text \<open>A handler whose registration the tickerplant refuses stops for good: \<open>connect\<close> returns false after
  that one attempt, with the reason recorded, the shutdown flag cleared and no handle, and every
  later \<open>connect\<close> returns false at once.\<close>

theorem rejected_registration_stops:
  assumes "running io p w = (True, w1)" "io_khpu io (tc_host (p_cfg p)) (tc_port (p_cfg p)) w1 = (h, w2)" "0 < h"
    and "io_call io h ''.tp.registerSession''
           [KSym (tc_table (p_cfg p)), KLong (tc_sessionId (p_cfg p)), KLong n, KLong (tc_width (p_cfg p))] w2 =
         (Some (KError e), w3)"
  shows "\<exists>p'. connect io n p w = Some (False, p', io_kclose io h w3) \<and> \<not> p_running p' \<and>
    p_fatalError p' = ''registration rejected for '' @ tc_table (p_cfg p) @ '': '' @ e \<and>
    p_handle p' = p_handle p \<and> (\<forall>m w'. connect io m p' w' = Some (False, p', snd (io_poll io w')))"
proof -
  let ?p = "p\<lparr>p_fatalError := ''registration rejected for '' @ tc_table (p_cfg p) @ '': '' @ e, p_running := False\<rparr>"
  have "connectOnce io n p w1 = (Some False, ?p, io_kclose io h w3)"
    using assms(2-4) by (simp add: connectOnce_def registerSession_def)
  then have 1: "connect io n p w = Some (False, ?p, io_kclose io h w3)"
    unfolding connect_def by (subst connect_loop.simps) (simp add: assms(1))
  have 2: "connect io m ?p w' = Some (False, ?p, snd (io_poll io w'))" for m w'
    unfolding connect_def by (subst connect_loop.simps) (simp add: running_def split: prod.split)
  from 1 2 show ?thesis by (intro exI [of _ ?p]) simp
qed

definition refusing_io :: "unit TpIo" where
  "refusing_io = \<lparr>io_khpu = (\<lambda>hst prt w. (5, w)), io_kclose = (\<lambda>h w. w),
     io_call = (\<lambda>h f args w. (Some (KError ''width''), w)), io_async = (\<lambda>h f args w. (False, w)),
     io_poll = (\<lambda>w. (False, w)), io_sleep = (\<lambda>n w. w)\<rparr>"

lemma rejected_registration_stops_witness:
  "\<exists>p'. connect refusing_io 1 (newTpPublisher defaultTpConfig) () = Some (False, p', ()) \<and> \<not> p_running p'"
  using rejected_registration_stops [of refusing_io "newTpPublisher defaultTpConfig" "()" "()" 5 "()" 1 "''width''" "()"]
  by (auto simp: refusing_io_def running_def newTpPublisher_def)

end
