(* ===== verification/Fh_Stats.thy ===== *)
theory Fh_Stats
  imports Tp_Publisher
begin

text \<open>
  \<open>cpp/include/fh_stats.hpp\<close>: the message with a handler's counters, sent with every health row.
\<close>

definition sendFhStats :: "'w TpIo \<Rightarrow> int \<Rightarrow> string \<Rightarrow> (string \<times> int) list \<Rightarrow> 'w \<Rightarrow> 'w" where
  "sendFhStats io tpHandle table stats w =
     (if tpHandle \<le> 0 then w
      else snd (io_async io tpHandle ''.tp.fhStats'' [KSym table, KSyms (map fst stats), KLongs (map snd stats)] w))"

lemma sendFhStats_settles:
  "health_contract io view \<Longrightarrow> settles (view w) (view (sendFhStats io h t st w))"
  by (simp add: sendFhStats_def health_contract_def)

end
