(* ===== verification/Row_Clock.thy ===== *)
theory Row_Clock
  imports Prelude
begin

text \<open>
  \<open>cpp/include/row_clock.hpp\<close>: which time a row carries when the local clock lags the exchange.
  Times are Unix nanoseconds or milliseconds as \<open>int\<close>; \<open>stamp_in_range\<close> shows that the 64-bit
  products of the code do not overflow for any time a feed can carry.
\<close>

section \<open>The rule\<close>

definition DEFAULT_CLOCK_LAG_MS :: int where
  "DEFAULT_CLOCK_LAG_MS = 2000"

datatype ClockEdge = NoEdge | LagStarted | LagEnded

record RowStamp =
  st_timeUtcNs :: int
  st_corrected :: bool
  st_lagMs :: int
  st_edge :: ClockEdge

definition hasEventTime :: "int \<Rightarrow> bool" where
  "hasEventTime eventTimeMs \<longleftrightarrow> 0 < eventTimeMs"

definition stampRowTime :: "int \<Rightarrow> int \<Rightarrow> int \<Rightarrow> RowStamp" where
  "stampRowTime recvTimeUtcNs eventTimeMs thresholdMs =
     (let s = \<lparr>st_timeUtcNs = recvTimeUtcNs, st_corrected = False, st_lagMs = 0, st_edge = NoEdge\<rparr>
      in if \<not> hasEventTime eventTimeMs \<or> thresholdMs \<le> 0 then s
         else let eventNs = eventTimeMs * 1000000;
                  s1 = s\<lparr>st_lagMs := (eventNs - recvTimeUtcNs) sdiv 1000000\<rparr>
              in if thresholdMs * 1000000 < eventNs - recvTimeUtcNs
                 then s1\<lparr>st_timeUtcNs := eventNs, st_corrected := True\<rparr> else s1)"

record RowClock =
  rc_thresholdMs :: int
  rc_lastEventMs :: int
  rc_correctedRows :: nat
  rc_lagging :: bool
  rc_episodeRows :: nat
  rc_episodeMaxLagMs :: int
  rc_lastEpisodeRows :: nat
  rc_lastEpisodeMaxLagMs :: int

definition newRowClock :: "int \<Rightarrow> RowClock" where
  "newRowClock thresholdMs = \<lparr>rc_thresholdMs = thresholdMs, rc_lastEventMs = 0, rc_correctedRows = 0,
     rc_lagging = False, rc_episodeRows = 0, rc_episodeMaxLagMs = 0, rc_lastEpisodeRows = 0,
     rc_lastEpisodeMaxLagMs = 0\<rparr>"

definition noteEvent :: "int \<Rightarrow> RowClock \<Rightarrow> RowClock" where
  "noteEvent eventTimeMs c = (if hasEventTime eventTimeMs then c\<lparr>rc_lastEventMs := eventTimeMs\<rparr> else c)"

definition stamp :: "int \<Rightarrow> int \<Rightarrow> RowClock \<Rightarrow> RowStamp \<times> RowClock" where
  "stamp recvTimeUtcNs ownEventTimeMs c0 =
     (let c = noteEvent ownEventTimeMs c0;
          ref = (if hasEventTime ownEventTimeMs then ownEventTimeMs else rc_lastEventMs c);
          s = stampRowTime recvTimeUtcNs ref (rc_thresholdMs c)
      in if st_corrected s then
           let c1 = c\<lparr>rc_correctedRows := rc_correctedRows c + 1, rc_episodeRows := rc_episodeRows c + 1\<rparr>;
               c2 = (if rc_episodeMaxLagMs c1 < st_lagMs s then c1\<lparr>rc_episodeMaxLagMs := st_lagMs s\<rparr> else c1)
           in if \<not> rc_lagging c2 then (s\<lparr>st_edge := LagStarted\<rparr>, c2\<lparr>rc_lagging := True\<rparr>) else (s, c2)
         else if rc_lagging c \<and> hasEventTime ref \<and> st_lagMs s \<le> rc_thresholdMs c sdiv 2 then
           (s\<lparr>st_edge := LagEnded\<rparr>,
            c\<lparr>rc_lagging := False, rc_lastEpisodeRows := rc_episodeRows c,
              rc_lastEpisodeMaxLagMs := rc_episodeMaxLagMs c, rc_episodeRows := 0, rc_episodeMaxLagMs := 0\<rparr>)
         else (s, c))"

section \<open>A run of stamps\<close>

text \<open>The stamps of a sequence of rows (receive time, own event time), and the clock after it.\<close>

fun stamps :: "(int \<times> int) list \<Rightarrow> RowClock \<Rightarrow> RowStamp list \<times> RowClock" where
  "stamps [] c = ([], c)"
| "stamps ((recv, ev) # xs) c =
     (case stamp recv ev c of (s, c') \<Rightarrow> case stamps xs c' of (ss, c'') \<Rightarrow> (s # ss, c''))"

definition clock_wf :: "RowClock \<Rightarrow> bool" where
  "clock_wf c \<longleftrightarrow> 0 < rc_thresholdMs c \<and> 0 \<le> rc_lastEventMs c \<and>
     (\<not> rc_lagging c \<longrightarrow> rc_episodeRows c = 0 \<and> rc_episodeMaxLagMs c = 0) \<and>
     (rc_lagging c \<longrightarrow> 0 < rc_episodeRows c \<and> rc_thresholdMs c \<le> rc_episodeMaxLagMs c)"

lemma stampRowTime_corrected:
  "st_corrected (stampRowTime r e th) \<longleftrightarrow> hasEventTime e \<and> 0 < th \<and> th * 1000000 < e * 1000000 - r"
  by (auto simp: stampRowTime_def Let_def)

lemma stampRowTime_time:
  "st_timeUtcNs (stampRowTime r e th) = (if st_corrected (stampRowTime r e th) then e * 1000000 else r)"
  by (auto simp: stampRowTime_def Let_def)

lemma stampRowTime_lag:
  assumes "st_corrected (stampRowTime r e th)"
  shows "th \<le> st_lagMs (stampRowTime r e th)"
proof -
  have c: "hasEventTime e" "0 < th" "th * 1000000 < e * 1000000 - r"
    using assms by (simp_all add: stampRowTime_corrected)
  then have "th * 1000000 sdiv 1000000 \<le> (e * 1000000 - r) sdiv 1000000" by (intro sdiv_mono_pos) simp_all
  moreover have "th * 1000000 sdiv 1000000 = th" using c by (simp add: sdiv_nonneg)
  ultimately show ?thesis using c by (simp add: stampRowTime_def Let_def)
qed

lemma stampRowTime_edge [simp]: "st_edge (stampRowTime r e th) = NoEdge"
  by (simp add: stampRowTime_def Let_def)

lemma noteEvent_frame [simp]:
  "rc_thresholdMs (noteEvent e c) = rc_thresholdMs c" "rc_lagging (noteEvent e c) = rc_lagging c"
  "rc_correctedRows (noteEvent e c) = rc_correctedRows c" "rc_episodeRows (noteEvent e c) = rc_episodeRows c"
  "rc_episodeMaxLagMs (noteEvent e c) = rc_episodeMaxLagMs c"
  by (simp_all add: noteEvent_def)

text \<open>The four things a stamp can do.\<close>

lemma stamp_cases:
  assumes "stamp recv ev c = (s, c')"
  obtains (start) "st_corrected s" "\<not> rc_lagging c" "st_edge s = LagStarted" "rc_lagging c'"
      "rc_correctedRows c' = rc_correctedRows c + 1" "rc_episodeRows c' = rc_episodeRows c + 1"
      "rc_episodeMaxLagMs c' = max (rc_episodeMaxLagMs c) (st_lagMs s)"
    | (cont) "st_corrected s" "rc_lagging c" "st_edge s = NoEdge" "rc_lagging c'"
      "rc_correctedRows c' = rc_correctedRows c + 1" "rc_episodeRows c' = rc_episodeRows c + 1"
      "rc_episodeMaxLagMs c' = max (rc_episodeMaxLagMs c) (st_lagMs s)"
    | (stop) "\<not> st_corrected s" "rc_lagging c" "st_edge s = LagEnded" "\<not> rc_lagging c'"
      "rc_correctedRows c' = rc_correctedRows c" "rc_episodeRows c' = 0" "rc_episodeMaxLagMs c' = 0"
    | (plain) "\<not> st_corrected s" "st_edge s = NoEdge" "rc_lagging c' = rc_lagging c"
      "rc_correctedRows c' = rc_correctedRows c" "rc_episodeRows c' = rc_episodeRows c"
      "rc_episodeMaxLagMs c' = rc_episodeMaxLagMs c"
  using assms by (auto simp: stamp_def Let_def max_def split: if_splits)

lemma stamp_base:
  assumes "stamp recv ev c = (s, c')"
  shows "\<exists>ref. st_timeUtcNs s = st_timeUtcNs (stampRowTime recv ref (rc_thresholdMs c)) \<and>
      st_corrected s = st_corrected (stampRowTime recv ref (rc_thresholdMs c)) \<and>
      st_lagMs s = st_lagMs (stampRowTime recv ref (rc_thresholdMs c)) \<and>
      ref = (if hasEventTime ev then ev else rc_lastEventMs c) \<and>
      rc_thresholdMs c' = rc_thresholdMs c \<and>
      rc_lastEventMs c' = ref"
  using assms by (auto simp: stamp_def Let_def noteEvent_def split: if_splits)

lemma stamp_wf:
  assumes wf: "clock_wf c" and st: "stamp recv ev c = (s, c')"
  shows "clock_wf c'"
proof -
  obtain ref where b: "st_corrected s = st_corrected (stampRowTime recv ref (rc_thresholdMs c))"
      "st_lagMs s = st_lagMs (stampRowTime recv ref (rc_thresholdMs c))"
      "ref = (if hasEventTime ev then ev else rc_lastEventMs c)"
      "rc_thresholdMs c' = rc_thresholdMs c" "rc_lastEventMs c' = ref"
    using stamp_base [OF st] by blast
  have ref: "0 \<le> ref" using wf b(3) by (auto simp: clock_wf_def hasEventTime_def)
  have lag: "st_corrected s \<Longrightarrow> rc_thresholdMs c \<le> st_lagMs s" using stampRowTime_lag b by metis
  show ?thesis
    by (cases rule: stamp_cases [OF st, case_names start cont stop plain])
      (use wf b ref lag in \<open>auto simp: clock_wf_def\<close>)
qed

section \<open>Properties\<close>

text \<open>A corrected row is exactly a row whose time differs from its receive time, and its time is then
  the exchange's, more than the threshold ahead of the receive time. An uncorrected row keeps the
  receive time.\<close>

theorem corrected_iff_time_differs:
  assumes "clock_wf c" "stamp recv ev c = (s, c')"
  shows "(st_corrected s \<longleftrightarrow> st_timeUtcNs s \<noteq> recv) \<and>
    (st_corrected s \<longrightarrow> st_timeUtcNs s = 1000000 * (if 0 < ev then ev else rc_lastEventMs c) \<and>
       recv + 1000000 * rc_thresholdMs c < st_timeUtcNs s \<and> rc_thresholdMs c \<le> st_lagMs s)"
proof -
  obtain ref where b: "st_timeUtcNs s = st_timeUtcNs (stampRowTime recv ref (rc_thresholdMs c))"
      "st_corrected s = st_corrected (stampRowTime recv ref (rc_thresholdMs c))"
      "st_lagMs s = st_lagMs (stampRowTime recv ref (rc_thresholdMs c))"
      "ref = (if hasEventTime ev then ev else rc_lastEventMs c)"
    using stamp_base [OF assms(2)] by blast
  have th: "0 < rc_thresholdMs c" using assms(1) by (simp add: clock_wf_def)
  show ?thesis
    using b th stampRowTime_corrected [of recv ref "rc_thresholdMs c"]
      stampRowTime_time [of recv ref "rc_thresholdMs c"] stampRowTime_lag [of recv ref "rc_thresholdMs c"]
    by (auto simp: hasEventTime_def)
qed

lemma corrected_iff_time_differs_witness:
  "fst (stamp 1000000 5000 (newRowClock 2000)) = \<lparr>st_timeUtcNs = 5000000000, st_corrected = True, st_lagMs = 4999,
     st_edge = LagStarted\<rparr> \<and> st_timeUtcNs (fst (stamp 1000000 5000 (newRowClock 2000))) \<noteq> 1000000"
proof -
  have 1: "fst (stamp 1000000 5000 (newRowClock 2000)) = \<lparr>st_timeUtcNs = 5000000000, st_corrected = True,
      st_lagMs = 4999, st_edge = LagStarted\<rparr>" by code_simp
  have "clock_wf (newRowClock 2000)" by (simp add: clock_wf_def newRowClock_def)
  from corrected_iff_time_differs [OF this, of 1000000 5000 "fst (stamp 1000000 5000 (newRowClock 2000))"
      "snd (stamp 1000000 5000 (newRowClock 2000))"] 1 show ?thesis by simp
qed

fun edges_ok :: "bool \<Rightarrow> ClockEdge list \<Rightarrow> bool" where
  "edges_ok lag [] = True"
| "edges_ok lag (NoEdge # es) = edges_ok lag es"
| "edges_ok lag (LagStarted # es) = (\<not> lag \<and> edges_ok True es)"
| "edges_ok lag (LagEnded # es) = (lag \<and> edges_ok False es)"

lemma stamps_account:
  assumes "stamps xs c = (ss, c')"
  shows "edges_ok (rc_lagging c) (map st_edge ss) \<and>
    rc_correctedRows c' = rc_correctedRows c + length (filter st_corrected ss) \<and>
    length (filter (\<lambda>s. st_edge s = LagStarted) ss) + (if rc_lagging c then 1 else 0) =
    length (filter (\<lambda>s. st_edge s = LagEnded) ss) + (if rc_lagging c' then 1 else (0::nat))"
  using assms
proof (induction xs arbitrary: c c' ss)
  case (Cons x xs)
  obtain r e where x: "x = (r, e)" by fastforce
  obtain s c1 where s: "stamp r e c = (s, c1)" by fastforce
  obtain ss1 c2 where ss: "stamps xs c1 = (ss1, c2)" by fastforce
  have e: "ss = s # ss1" "c' = c2" using Cons.prems x s ss by simp_all
  note ih = Cons.IH [OF ss]
  show ?case
    by (cases rule: stamp_cases [OF s, case_names start cont stop plain]) (use ih e in simp_all)
qed simp

text \<open>C35: Lag episodes alternate and are accounted for: over any run of rows from a fresh clock, the edges
  are started and ended in turn, beginning with a start, the clock is lagging exactly when there is
  one more start than end, and the counter is the number of corrected rows.\<close>

theorem lag_episodes_alternate:
  "case stamps xs (newRowClock th) of (ss, c) \<Rightarrow>
     edges_ok False (map st_edge ss) \<and> rc_correctedRows c = length (filter st_corrected ss) \<and>
     length (filter (\<lambda>s. st_edge s = LagStarted) ss) =
       length (filter (\<lambda>s. st_edge s = LagEnded) ss) + (if rc_lagging c then 1 else 0)"
  using stamps_account [of xs "newRowClock th"] by (auto simp: newRowClock_def split: prod.split)

text \<open>The 64-bit products and differences of the rule stay in range for every event time up to the year
  2262 and every receive time that is not before 1970, so the model's unbounded integers compute
  what the machine does.\<close>

theorem stamp_in_range:
  assumes "0 \<le> recv" "in_i64 recv" "0 \<le> ev" "ev \<le> 9223372036854" "0 < th" "th \<le> 3600000"
  shows "in_i64 (ev * 1000000) \<and> in_i64 (ev * 1000000 - recv) \<and> in_i64 (th * 1000000) \<and>
    in_i64 (st_timeUtcNs (stampRowTime recv ev th)) \<and> in_i64 (st_lagMs (stampRowTime recv ev th))"
proof -
  have b: "in_i64 (ev * 1000000)" "in_i64 (ev * 1000000 - recv)" "in_i64 (th * 1000000)"
    using assms by (simp_all add: in_i64_def)
  have "\<bar>(ev * 1000000 - recv) sdiv 1000000\<bar> \<le> \<bar>ev * 1000000 - recv\<bar>"
    by (rule sdiv_abs_le) simp
  moreover have "\<bar>ev * 1000000 - recv\<bar> < 2 ^ 63" using assms b by (auto simp: in_i64_def abs_less_iff)
  ultimately have "\<bar>(ev * 1000000 - recv) sdiv 1000000\<bar> < 2 ^ 63" by linarith
  then have "in_i64 (st_lagMs (stampRowTime recv ev th))"
    by (auto simp: stampRowTime_def Let_def in_i64_def abs_less_iff)
  with b assms stampRowTime_time [of recv ev th] show ?thesis by (auto simp: in_i64_def)
qed

lemma stamp_in_range_witness: "in_i64 (1760000000000 * 1000000 - 1760000000000000000)"
  using stamp_in_range [of 1760000000000000000 1760000000000 2000] by (simp add: in_i64_def)

end
