(* ===== verification/Quote_Handler.thy ===== *)
theory Quote_Handler
  imports Order_Book_Machine Snapshot_Scheduler Snapshot_Worker Fh_Stats Row_Clock
begin

text \<open>
  \<open>cpp/src/quote_feed_handler.cpp\<close> and \<open>cpp/include/quote_feed_handler.hpp\<close>: the quote handler. It composes the
  book manager, the snapshot scheduler and worker, the row clock and the tickerplant publisher.

  The state is the record \<open>QuoteHandler\<close>; every method that changes state is a function of it. A method that
  publishes also takes the tickerplant's \<open>io\<close> and world, and returns \<open>None\<close> when the reconnect loop of
  \<open>publish\<close> does not return. What a method reads from the environment (the steady clock in milliseconds
  for the scheduler and in nanoseconds for the books, the time a row took to build, the system clock at
  the publication, the random jitter) is the record \<open>Readings\<close>, one per publication in a loop.

  The WebSocket and TLS are left out: \<open>onMessage\<close> is the body of the message loop for one message that was read,
  and \<open>beginConnection\<close> what \<open>runWebSocketLoop\<close> does before it connects. Log lines are left out.
\<close>

section \<open>State\<close>

record QuoteHandler =
  qh_symbolsLower :: "string list"
  qh_cfg :: QuoteMarketConfig
  qh_books :: OrderBookManager
  qh_tp :: TpPublisher
  qh_fhSeqNo :: int
  qh_reconnectAttempt :: nat
  qh_rest :: RestClient
  qh_worker :: SnapshotWorker
  qh_latestRequestId :: "nat list"
  qh_scheduler :: SnapshotScheduler
  qh_requestedAtMs :: "int list"
  qh_sequenceGaps :: nat
  qh_resyncs :: nat
  qh_snapshotFailures :: nat
  qh_wsReconnects :: nat
  qh_rowClock :: RowClock
  qh_startTime :: int
  qh_msgsReceived :: nat
  qh_msgsPublished :: nat
  qh_lastMsgTime :: int
  qh_lastPubTime :: int
  qh_connState :: string
  qh_lastParseUs :: int
  qh_parseFailures :: nat

definition SNAPSHOT_TIMEOUT_MS :: int where
  "SNAPSHOT_TIMEOUT_MS = 30000"

record Readings =
  rd_steadyMs :: int
  rd_requestMs :: int
  rd_checkNs :: int
  rd_recordNs :: int
  rd_sendUs :: int
  rd_pubNs :: int
  rd_jitter :: rat

text \<open>\<open>::toupper\<close> in the C locale.\<close>

definition upper :: "char \<Rightarrow> char" where
  "upper c = (let n = of_char c :: nat in if 97 \<le> n \<and> n \<le> 122 then char_of (n - 32) else c)"

definition newQuoteHandler :: "string list \<Rightarrow> QuoteMarketConfig \<Rightarrow> string \<Rightarrow> int \<Rightarrow> int \<Rightarrow> int \<Rightarrow> QuoteHandler" where
  "newQuoteHandler symbols market tpHost tpPort startNs steadyNs =
     (let tpCfg = defaultTpConfig\<lparr>tc_host := tpHost, tc_port := tpPort, tc_table := qm_tpTable market,
            tc_width := int (quoteRowWidth (nat (qm_depth market)) (qm_publishTransactTime market)),
            tc_sessionId := startNs\<rparr>;
          symbolsUpper = map (map upper) symbols;
          bookCfg = defaultBookConfig\<lparr>bc_snapshotLimit := nat (qm_snapshotLimit market), bc_sync := qm_sync market,
            bc_depth := nat (qm_depth market)\<rparr>;
          n = length symbols
      in \<lparr>qh_symbolsLower = symbols, qh_cfg = market, qh_books = newManager symbolsUpper bookCfg steadyNs,
          qh_tp = newTpPublisher tpCfg, qh_fhSeqNo = 0, qh_reconnectAttempt = 0,
          qh_rest = \<lparr>rc_host = qm_restHost market, rc_port = qm_restPort market, rc_path = qm_restPath market\<rparr>,
          qh_worker = newWorker, qh_latestRequestId = replicate n 0,
          qh_scheduler = newScheduler n (defaultSchedulerConfig\<lparr>sc_weightPerRequest := qm_snapshotWeight market,
            sc_weightLimitPerMin := qm_weightLimitPerMin market\<rparr>),
          qh_requestedAtMs = replicate n 0, qh_sequenceGaps = 0, qh_resyncs = 0, qh_snapshotFailures = 0,
          qh_wsReconnects = 0, qh_rowClock = newRowClock (qm_clockLagMs market), qh_startTime = startNs,
          qh_msgsReceived = 0, qh_msgsPublished = 0, qh_lastMsgTime = 0, qh_lastPubTime = 0,
          qh_connState = ''disconnected'', qh_lastParseUs = 0, qh_parseFailures = 0\<rparr>)"

definition buildDepthStreamPath :: "QuoteHandler \<Rightarrow> string" where
  "buildDepthStreamPath h = qm_wsPathPrefix (qh_cfg h) @ buildStreamPath (qh_symbolsLower h) (qm_streamSuffix (qh_cfg h))"

section \<open>Book access\<close>

definition numSymbols :: "QuoteHandler \<Rightarrow> nat" where
  "numSymbols h = length (om_books (qh_books h))"

definition book :: "QuoteHandler \<Rightarrow> nat \<Rightarrow> SymBook" where
  "book h i = om_books (qh_books h) ! i"

definition book_cfg :: "QuoteHandler \<Rightarrow> BookConfig" where
  "book_cfg h = om_cfg (qh_books h)"

definition getSymbol :: "QuoteHandler \<Rightarrow> nat \<Rightarrow> string" where
  "getSymbol h i = om_idxToSym (qh_books h) ! i"

definition upd_book ::
    "nat \<Rightarrow> (BookCounters \<Rightarrow> SymBook \<Rightarrow> 'r \<times> BookCounters \<times> SymBook) \<Rightarrow> QuoteHandler \<Rightarrow> 'r \<times> QuoteHandler" where
  "upd_book i f h = (case on_book (qh_books h) i f of (r, m) \<Rightarrow> (r, h\<lparr>qh_books := m\<rparr>))"

definition map_book :: "nat \<Rightarrow> (SymBook \<Rightarrow> SymBook) \<Rightarrow> QuoteHandler \<Rightarrow> QuoteHandler" where
  "map_book i f h = snd (upd_book i (\<lambda>c s. ((), c, f s)) h)"

section \<open>Publishing\<close>

definition publishQuote ::
    "'w TpIo \<Rightarrow> Readings \<Rightarrow> BookQuote \<Rightarrow> QuoteHandler \<Rightarrow> 'w \<Rightarrow> (QuoteHandler \<times> 'w) option" where
  "publishQuote io rd quote h w =
     (let withT = qm_publishTransactTime (qh_cfg h);
          (st, rc) = stamp (q_fhRecvTimeUtcNs quote) (q_exchEventTimeMs quote) (qh_rowClock h);
          row = buildQuoteRow quote (st_timeUtcNs st) (qh_lastParseUs h) 0 withT;
          row' = row[quoteSendUsIndex (nat (qm_depth (qh_cfg h))) withT := KLong (rd_sendUs rd)]
      in case publish io row' (q_fhSeqNo quote) (qh_tp h) w of
           None \<Rightarrow> None
         | Some (ok, tp, w') \<Rightarrow>
             Some (h\<lparr>qh_rowClock := rc, qh_tp := tp,
                     qh_connState := (if connected tp then ''connected'' else ''disconnected''),
                     qh_lastPubTime := rd_pubNs rd, qh_msgsPublished := qh_msgsPublished h + 1\<rparr>, w'))"

definition maybePublish ::
    "'w TpIo \<Rightarrow> Readings \<Rightarrow> nat \<Rightarrow> int \<Rightarrow> QuoteHandler \<Rightarrow> 'w \<Rightarrow> (QuoteHandler \<times> 'w) option" where
  "maybePublish io rd i recvNs h w =
     (let quote = getQuote (book_cfg h) (getSymbol h i) (book h i) recvNs (qh_fhSeqNo h + 1)
      in if shouldPublish (rd_checkNs rd) (book h i) quote then
           (let h1 = h\<lparr>qh_fhSeqNo := qh_fhSeqNo h + 1\<rparr>;
                quote' = quote\<lparr>q_fhSeqNo := qh_fhSeqNo h1\<rparr>
            in case publishQuote io rd quote' h1 w of None \<Rightarrow> None
               | Some (h2, w') \<Rightarrow> Some (map_book i (recordPublish (rd_recordNs rd) quote') h2, w'))
         else Some (h, w))"

definition publishInvalid ::
    "'w TpIo \<Rightarrow> Readings \<Rightarrow> nat \<Rightarrow> int \<Rightarrow> QuoteHandler \<Rightarrow> 'w \<Rightarrow> (QuoteHandler \<times> 'w) option" where
  "publishInvalid io rd i recvNs h w =
     (let h1 = h\<lparr>qh_fhSeqNo := qh_fhSeqNo h + 1\<rparr>;
          quote = (emptyQuote (nat (qm_depth (qh_cfg h))))\<lparr>q_sym := getSymbol h i, q_isValid := False,
            q_fhRecvTimeUtcNs := recvNs, q_fhSeqNo := qh_fhSeqNo h1\<rparr>
      in case publishQuote io rd quote h1 w of None \<Rightarrow> None
         | Some (h2, w') \<Rightarrow> Some (map_book i (recordPublish (rd_recordNs rd) quote) h2, w'))"

text \<open>The loop of \<open>checkPublishTimeouts\<close> over the symbols that are due.\<close>

fun timeoutLoop ::
    "'w TpIo \<Rightarrow> (nat \<Rightarrow> Readings) \<Rightarrow> int \<Rightarrow> nat list \<Rightarrow> QuoteHandler \<Rightarrow> 'w \<Rightarrow> (QuoteHandler \<times> 'w) option" where
  "timeoutLoop io rd recvNs [] h w = Some (h, w)"
| "timeoutLoop io rd recvNs (i # is) h w =
     (let quote = getQuote (book_cfg h) (getSymbol h i) (book h i) recvNs (qh_fhSeqNo h + 1)
      in if \<not> q_isValid quote then timeoutLoop io rd recvNs is h w
         else case publishQuote io (rd i) quote (h\<lparr>qh_fhSeqNo := qh_fhSeqNo h + 1\<rparr>) w of None \<Rightarrow> None
           | Some (h1, w1) \<Rightarrow> timeoutLoop io rd recvNs is (map_book i (recordPublish (rd_recordNs (rd i)) quote) h1) w1)"

definition checkPublishTimeouts ::
    "'w TpIo \<Rightarrow> (nat \<Rightarrow> Readings) \<Rightarrow> int \<Rightarrow> int \<Rightarrow> QuoteHandler \<Rightarrow> 'w \<Rightarrow> (QuoteHandler \<times> 'w) option" where
  "checkPublishTimeouts io rd nowNs recvNs h w =
     timeoutLoop io rd recvNs (getTimeoutPublishNeeded nowNs (qh_books h)) h w"

section \<open>Snapshots\<close>

definition requestSnapshot :: "Readings \<Rightarrow> nat \<Rightarrow> QuoteHandler \<Rightarrow> QuoteHandler" where
  "requestSnapshot rd i h =
     (let h1 = (map_book i (setSnapshotRequested True) h)\<lparr>qh_requestedAtMs := (qh_requestedAtMs h)[i := rd_requestMs rd]\<rparr>;
          (rid, wk) = enqueueRequest i (getSymbol h i) (qh_worker h1)
      in h1\<lparr>qh_worker := wk, qh_latestRequestId := (qh_latestRequestId h1)[i := rid]\<rparr>)"

text \<open>Ask the scheduler, and request a snapshot (after \<open>before\<close>) if it says yes.\<close>

definition tryRequest :: "Readings \<Rightarrow> (SymBook \<Rightarrow> SymBook) \<Rightarrow> nat \<Rightarrow> QuoteHandler \<Rightarrow> QuoteHandler" where
  "tryRequest rd before i h =
     (case tryAcquire i (rd_steadyMs rd) (qh_scheduler h) of (ok, sc) \<Rightarrow>
        let h1 = h\<lparr>qh_scheduler := sc\<rparr>
        in if ok then requestSnapshot rd i (map_book i before h1) else h1)"

text \<open>One request that got no result in time.\<close>

definition expireRequest :: "int \<Rightarrow> (nat \<Rightarrow> rat) \<Rightarrow> nat \<Rightarrow> QuoteHandler \<Rightarrow> QuoteHandler" where
  "expireRequest nowMs jitter i h =
     (if qh_requestedAtMs h ! i \<noteq> 0 \<and> SNAPSHOT_TIMEOUT_MS < nowMs - qh_requestedAtMs h ! i then
        let h1 = h\<lparr>qh_latestRequestId := (qh_latestRequestId h)[i := Suc (qh_latestRequestId h ! i)],
                   qh_requestedAtMs := (qh_requestedAtMs h)[i := 0]\<rparr>;
            h2 = snd (upd_book i (\<lambda>c s. ((), cancelRefresh c s)) h1);
            h3 = map_book i (setSnapshotRequested False) h2
        in h3\<lparr>qh_scheduler := onFailure i nowMs 0 0 (-1) (jitter i) (qh_scheduler h3),
              qh_snapshotFailures := qh_snapshotFailures h3 + 1\<rparr>
      else h)"

text \<open>The \<open>switch\<close> over what the book did with a snapshot.\<close>

definition afterSnapshot :: "int \<Rightarrow> rat \<Rightarrow> nat \<Rightarrow> SnapshotOutcome \<Rightarrow> QuoteHandler \<Rightarrow> QuoteHandler" where
  "afterSnapshot nowMs j i outcome h =
     (case outcome of
        SYNCED \<Rightarrow> h\<lparr>qh_scheduler := onSynced i (qh_scheduler h)\<rparr>
      | AWAITING_BRIDGE \<Rightarrow> h
      | SYNC_FAILED \<Rightarrow> h\<lparr>qh_resyncs := qh_resyncs h + 1, qh_scheduler := onFailure i nowMs 0 0 (-1) j (qh_scheduler h)\<rparr>
      | REFRESHED \<Rightarrow> h\<lparr>qh_scheduler := onSynced i (qh_scheduler h)\<rparr>
      | REFRESH_AWAITING_BRIDGE \<Rightarrow> h\<lparr>qh_scheduler := onSynced i (qh_scheduler h)\<rparr>
      | REFRESH_FAILED \<Rightarrow> h\<lparr>qh_scheduler := onFailure i nowMs 0 0 (-1) j (qh_scheduler h)\<rparr>
      | IGNORED \<Rightarrow> h)"

definition applyResult :: "int \<Rightarrow> (nat \<Rightarrow> rat) \<Rightarrow> SnapshotResult \<Rightarrow> QuoteHandler \<Rightarrow> QuoteHandler" where
  "applyResult nowMs jitter r h =
     (let i = sr_symIdx r; d = sr_data r
      in if sr_requestId r < qh_latestRequestId h ! i then h
         else let h1 = h\<lparr>qh_requestedAtMs := (qh_requestedAtMs h)[i := 0]\<rparr>
         in if \<not> sd_success d then
              let h2 = h1\<lparr>qh_snapshotFailures := qh_snapshotFailures h1 + 1,
                     qh_scheduler := onFailure i nowMs (sd_httpStatus d) (sd_retryAfterSec d) (sd_usedWeight1m d)
                       (jitter (sr_requestId r)) (qh_scheduler h1)\<rparr>;
                  h3 = snd (upd_book i (\<lambda>c s. ((), cancelRefresh c s)) h2)
              in map_book i (setSnapshotRequested False) h3
            else
              let h2 = h1\<lparr>qh_scheduler := onFetchOk nowMs (sd_usedWeight1m d) (qh_scheduler h1)\<rparr>;
                  (outcome, h3) = upd_book i (onSnapshot (book_cfg h) (sd_lastUpdateId d) (sd_bids d) (sd_asks d)) h2
              in afterSnapshot nowMs (jitter (sr_requestId r)) i outcome h3)"

definition applySnapshotResults :: "int \<Rightarrow> (nat \<Rightarrow> rat) \<Rightarrow> (nat \<Rightarrow> rat) \<Rightarrow> QuoteHandler \<Rightarrow> QuoteHandler" where
  "applySnapshotResults nowMs jitterE jitterR h =
     (let h1 = fold (expireRequest nowMs jitterE) [0..<length (qh_requestedAtMs h)] h;
          (results, wk) = drainResults (qh_worker h1)
      in fold (applyResult nowMs jitterR) results (h1\<lparr>qh_worker := wk\<rparr>))"


section \<open>Messages\<close>

text \<open>The delta after the branch test: the \<open>SYNCING\<close> and \<open>VALID\<close> cases of \<open>handleDelta\<close>.\<close>

definition handleLive ::
    "'w TpIo \<Rightarrow> Readings \<Rightarrow> nat \<Rightarrow> BufferedDelta \<Rightarrow> int \<Rightarrow> QuoteHandler \<Rightarrow> 'w \<Rightarrow> (QuoteHandler \<times> 'w) option" where
  "handleLive io rd i d recvNs h w =
     (let state = sb_state (book h i)
      in case upd_book i (applyDelta (book_cfg h) d) h of
           (False, h1) \<Rightarrow>
             (let h2 = (if state = VALID then h1\<lparr>qh_sequenceGaps := qh_sequenceGaps h1 + 1\<rparr>
                        else h1\<lparr>qh_scheduler := onFailure i (rd_steadyMs rd) 0 0 (-1) (rd_jitter rd) (qh_scheduler h1)\<rparr>)
              in case publishInvalid io rd i recvNs (h2\<lparr>qh_resyncs := qh_resyncs h2 + 1\<rparr>) w of None \<Rightarrow> None
                 | Some (h3, w') \<Rightarrow> Some (map_book i reset h3, w'))
         | (True, h1) \<Rightarrow>
             (if \<not> isValid (book h1 i) then Some (h1, w)
              else let h2 = (if state = SYNCING then h1\<lparr>qh_scheduler := onSynced i (qh_scheduler h1)\<rparr> else h1)
                   in case maybePublish io rd i recvNs h2 w of None \<Rightarrow> None
                      | Some (h3, w') \<Rightarrow>
                          Some (if wantsRefresh (book_cfg h3) (book h3 i) then tryRequest rd beginRefresh i h3 else h3, w')))"

definition handleDelta ::
    "'w TpIo \<Rightarrow> Readings \<Rightarrow> nat \<Rightarrow> BufferedDelta \<Rightarrow> int \<Rightarrow> QuoteHandler \<Rightarrow> 'w \<Rightarrow> (QuoteHandler \<times> 'w) option" where
  "handleDelta io rd i d recvNs h w =
     (case sb_state (book h i) of
        INIT \<Rightarrow>
          (let h1 = snd (upd_book i (bufferDelta d) h)
           in Some (if needsSnapshot (book h1 i) then tryRequest rd (\<lambda>s. s) i h1 else h1, w))
      | SYNCING \<Rightarrow> handleLive io rd i d recvNs h w
      | VALID \<Rightarrow> handleLive io rd i d recvNs h w
      | INVALID \<Rightarrow> Some (map_book i reset h, w))"

text \<open>The fields of a depth event: \<open>None\<close> when one is missing or has the wrong type.\<close>

definition parseDepth :: "DepthSync \<Rightarrow> Json \<Rightarrow> (string \<times> BufferedDelta) option" where
  "parseDepth sync doc =
     (let (d0, root) = obj ''data'' (newReader doc);
          (symField, d1) = rd_string ''s'' d0;
          (Uf, d2) = rd_int64 ''U'' d1;
          (uf, d3) = rd_int64 ''u'' d2;
          (Ef, d4) = rd_int64 ''E'' d3;
          (bArr, d5) = rd_array ''b'' d4;
          (aArr, d6) = rd_array ''a'' d5;
          (puf, d7) = (if sync = Futures then rd_int64 ''pu'' d6 else (None, d6));
          (Tf, d8) = (if sync = Futures then rd_int64 ''T'' d7 else (None, d7))
      in if hasError d8 then None
         else Some (the symField,
           \<lparr>firstUpdateId = the Uf, finalUpdateId = the uf, eventTimeMs = the Ef,
            bids = levels_of (the bArr), asks = levels_of (the aArr),
            prevFinalUpdateId = (if sync = Futures then the puf else -1),
            transactTimeMs = (if sync = Futures then the Tf else 0)\<rparr>))"

definition processMessage ::
    "'w TpIo \<Rightarrow> Readings \<Rightarrow> json_parser \<Rightarrow> string \<Rightarrow> int \<Rightarrow> QuoteHandler \<Rightarrow> 'w \<Rightarrow> (QuoteHandler \<times> 'w) option" where
  "processMessage io rd parse msg recvNs h w =
     (case parse (c_str msg) of
        Inl e \<Rightarrow> Some (h\<lparr>qh_parseFailures := qh_parseFailures h + 1\<rparr>, w)
      | Inr doc \<Rightarrow>
          (case parseDepth (qm_sync (qh_cfg h)) doc of
             None \<Rightarrow> Some (h\<lparr>qh_parseFailures := qh_parseFailures h + 1\<rparr>, w)
           | Some (sy, d) \<Rightarrow>
               (let symIdx = getSymbolIndex (qh_books h) sy
                in if symIdx < 0 then Some (h, w)
                   else handleDelta io rd (nat symIdx) d recvNs
                          (h\<lparr>qh_rowClock := noteEvent (eventTimeMs d) (qh_rowClock h)\<rparr>) w)))"

text \<open>The body of the message loop for a message that was read at \<open>recvNs\<close>; parsing took \<open>parseUs\<close>.\<close>

definition onMessage ::
    "'w TpIo \<Rightarrow> Readings \<Rightarrow> (nat \<Rightarrow> Readings) \<Rightarrow> int \<Rightarrow> int \<Rightarrow> json_parser \<Rightarrow> string \<Rightarrow> int \<Rightarrow> QuoteHandler \<Rightarrow> 'w
      \<Rightarrow> (QuoteHandler \<times> 'w) option" where
  "onMessage io rd rdT parseUs nowNs parse msg recvNs h w =
     (let h1 = h\<lparr>qh_lastMsgTime := recvNs, qh_msgsReceived := qh_msgsReceived h + 1\<rparr>
      in case processMessage io rd parse msg recvNs h1 w of None \<Rightarrow> None
         | Some (h2, w2) \<Rightarrow> checkPublishTimeouts io rdT nowNs recvNs (h2\<lparr>qh_lastParseUs := parseUs\<rparr>) w2)"

section \<open>Connections\<close>

text \<open>One invalid row for each symbol whose last published row was valid.\<close>

fun invalidLoop ::
    "'w TpIo \<Rightarrow> (nat \<Rightarrow> Readings) \<Rightarrow> int \<Rightarrow> nat list \<Rightarrow> QuoteHandler \<Rightarrow> 'w \<Rightarrow> (QuoteHandler \<times> 'w) option" where
  "invalidLoop io rd nowNs [] h w = Some (h, w)"
| "invalidLoop io rd nowNs (i # is) h w =
     (if lastPublishedValid (book h i) then
        (case publishInvalid io (rd i) i nowNs h w of None \<Rightarrow> None | Some (h1, w1) \<Rightarrow> invalidLoop io rd nowNs is h1 w1)
      else invalidLoop io rd nowNs is h w)"

definition giveUpRequest :: "nat \<Rightarrow> QuoteHandler \<Rightarrow> QuoteHandler" where
  "giveUpRequest i h =
     (if qh_requestedAtMs h ! i \<noteq> 0
      then h\<lparr>qh_latestRequestId := (qh_latestRequestId h)[i := Suc (qh_latestRequestId h ! i)],
             qh_requestedAtMs := (qh_requestedAtMs h)[i := 0]\<rparr>
      else h)"

definition beginConnection ::
    "'w TpIo \<Rightarrow> (nat \<Rightarrow> Readings) \<Rightarrow> int \<Rightarrow> QuoteHandler \<Rightarrow> 'w \<Rightarrow> (QuoteHandler \<times> 'w) option" where
  "beginConnection io rd nowNs h0 w =
     (let h = h0\<lparr>qh_connState := ''connecting''\<rparr>
      in case (if connected (qh_tp h) then invalidLoop io rd nowNs [0..<numSymbols h] h w else Some (h, w)) of
           None \<Rightarrow> None
         | Some (h1, w1) \<Rightarrow>
             (let h2 = h1\<lparr>qh_books := resetAll (qh_books h1)\<rparr>
              in Some (fold giveUpRequest [0..<length (qh_latestRequestId h2)] h2, w1)))"

text \<open>Connected: the backoff starts over. Lost: one more reconnect, and the wait before it.\<close>

definition connectionUp :: "QuoteHandler \<Rightarrow> QuoteHandler" where
  "connectionUp h = h\<lparr>qh_connState := ''connected'', qh_reconnectAttempt := 0\<rparr>"

text \<open>The message loop is left because the handler is stopping.\<close>

definition connectionLeft :: "QuoteHandler \<Rightarrow> QuoteHandler" where
  "connectionLeft h = h\<lparr>qh_connState := ''disconnected''\<rparr>"

definition INITIAL_BACKOFF_MS :: int where "INITIAL_BACKOFF_MS = 1000"
definition MAX_BACKOFF_MS :: int where "MAX_BACKOFF_MS = 8000"

definition connectionLost :: "QuoteHandler \<Rightarrow> int \<times> QuoteHandler" where
  "connectionLost h =
     (min (backoff_loop (qh_reconnectAttempt h) MAX_BACKOFF_MS INITIAL_BACKOFF_MS) MAX_BACKOFF_MS,
      h\<lparr>qh_wsReconnects := qh_wsReconnects h + 1, qh_reconnectAttempt := qh_reconnectAttempt h + 1\<rparr>)"

section \<open>Health\<close>

definition quoteStats :: "QuoteHandler \<Rightarrow> (string \<times> int) list" where
  "quoteStats h =
     (let c = om_ctr (qh_books h); s = qh_scheduler h; p = qh_tp h
      in [(''msgsReceived'', int (qh_msgsReceived h)), (''rowsPublished'', int (qh_msgsPublished h)),
          (''wsReconnects'', int (qh_wsReconnects h)), (''bookGaps'', int (qh_sequenceGaps h)),
          (''resyncs'', int (qh_resyncs h)), (''snapshotRequests'', int (sch_requests s)),
          (''snapshotFailures'', int (qh_snapshotFailures h)), (''rateLimitPauses'', int (sch_rateLimitPauses s)),
          (''bufferOverflows'', int (bufferOverflows c)), (''depthRefreshes'', int (depthRefreshes c)),
          (''refreshFailures'', int (refreshFailures c)), (''depthExhausted'', int (depthExhaustedEvents c)),
          (''tpReconnects'', int (p_reconnects p)), (''rowsResent'', int (p_rowsResent p)),
          (''rowsUnresendable'', p_rowsUnresendable p), (''clockLagRows'', int (rc_correctedRows (qh_rowClock h)))])"

definition healthRow :: "int \<Rightarrow> QuoteHandler \<Rightarrow> krow" where
  "healthRow now h =
     (let ts = (\<lambda>t. KTimestamp (t - KDB_EPOCH_OFFSET_NS))
      in [ts now, KSym (qm_healthName (qh_cfg h)), ts (qh_startTime h),
          KLong ((now - qh_startTime h) sdiv 1000000000), KLong (int (qh_msgsReceived h)),
          KLong (int (qh_msgsPublished h)), ts (qh_lastMsgTime h), ts (qh_lastPubTime h),
          KSym (qh_connState h), KInt (int (length (qh_symbolsLower h)))])"

definition publishHealth :: "'w TpIo \<Rightarrow> int \<Rightarrow> QuoteHandler \<Rightarrow> 'w \<Rightarrow> 'w" where
  "publishHealth io now h w =
     (if \<not> connected (qh_tp h) then w
      else let w1 = snd (io_async io (p_handle (qh_tp h)) ''.u.upd'' [KSym ''health_feed_handler'', KMixed (healthRow now h)] w)
           in sendFhStats io (p_handle (qh_tp h)) (qm_tpTable (qh_cfg h)) (quoteStats h) w1)"


section \<open>Frames\<close>

lemma upd_book_fields [simp]:
  "qh_symbolsLower (snd (upd_book i f h)) = qh_symbolsLower h" "qh_cfg (snd (upd_book i f h)) = qh_cfg h"
  "qh_tp (snd (upd_book i f h)) = qh_tp h" "qh_fhSeqNo (snd (upd_book i f h)) = qh_fhSeqNo h"
  "qh_worker (snd (upd_book i f h)) = qh_worker h" "qh_latestRequestId (snd (upd_book i f h)) = qh_latestRequestId h"
  "qh_scheduler (snd (upd_book i f h)) = qh_scheduler h" "qh_requestedAtMs (snd (upd_book i f h)) = qh_requestedAtMs h"
  "qh_rowClock (snd (upd_book i f h)) = qh_rowClock h" "qh_lastParseUs (snd (upd_book i f h)) = qh_lastParseUs h"
  "qh_rest (snd (upd_book i f h)) = qh_rest h"
  by (simp_all add: upd_book_def on_book_def split: prod.split)

lemma upd_book_books:
  assumes "f (om_ctr (qh_books h)) (book h i) = (r, c, s)"
  shows "fst (upd_book i f h) = r"
    "qh_books (snd (upd_book i f h)) = (qh_books h)\<lparr>om_ctr := c, om_books := (om_books (qh_books h))[i := s]\<rparr>"
  using assms by (simp_all add: upd_book_def on_book_def book_def)

text \<open>What never changes: the configuration, the symbols, the lengths of the tables.\<close>

definition same_wiring :: "QuoteHandler \<Rightarrow> QuoteHandler \<Rightarrow> bool" where
  "same_wiring h h' \<longleftrightarrow> qh_cfg h' = qh_cfg h \<and> book_cfg h' = book_cfg h \<and> numSymbols h' = numSymbols h \<and>
     om_symToIdx (qh_books h') = om_symToIdx (qh_books h) \<and> om_idxToSym (qh_books h') = om_idxToSym (qh_books h) \<and>
     length (qh_latestRequestId h') = length (qh_latestRequestId h) \<and>
     length (qh_requestedAtMs h') = length (qh_requestedAtMs h)"

lemma same_wiring_refl [simp]: "same_wiring h h"
  by (simp add: same_wiring_def)

lemma same_wiring_trans: "same_wiring h h1 \<Longrightarrow> same_wiring h1 h2 \<Longrightarrow> same_wiring h h2"
  by (simp add: same_wiring_def)

lemma upd_book_wiring [simp]: "same_wiring h (snd (upd_book i f h))"
  by (simp add: same_wiring_def upd_book_def on_book_def book_cfg_def numSymbols_def split: prod.split)

lemma map_book_wiring [simp]: "same_wiring h (map_book i f h)"
  by (simp add: map_book_def)

lemma book_upd_book:
  assumes "f (om_ctr (qh_books h)) (book h i) = (r, c, s)" "i < numSymbols h"
  shows "book (snd (upd_book i f h)) j = (if j = i then s else book h j)"
  using assms(2) upd_book_books(2) [of f h i, OF assms(1)] by (simp add: book_def numSymbols_def)

lemma book_map_book: "i < numSymbols h \<Longrightarrow> book (map_book i f h) j = (if j = i then f (book h i) else book h j)"
  unfolding map_book_def by (rule book_upd_book) simp_all

section \<open>The books\<close>

text \<open>
  The invariant of the books: each is a reachable state of the book machine, a symbol that waits for a
  snapshot has the time of its request, and, except for the symbols of \<open>E\<close>, the last published row of a book
  that is not \<open>VALID\<close> is not a valid one.
\<close>

definition pub_ok :: "SymBook \<Rightarrow> bool" where
  "pub_ok s \<longleftrightarrow> sb_state s = VALID \<or> \<not> lastPublishedValid s"

definition wired :: "QuoteHandler \<Rightarrow> bool" where
  "wired h \<longleftrightarrow> bc_sync (book_cfg h) = qm_sync (qh_cfg h) \<and> bc_depth (book_cfg h) = nat (qm_depth (qh_cfg h)) \<and>
     cfg_ok (book_cfg h) \<and> length (qh_latestRequestId h) = numSymbols h \<and> length (qh_requestedAtMs h) = numSymbols h \<and>
     (\<forall>sy i. om_symToIdx (qh_books h) sy = Some i \<longrightarrow> i < numSymbols h)"

definition books_ok :: "(nat \<Rightarrow> int \<Rightarrow> exchange_book) \<Rightarrow> bool \<Rightarrow> nat set \<Rightarrow> QuoteHandler \<Rightarrow> bool" where
  "books_ok X ord E h \<longleftrightarrow> (\<forall>i < numSymbols h.
     book_reach (book_cfg h) (X i) ord (om_ctr (qh_books h), book h i) \<and>
     (sb_snapshotRequested (book h i) \<longrightarrow> qh_requestedAtMs h ! i \<noteq> 0) \<and> (i \<in> E \<or> pub_ok (book h i)))"

lemma wired_same: "wired h \<Longrightarrow> same_wiring h h' \<Longrightarrow> wired h'"
  by (auto simp: wired_def same_wiring_def)

lemma books_ok_frame:
  assumes "books_ok X ord E h" "qh_books h' = qh_books h" "qh_requestedAtMs h' = qh_requestedAtMs h" "E \<subseteq> E'"
  shows "books_ok X ord E' h'"
  using assms by (auto simp: books_ok_def numSymbols_def book_def book_cfg_def)

lemma books_okD:
  assumes "books_ok X ord E h" "i < numSymbols h"
  shows "book_reach (book_cfg h) (X i) ord (om_ctr (qh_books h), book h i)"
    "sb_snapshotRequested (book h i) \<Longrightarrow> qh_requestedAtMs h ! i \<noteq> 0" "i \<notin> E \<Longrightarrow> pub_ok (book h i)"
  using assms by (auto simp: books_ok_def)

text \<open>A step of one book keeps the others; only the shared counters move.\<close>

lemma upd_book_ok:
  assumes "books_ok X ord E h" "i < numSymbols h" "f (om_ctr (qh_books h)) (book h i) = (r, c, s)"
    and "book_step (book_cfg h) (X i) ord (om_ctr (qh_books h), book h i) (c, s)"
    and "sb_snapshotRequested s \<Longrightarrow> qh_requestedAtMs h ! i \<noteq> 0" "i \<in> E' \<or> pub_ok s" "E \<subseteq> insert i E'"
  shows "books_ok X ord E' (snd (upd_book i f h))"
  unfolding books_ok_def
proof (intro allI impI)
  fix j assume j: "j < numSymbols (snd (upd_book i f h))"
  have w: "numSymbols (snd (upd_book i f h)) = numSymbols h" "book_cfg (snd (upd_book i f h)) = book_cfg h"
    using upd_book_wiring [of h i f] by (simp_all add: same_wiring_def)
  have c: "om_ctr (qh_books (snd (upd_book i f h))) = c" using upd_book_books(2) [of f h i, OF assms(3)] by simp
  note o = books_okD [OF assms(1), of j]
  have "book_reach (book_cfg h) (X j) ord (c, if j = i then s else book h j)"
  proof (cases "j = i")
    case True
    then show ?thesis using reach_step [OF o(1) [unfolded True] assms(4)] j w by simp
  next
    case False
    then show ?thesis using reach_step [OF o(1) step_counters] j w by simp
  qed
  then show "book_reach (book_cfg (snd (upd_book i f h))) (X j) ord
        (om_ctr (qh_books (snd (upd_book i f h))), book (snd (upd_book i f h)) j) \<and>
      (sb_snapshotRequested (book (snd (upd_book i f h)) j) \<longrightarrow> qh_requestedAtMs (snd (upd_book i f h)) ! j \<noteq> 0) \<and>
      (j \<in> E' \<or> pub_ok (book (snd (upd_book i f h)) j))"
    unfolding book_upd_book [of f h i, OF assms(3,2)] c w using assms o j w by auto
qed

lemma map_book_ok:
  assumes "books_ok X ord E h" "i < numSymbols h"
    and "\<And>c. book_step (book_cfg h) (X i) ord (c, book h i) (c, f (book h i))"
    and "sb_snapshotRequested (f (book h i)) \<Longrightarrow> qh_requestedAtMs h ! i \<noteq> 0" "i \<in> E' \<or> pub_ok (f (book h i))"
    and "E \<subseteq> insert i E'"
  shows "books_ok X ord E' (map_book i f h)"
  unfolding map_book_def by (rule upd_book_ok [OF assms(1,2) _ assms(3-6)]) simp


text \<open>What the book operations do to the request flag, the state and the last published row.\<close>

definition book_frame :: "SymBook \<Rightarrow> SymBook \<Rightarrow> bool" where
  "book_frame s s' \<longleftrightarrow> sb_snapshotRequested s' = sb_snapshotRequested s \<and> sb_lastPublished s' = sb_lastPublished s \<and>
     sb_hasPublished s' = sb_hasPublished s \<and> (sb_state s = VALID \<longrightarrow> sb_state s' = VALID)"

lemma book_frame_refl [simp]: "book_frame s s"
  by (simp add: book_frame_def)

lemma book_frame_trans: "book_frame s s1 \<Longrightarrow> book_frame s1 s2 \<Longrightarrow> book_frame s s2"
  by (simp add: book_frame_def)

lemma book_frame_pub_ok: "book_frame s s' \<Longrightarrow> pub_ok s \<Longrightarrow> pub_ok s'"
  by (auto simp: book_frame_def pub_ok_def lastPublishedValid_def)

lemma bufferDelta_frame: "bufferDelta d c s = (r, c', s') \<Longrightarrow> book_frame s s' \<and> sb_state s' = sb_state s"
  by (erule bufferDelta_buf) (simp add: book_frame_def)

lemma applyLive_frame: "applyLive cfg d q c s = (c', s') \<Longrightarrow> book_frame s s'"
  by (cases "sb_rangeClosed s") (auto simp: applyLive_def Let_def book_frame_def)

lemma shadowStep_book_frame: "shadowStep cfg d c s = (c', s') \<Longrightarrow> book_frame s s'"
  by (auto simp: shadowStep_def Let_def book_frame_def split: if_splits prod.splits Verdict.splits)

lemma applyDelta_frame:
  assumes "applyDelta cfg d c s = (ok, c', s')"
  shows "sb_snapshotRequested s' = sb_snapshotRequested s \<and> (ok \<longrightarrow> book_frame s s')"
proof (cases rule: applyDelta_cases [OF assms, case_names refused failed passed])
  case (passed v q c1 s1 r c2 s2)
  have "book_frame s s1" using passed(5) applyLive_frame by (cases "v = APPLY") auto
  moreover have "book_frame s1 s2" using passed(6) bufferDelta_frame by (cases "sb_refreshPending s1") auto
  ultimately have "book_frame s s'" using shadowStep_book_frame [OF passed(7)] by (blast intro: book_frame_trans)
  then show ?thesis by (simp add: book_frame_def)
qed (simp_all add: invalidate_def)

lemma replayLive_requested: "replayLive cfg ds c s = (f, c', s') \<Longrightarrow> sb_snapshotRequested s' = sb_snapshotRequested s"
proof (induction ds arbitrary: c s)
  case (Cons d ds)
  obtain ok c1 s1 where "applyDelta cfg d c s = (ok, c1, s1)" by (metis prod_cases3)
  with Cons applyDelta_frame [OF this] show ?case by (cases ok) auto
qed simp

lemma finishRefresh_requested:
  assumes "finishRefresh cfg i bs as c s = (r, c', s')"
  shows "sb_snapshotRequested s' = sb_snapshotRequested s"
proof -
  obtain failed b q where rep:
      "replayShadow cfg (sb_deltaBuffer s) (loadBook cfg bs as) (loadedSeq i) = (failed, b, q)"
    by (metis prod_cases3)
  show ?thesis by (cases rule: finishRefresh_cases [OF assms rep]) simp_all
qed

lemma onSnapshot_facts:
  assumes "onSnapshot cfg i bs as c s = (r, c', s')"
  shows "\<not> sb_snapshotRequested s' \<and> (pub_ok s \<longrightarrow> pub_ok s')"
proof (cases rule: onSnapshot_cases [OF assms, case_names refresh ignored sync])
  case refresh
  then show ?thesis
    using finishRefresh_frame [OF refresh(3)] finishRefresh_requested [OF refresh(3)] by (simp add: pub_ok_def)
next
  case ignored
  then show ?thesis by (simp add: pub_ok_def lastPublishedValid_def)
next
  case (sync failed s2)
  have "sb_snapshotRequested s2 = False"
    using replayLive_requested [OF sync(3)] by (simp add: applySnapshot_def)
  then show ?thesis using replayLive_published [OF sync(3)] sync(1,2)
    by (simp add: pub_ok_def lastPublishedValid_def applySnapshot_def)
qed

lemma cancelRefresh_facts:
  assumes "cancelRefresh c s = (c', s')"
  shows "(sb_snapshotRequested s' \<longrightarrow> sb_snapshotRequested s) \<and> (pub_ok s \<longrightarrow> pub_ok s')"
  using assms by (auto simp: cancelRefresh_def pub_ok_def lastPublishedValid_def split: if_splits)

section \<open>Each operation keeps the books\<close>

lemma publishQuote_frame:
  assumes "publishQuote io rd q h w = Some (h', w')"
  shows "qh_books h' = qh_books h" "qh_requestedAtMs h' = qh_requestedAtMs h"
    "qh_latestRequestId h' = qh_latestRequestId h" "qh_worker h' = qh_worker h" "qh_cfg h' = qh_cfg h"
    "qh_fhSeqNo h' = qh_fhSeqNo h"
  using assms by (auto simp: publishQuote_def Let_def split: prod.splits option.splits)

lemma publishQuote_same:
  assumes "publishQuote io rd q h w = Some (h', w')"
  shows "same_wiring h h'" "numSymbols h' = numSymbols h" "book h' = book h" "book_cfg h' = book_cfg h"
  using publishQuote_frame [OF assms] by (simp_all add: same_wiring_def numSymbols_def book_cfg_def book_def fun_eq_iff)

text \<open>The tables of the request bookkeeping, and what they share with the worker.\<close>

definition requests :: "QuoteHandler \<Rightarrow> nat list \<times> int list \<times> SnapshotWorker" where
  "requests h = (qh_latestRequestId h, qh_requestedAtMs h, qh_worker h)"

text \<open>A published row is recorded on its book: a quote of that book, or an invalid one.\<close>

lemma published_ok:
  assumes pub: "publishQuote io rd q h1 w = Some (h2, w')"
    and h1: "qh_books h1 = qh_books h" "requests h1 = requests h" "qh_cfg h1 = qh_cfg h"
    and ok: "books_ok X ord E h" "i < numSymbols h"
    and q: "q = getQuote (book_cfg h) sy (book h i) t n \<or> \<not> q_isValid q"
    and E: "i \<in> E' \<or> sb_state (book h i) = VALID \<or> \<not> q_isValid q" "E \<subseteq> insert i E'"
  shows "books_ok X ord E' (map_book i (recordPublish now q) h2) \<and> same_wiring h (map_book i (recordPublish now q) h2) \<and>
    requests (map_book i (recordPublish now q) h2) = requests h \<and>
    book (map_book i (recordPublish now q) h2) i = recordPublish now q (book h i)"
proof -
  note f = publishQuote_frame [OF pub]
  have w: "same_wiring h h2" using h1 f by (simp add: same_wiring_def numSymbols_def book_cfg_def requests_def)
  have b: "book h2 = book h" "numSymbols h2 = numSymbols h" "book_cfg h2 = book_cfg h"
    using h1 f by (simp_all add: book_def numSymbols_def book_cfg_def fun_eq_iff)
  have o: "books_ok X ord E h2" by (rule books_ok_frame [OF ok(1)]) (use h1 f in \<open>simp_all add: requests_def\<close>)
  have "books_ok X ord E' (map_book i (recordPublish now q) h2)"
  proof (rule map_book_ok [OF o])
    show "i < numSymbols h2" using ok(2) b by simp
    show "book_step (book_cfg h2) (X i) ord (c, book h2 i) (c, recordPublish now q (book h2 i))" for c
      using q b by (intro step_publish) simp
    show "sb_snapshotRequested (recordPublish now q (book h2 i)) \<Longrightarrow> qh_requestedAtMs h2 ! i \<noteq> 0"
      using books_okD(2) [OF o] ok(2) b by (simp add: recordPublish_def)
    show "i \<in> E' \<or> pub_ok (recordPublish now q (book h2 i))"
      using E(1) b by (auto simp: pub_ok_def recordPublish_def lastPublishedValid_def)
  qed (rule E(2))
  moreover have "requests (map_book i (recordPublish now q) h2) = requests h"
    using h1 f by (simp add: requests_def map_book_def)
  moreover have "book (map_book i (recordPublish now q) h2) i = recordPublish now q (book h i)"
    using book_map_book [of i h2] ok(2) b by simp
  ultimately show ?thesis using same_wiring_trans [OF w map_book_wiring] by blast
qed


section \<open>The handler's invariant\<close>

definition genuine_result :: "(nat \<Rightarrow> int \<Rightarrow> exchange_book) \<Rightarrow> BookConfig \<Rightarrow> SnapshotResult \<Rightarrow> bool" where
  "genuine_result X cfg r \<longleftrightarrow> (sd_success (sr_data r) \<longrightarrow>
     genuine_snapshot cfg (X (sr_symIdx r)) (sd_lastUpdateId (sr_data r)) (sd_bids (sr_data r)) (sd_asks (sr_data r)))"

text \<open>\<open>P\<close> are results that were drained and not looked at yet.\<close>

definition requests_ok ::
    "(nat \<Rightarrow> int \<Rightarrow> exchange_book) \<Rightarrow> BookConfig \<Rightarrow> SnapshotResult list \<Rightarrow> nat list \<times> int list \<times> SnapshotWorker \<Rightarrow> bool" where
  "requests_ok X cfg P q \<longleftrightarrow> (case q of (latest, since, wk) \<Rightarrow>
     ids_ok wk \<and> table_ok (answer_key ` set P \<union> owed wk) latest since \<and>
     distinct (map (snd \<circ> answer_key) P) \<and> snd ` answer_key ` set P \<inter> snd ` owed wk = {} \<and>
     (\<forall>r \<in> set P \<union> set (bq_q (sw_results wk)). genuine_result X cfg r))"

definition handler_ok ::
    "(nat \<Rightarrow> int \<Rightarrow> exchange_book) \<Rightarrow> bool \<Rightarrow> nat set \<Rightarrow> SnapshotResult list \<Rightarrow> QuoteHandler \<Rightarrow> bool" where
  "handler_ok X ord E P h \<longleftrightarrow> wired h \<and> books_ok X ord E h \<and> requests_ok X (book_cfg h) P (requests h)"

lemma handler_ok_books:
  assumes "handler_ok X ord E P h" "books_ok X ord E' h'" "same_wiring h h'" "requests h' = requests h"
  shows "handler_ok X ord E' P h'"
  using assms wired_same [of h h'] by (simp add: handler_ok_def same_wiring_def)

text \<open>A change of fields the invariant does not read.\<close>

lemma handler_ok_frame:
  assumes "handler_ok X ord E P h" "qh_books h' = qh_books h" "qh_cfg h' = qh_cfg h" "requests h' = requests h"
  shows "handler_ok X ord E P h'"
proof (rule handler_ok_books [OF assms(1) _ _ assms(4)])
  show "books_ok X ord E h'"
    by (rule books_ok_frame [of X ord E h]) (use assms in \<open>simp_all add: handler_ok_def requests_def\<close>)
  show "same_wiring h h'" using assms by (simp add: same_wiring_def numSymbols_def book_cfg_def requests_def)
qed

lemma upd_book_requests [simp]: "requests (snd (upd_book i f h)) = requests h" "requests (map_book i g h) = requests h"
  by (simp_all add: requests_def map_book_def)

lemma maybePublish_ok:
  assumes "maybePublish io rd i t h w = Some (h', w')" "handler_ok X ord E P h" "i < numSymbols h" "isValid (book h i)"
  shows "handler_ok X ord E P h' \<and> same_wiring h h'"
proof -
  define q where "q = getQuote (book_cfg h) (getSymbol h i) (book h i) t (qh_fhSeqNo h + 1)"
  show ?thesis
  proof (cases "shouldPublish (rd_checkNs rd) (book h i) q")
    case False
    then have "h' = h" using assms(1) by (simp add: maybePublish_def q_def)
    then show ?thesis using assms(2) by simp
  next
    case True
    let ?h = "h\<lparr>qh_fhSeqNo := qh_fhSeqNo h + 1\<rparr>"
    have qn: "q\<lparr>q_fhSeqNo := qh_fhSeqNo h + 1\<rparr> = q"
      by (simp add: q_def getQuote_def Let_def)
    obtain h2 where p: "publishQuote io rd q ?h w = Some (h2, w')"
      and h': "h' = map_book i (recordPublish (rd_recordNs rd) q) h2"
      using assms(1) True qn unfolding maybePublish_def q_def [symmetric] Let_def
      by (auto split: option.splits)
    have "books_ok X ord E h' \<and> same_wiring h h' \<and> requests h' = requests h \<and> book h' i = recordPublish (rd_recordNs rd) q (book h i)"
      unfolding h' by (rule published_ok [OF p, of h X ord E i _ _ _ E])
        (use assms in \<open>auto simp: handler_ok_def requests_def q_def isValid_def\<close>)
    then show ?thesis using handler_ok_books [OF assms(2)] by blast
  qed
qed

lemma publishInvalid_ok:
  assumes "publishInvalid io rd i t h w = Some (h', w')" "handler_ok X ord E P h" "i < numSymbols h"
  shows "handler_ok X ord (E - {i}) P h' \<and> same_wiring h h' \<and> \<not> lastPublishedValid (book h' i)"
proof -
  define q where "q = (emptyQuote (nat (qm_depth (qh_cfg h))))\<lparr>q_sym := getSymbol h i, q_isValid := False,
            q_fhRecvTimeUtcNs := t, q_fhSeqNo := qh_fhSeqNo h + 1\<rparr>"
  have inv: "\<not> q_isValid q" by (simp add: q_def)
  let ?h = "h\<lparr>qh_fhSeqNo := qh_fhSeqNo h + 1\<rparr>"
  obtain h2 where p: "publishQuote io rd q ?h w = Some (h2, w')"
    and h': "h' = map_book i (recordPublish (rd_recordNs rd) q) h2"
    using assms(1) unfolding publishInvalid_def Let_def by (auto simp: q_def split: option.splits)
  have "books_ok X ord (E - {i}) h' \<and> same_wiring h h' \<and> requests h' = requests h \<and>
      book h' i = recordPublish (rd_recordNs rd) q (book h i)"
    unfolding h' by (rule published_ok [OF p, of h X ord E i _ _ _ "E - {i}"])
      (use assms inv in \<open>auto simp: handler_ok_def requests_def\<close>)
  then show ?thesis using handler_ok_books [OF assms(2)] inv
    by (auto simp: recordPublish_def lastPublishedValid_def)
qed

lemma timeoutLoop_ok:
  "timeoutLoop io rd t is h w = Some (h', w') \<Longrightarrow> handler_ok X ord E P h \<Longrightarrow> list_all (\<lambda>i. i < numSymbols h) is \<Longrightarrow>
     handler_ok X ord E P h' \<and> same_wiring h h'"
proof (induction "is" arbitrary: h w)
  case (Cons i "is")
  define q where "q = getQuote (book_cfg h) (getSymbol h i) (book h i) t (qh_fhSeqNo h + 1)"
  show ?case
  proof (cases "q_isValid q")
    case False
    then have "timeoutLoop io rd t is h w = Some (h', w')" using Cons.prems(1) by (simp add: q_def)
    then show ?thesis using Cons by simp
  next
    case True
    let ?h = "h\<lparr>qh_fhSeqNo := qh_fhSeqNo h + 1\<rparr>"
    obtain h1 w1 where p: "publishQuote io (rd i) q ?h w = Some (h1, w1)"
      and r: "timeoutLoop io rd t is (map_book i (recordPublish (rd_recordNs (rd i)) q) h1) w1 = Some (h', w')"
      using Cons.prems(1) True unfolding q_def by (auto simp: Let_def split: option.splits)
    let ?h1 = "map_book i (recordPublish (rd_recordNs (rd i)) q) h1"
    have i: "i < numSymbols h" using Cons.prems(3) by simp
    have v: "sb_state (book h i) = VALID" using getQuote_valid(1) True by (simp add: q_def)
    have "books_ok X ord E ?h1 \<and> same_wiring h ?h1 \<and> requests ?h1 = requests h \<and> book ?h1 i = recordPublish (rd_recordNs (rd i)) q (book h i)"
      by (rule published_ok [OF p, of h X ord E i _ _ _ E])
        (use Cons.prems i v in \<open>auto simp: handler_ok_def requests_def q_def\<close>)
    then have ok: "handler_ok X ord E P ?h1" "same_wiring h ?h1" using handler_ok_books [OF Cons.prems(2)] by blast+
    then have "list_all (\<lambda>i. i < numSymbols ?h1) is" using Cons.prems(3) by (simp add: same_wiring_def)
    with Cons.IH [OF r ok(1)] ok(2) show ?thesis by (blast intro: same_wiring_trans)
  qed
qed simp

lemma checkPublishTimeouts_ok:
  "checkPublishTimeouts io rd ns t h w = Some (h', w') \<Longrightarrow> handler_ok X ord E P h \<Longrightarrow> handler_ok X ord E P h' \<and> same_wiring h h'"
  unfolding checkPublishTimeouts_def
  by (erule timeoutLoop_ok) (auto simp: getTimeoutPublishNeeded_def numSymbols_def list_all_iff)


section \<open>Requests keep the invariant\<close>

text \<open>Updates of the request tables commute with updates of a book.\<close>

lemma upd_book_tables:
  "snd (upd_book i f (h\<lparr>qh_requestedAtMs := x\<rparr>)) = (snd (upd_book i f h))\<lparr>qh_requestedAtMs := x\<rparr>"
  "snd (upd_book i f (h\<lparr>qh_latestRequestId := y\<rparr>)) = (snd (upd_book i f h))\<lparr>qh_latestRequestId := y\<rparr>"
  "snd (upd_book i f (h\<lparr>qh_scheduler := sc\<rparr>)) = (snd (upd_book i f h))\<lparr>qh_scheduler := sc\<rparr>"
  "snd (upd_book i f (h\<lparr>qh_snapshotFailures := n\<rparr>)) = (snd (upd_book i f h))\<lparr>qh_snapshotFailures := n\<rparr>"
  "fst (upd_book i f (h\<lparr>qh_requestedAtMs := x\<rparr>)) = fst (upd_book i f h)"
  "fst (upd_book i f (h\<lparr>qh_scheduler := sc\<rparr>)) = fst (upd_book i f h)"
  by (simp_all add: upd_book_def on_book_def split: prod.split)

lemma books_ok_since:
  assumes "books_ok X ord E h" "\<And>j. j < numSymbols h \<Longrightarrow> sb_snapshotRequested (book h j) \<Longrightarrow> since ! j \<noteq> 0"
  shows "books_ok X ord E (h\<lparr>qh_requestedAtMs := since\<rparr>)"
  using assms by (simp add: books_ok_def numSymbols_def book_def book_cfg_def)

lemma requestSnapshot_ok:
  assumes ok: "handler_ok X ord E [] h" and i: "i < numSymbols h" and t: "rd_requestMs rd \<noteq> 0"
    and before: "\<And>c. book_step (book_cfg h) (X i) ord (c, book h i) (c, before (book h i))"
      "pub_ok (book h i) \<Longrightarrow> pub_ok (before (book h i))"
  shows "handler_ok X ord E [] (requestSnapshot rd i (map_book i before h)) \<and>
    same_wiring h (requestSnapshot rd i (map_book i before h))"
proof -
  have wir: "wired h" and bok: "books_ok X ord E h" and rok: "requests_ok X (book_cfg h) [] (requests h)"
    using ok by (simp_all add: handler_ok_def)
  define since where "since = (qh_requestedAtMs h)[i := rd_requestMs rd]"
  obtain rid wk where e: "enqueueRequest i (getSymbol h i) (qh_worker h) = (rid, wk)" by fastforce
  define h0 where "h0 = h\<lparr>qh_requestedAtMs := since\<rparr>"
  define ha where "ha = map_book i before h0"
  define hb where "hb = map_book i (setSnapshotRequested True) ha"
  have sy: "getSymbol (map_book i before h) i = getSymbol h i"
    using map_book_wiring [of h i before] by (simp add: getSymbol_def same_wiring_def)
  have h': "requestSnapshot rd i (map_book i before h) = hb\<lparr>qh_worker := wk, qh_latestRequestId := (qh_latestRequestId h)[i := rid]\<rparr>"
    using e sy by (simp add: requestSnapshot_def Let_def hb_def ha_def h0_def since_def map_book_def upd_book_tables)
  have len: "i < length (qh_requestedAtMs h)" "i < length (qh_latestRequestId h)" using wir i by (simp_all add: wired_def)
  have b0: "book h0 = book h" "book_cfg h0 = book_cfg h" "numSymbols h0 = numSymbols h"
    by (simp_all add: h0_def book_def book_cfg_def numSymbols_def fun_eq_iff)
  have s0: "qh_requestedAtMs h0 ! i \<noteq> 0" "qh_requestedAtMs ha ! i \<noteq> 0"
    using t len by (simp_all add: h0_def ha_def since_def map_book_def)
  have "books_ok X ord E h0" unfolding h0_def
    by (rule books_ok_since [OF bok]) (use books_okD(2) [OF bok] t len in \<open>auto simp: since_def nth_list_update\<close>)
  then have oka: "books_ok X ord E ha" unfolding ha_def
    by (rule map_book_ok) (use i s0 b0 before books_okD(3) [OF bok i] in auto)
  have wa: "same_wiring h0 ha" by (simp add: ha_def)
  then have ia: "i < numSymbols ha" using i b0 by (simp add: same_wiring_def)
  from oka ia have "books_ok X ord E hb" unfolding hb_def
  proof (rule map_book_ok)
    show "i \<in> E \<or> pub_ok (setSnapshotRequested True (book ha i))"
      using books_okD(3) [OF oka ia] by (auto simp: pub_ok_def setSnapshotRequested_def lastPublishedValid_def)
  qed (use s0 in \<open>auto intro: step_request\<close>)
  then have b': "books_ok X ord E (requestSnapshot rd i (map_book i before h))" by (rule books_ok_frame) (simp_all add: h')
  have w': "same_wiring h (requestSnapshot rd i (map_book i before h))"
  proof -
    have "same_wiring h h0" by (simp add: same_wiring_def since_def h0_def numSymbols_def book_cfg_def)
    then have "same_wiring h hb" unfolding hb_def using wa by (blast intro: same_wiring_trans map_book_wiring)
    then show ?thesis by (simp add: h' same_wiring_def numSymbols_def book_cfg_def)
  qed
  have ids: "ids_ok (qh_worker h)" "table_ok (owed (qh_worker h)) (qh_latestRequestId h) (qh_requestedAtMs h)"
    using rok by (simp_all add: requests_ok_def requests_def)
  have "table_ok (owed wk) ((qh_latestRequestId h)[i := rid]) since"
    unfolding since_def by (rule snapshot_service.table_request [OF ids(1) e ids(2) len(2) t])
  moreover have "ids_ok wk" using snapshot_service.enq_law [OF ids(1) e] by blast
  moreover have "sw_results wk = sw_results (qh_worker h)"
    using e by (auto simp: enqueueRequest_def Let_def split: prod.splits)
  moreover have "requests (requestSnapshot rd i (map_book i before h)) = ((qh_latestRequestId h)[i := rid], since, wk)"
    unfolding h' by (simp add: requests_def hb_def ha_def h0_def map_book_def)
  ultimately have "requests_ok X (book_cfg h) [] (requests (requestSnapshot rd i (map_book i before h)))"
    using rok by (simp add: requests_ok_def requests_def)
  with b' w' wir show ?thesis using wired_same by (auto simp: handler_ok_def same_wiring_def)
qed

lemma tryRequest_ok:
  assumes ok: "handler_ok X ord E [] h" and i: "i < numSymbols h" and t: "rd_requestMs rd \<noteq> 0"
    and before: "\<And>c. book_step (book_cfg h) (X i) ord (c, book h i) (c, before (book h i))"
      "pub_ok (book h i) \<Longrightarrow> pub_ok (before (book h i))"
  shows "handler_ok X ord E [] (tryRequest rd before i h) \<and> same_wiring h (tryRequest rd before i h)"
proof -
  obtain a sc where a: "tryAcquire i (rd_steadyMs rd) (qh_scheduler h) = (a, sc)" by fastforce
  let ?h = "h\<lparr>qh_scheduler := sc\<rparr>"
  have f: "handler_ok X ord E [] ?h" by (rule handler_ok_frame [OF ok]) (simp_all add: requests_def)
  have w: "same_wiring h ?h" by (simp add: same_wiring_def numSymbols_def book_cfg_def)
  have b: "book ?h i = book h i" "book_cfg ?h = book_cfg h" "numSymbols ?h = numSymbols h"
    by (simp_all add: book_def book_cfg_def numSymbols_def)
  show ?thesis
  proof (cases a)
    case False
    then show ?thesis using a f w by (simp add: tryRequest_def)
  next
    case True
    have "handler_ok X ord E [] (requestSnapshot rd i (map_book i before ?h)) \<and>
        same_wiring ?h (requestSnapshot rd i (map_book i before ?h))"
      by (rule requestSnapshot_ok [OF f _ t]) (use i b before in auto)
    then show ?thesis using True a w by (auto simp: tryRequest_def intro: same_wiring_trans)
  qed
qed

section \<open>Messages keep the invariant\<close>

lemma handler_ok_mono: "handler_ok X ord E P h \<Longrightarrow> E \<subseteq> E' \<Longrightarrow> handler_ok X ord E' P h"
  by (auto simp: handler_ok_def books_ok_def)

text \<open>A step of one book, as a step of the handler.\<close>

lemma upd_book_handler_ok:
  assumes "handler_ok X ord E P h" "i < numSymbols h" "f (om_ctr (qh_books h)) (book h i) = (r, c, s)"
    and "book_step (book_cfg h) (X i) ord (om_ctr (qh_books h), book h i) (c, s)"
    and "sb_snapshotRequested s \<Longrightarrow> sb_snapshotRequested (book h i)" "i \<in> E' \<or> pub_ok s" "E \<subseteq> insert i E'"
  shows "handler_ok X ord E' P (snd (upd_book i f h))"
proof -
  have o: "books_ok X ord E h" using assms(1) by (simp add: handler_ok_def)
  have "books_ok X ord E' (snd (upd_book i f h))"
    by (rule upd_book_ok [of X ord E h i f, OF o assms(2,3,4)]) (use assms(5-7) books_okD(2) [OF o assms(2)] in auto)
  then show ?thesis by (rule handler_ok_books [OF assms(1)]) simp_all
qed

lemma map_book_handler_ok:
  assumes "handler_ok X ord E P h" "i < numSymbols h"
    and "\<And>c. book_step (book_cfg h) (X i) ord (c, book h i) (c, f (book h i))"
    and "sb_snapshotRequested (f (book h i)) \<Longrightarrow> sb_snapshotRequested (book h i)" "i \<in> E' \<or> pub_ok (f (book h i))"
    and "E \<subseteq> insert i E'"
  shows "handler_ok X ord E' P (map_book i f h)"
  unfolding map_book_def by (rule upd_book_handler_ok [of X ord E P h i, OF assms(1,2) _ assms(3-6)]) simp

lemma reset_handler_ok:
  assumes "handler_ok X ord E P h" "i < numSymbols h" "\<not> lastPublishedValid (book h i)"
  shows "handler_ok X ord E P (map_book i reset h)"
proof (rule map_book_handler_ok [OF assms(1,2)])
  show "book_step (book_cfg h) (X i) ord (c, book h i) (c, reset (book h i))" for c
    by (rule step_reset [OF assms(3)])
qed (use assms(3) in \<open>auto simp: reset_def pub_ok_def lastPublishedValid_def\<close>)

text \<open>What a message may carry: an event of the exchange's stream for the symbol, in order if \<open>ord\<close>.\<close>

definition event_ok :: "(nat \<Rightarrow> int \<Rightarrow> exchange_book) \<Rightarrow> bool \<Rightarrow> nat \<Rightarrow> BufferedDelta \<Rightarrow> QuoteHandler \<Rightarrow> bool" where
  "event_ok X ord i d h \<longleftrightarrow> genuine (bc_sync (book_cfg h)) (X i) d \<and> (ord \<longrightarrow> in_order (book_cfg h) (book h i) d)"

lemma applyDelta_ok_state:
  "applyDelta cfg d c s = (ok, c', s') \<Longrightarrow> \<not> ok \<Longrightarrow> sb_state s' = INVALID \<or> s' = s"
  by (erule applyDelta_cases) (simp_all add: invalidate_def)

lemma handleLive_ok:
  assumes run: "handleLive io rd i d t h w = Some (h', w')" and ok: "handler_ok X ord {} [] h"
    and i: "i < numSymbols h" and ev: "event_ok X ord i d h" and t: "rd_requestMs rd \<noteq> 0"
  shows "handler_ok X ord {} [] h' \<and> same_wiring h h'"
proof -
  let ?f = "applyDelta (book_cfg h) d"
  obtain a c s where ap: "applyDelta (book_cfg h) d (om_ctr (qh_books h)) (book h i) = (a, c, s)" by (metis prod_cases3)
  note up = upd_book_books [of ?f h i, OF ap]
  define h1 where "h1 = snd (upd_book i (applyDelta (book_cfg h) d) h)"
  have u: "upd_book i (applyDelta (book_cfg h) d) h = (a, h1)" using up(1) by (simp add: h1_def prod_eq_iff)
  have step: "book_step (book_cfg h) (X i) ord (om_ctr (qh_books h), book h i) (c, s)"
    using ev ap by (intro step_delta) (auto simp: event_ok_def)
  have fr: "sb_snapshotRequested s = sb_snapshotRequested (book h i)" "a \<Longrightarrow> book_frame (book h i) s"
    using applyDelta_frame [OF ap] by auto
  have w1: "same_wiring h h1" by (simp add: h1_def)
  have i1: "i < numSymbols h1" using w1 i by (simp add: same_wiring_def)
  show ?thesis
  proof (cases a)
    case False
    have "handler_ok X ord {i} [] h1" unfolding h1_def
      by (rule upd_book_handler_ok [of X ord _ _ h i ?f, OF ok i ap step]) (use fr in auto)
    let ?st = "sb_state (book h i)"
    define h2 where "h2 = (if ?st = VALID then h1\<lparr>qh_sequenceGaps := qh_sequenceGaps h1 + 1\<rparr>
                        else h1\<lparr>qh_scheduler := onFailure i (rd_steadyMs rd) 0 0 (-1) (rd_jitter rd) (qh_scheduler h1)\<rparr>)"
    define h3 where "h3 = h2\<lparr>qh_resyncs := qh_resyncs h2 + 1\<rparr>"
    have "handler_ok X ord {i} [] h3"
      by (rule handler_ok_frame [OF \<open>handler_ok X ord {i} [] h1\<close>]) (simp_all add: h3_def h2_def requests_def)
    moreover have w3: "same_wiring h1 h3"
      by (simp add: h3_def h2_def same_wiring_def numSymbols_def book_cfg_def)
    moreover obtain h4 where p: "publishInvalid io rd i t h3 w = Some (h4, w')" and h': "h' = map_book i reset h4"
      using run u False unfolding handleLive_def Let_def h3_def h2_def by (auto split: option.splits)
    ultimately have o4: "handler_ok X ord {} [] h4" "same_wiring h3 h4" "\<not> lastPublishedValid (book h4 i)"
      using publishInvalid_ok [OF p, of X ord "{i}" "[]"] i1 by (auto simp: same_wiring_def)
    then have w4: "same_wiring h h4" using w1 w3 by (blast intro: same_wiring_trans)
    then have "i < numSymbols h4" using i by (simp add: same_wiring_def)
    then have "handler_ok X ord {} [] h'" unfolding h' using o4 by (intro reset_handler_ok)
    then show ?thesis using same_wiring_trans [OF w4 map_book_wiring] by (simp add: h')
  next
    case True
    have pub: "pub_ok s" using books_okD(3) [of X ord "{}" h i] ok i fr(2) True book_frame_pub_ok
      by (auto simp: handler_ok_def)
    have o1: "handler_ok X ord {} [] h1" unfolding h1_def
      by (rule upd_book_handler_ok [of X ord _ _ h i ?f, OF ok i ap step]) (use fr pub in auto)
    show ?thesis
    proof (cases "isValid (book h1 i)")
      case False
      then have "h' = h1" using run u True by (simp add: handleLive_def)
      then show ?thesis using o1 w1 by simp
    next
      case valid: True
      define h2 where "h2 = (if sb_state (book h i) = SYNCING then h1\<lparr>qh_scheduler := onSynced i (qh_scheduler h1)\<rparr> else h1)"
      have o2: "handler_ok X ord {} [] h2"
        by (rule handler_ok_frame [OF o1]) (simp_all add: h2_def requests_def)
      have b2: "book h2 i = book h1 i" "numSymbols h2 = numSymbols h1" by (simp_all add: h2_def book_def numSymbols_def)
      have w2: "same_wiring h1 h2" by (simp add: h2_def same_wiring_def numSymbols_def book_cfg_def)
      obtain h3 where p: "maybePublish io rd i t h2 w = Some (h3, w')"
        and h': "h' = (if wantsRefresh (book_cfg h3) (book h3 i) then tryRequest rd beginRefresh i h3 else h3)"
        using run u True valid unfolding handleLive_def Let_def h2_def by (auto split: option.splits)
      have o3: "handler_ok X ord {} [] h3" "same_wiring h2 h3"
        using maybePublish_ok [OF p o2] valid b2 i1 by simp_all
      have w3: "same_wiring h h3" using w1 w2 o3(2) by (blast intro: same_wiring_trans)
      have i3: "i < numSymbols h3" using w3 i by (simp add: same_wiring_def)
      show ?thesis
      proof (cases "wantsRefresh (book_cfg h3) (book h3 i)")
        case True
        have "handler_ok X ord {} [] (tryRequest rd beginRefresh i h3) \<and> same_wiring h3 (tryRequest rd beginRefresh i h3)"
        proof (rule tryRequest_ok [OF o3(1) i3 t])
          show "book_step (book_cfg h3) (X i) ord (c, book h3 i) (c, beginRefresh (book h3 i))" for c
            by (rule step_refresh [OF True])
        qed (simp add: pub_ok_def beginRefresh_def lastPublishedValid_def)
        then show ?thesis using h' True w3 by (auto intro: same_wiring_trans)
      qed (use h' o3 w3 in simp)
    qed
  qed
qed

lemma handleDelta_ok:
  assumes run: "handleDelta io rd i d t h w = Some (h', w')" and ok: "handler_ok X ord {} [] h"
    and i: "i < numSymbols h" and ev: "event_ok X ord i d h" and t: "rd_requestMs rd \<noteq> 0"
  shows "handler_ok X ord {} [] h' \<and> same_wiring h h'"
proof (cases "sb_state (book h i)")
  case INIT
  obtain r c s where b: "bufferDelta d (om_ctr (qh_books h)) (book h i) = (r, c, s)" by (metis prod_cases3)
  define h1 where "h1 = snd (upd_book i (bufferDelta d) h)"
  note fr = bufferDelta_frame [OF b]
  have o1: "handler_ok X ord {} [] h1" unfolding h1_def
  proof (rule upd_book_handler_ok [of X ord _ _ h i "bufferDelta d", OF ok i b])
    show "book_step (book_cfg h) (X i) ord (om_ctr (qh_books h), book h i) (c, s)"
      using INIT ev b by (intro step_buffer) (auto simp: event_ok_def)
    show "i \<in> {} \<or> pub_ok s"
      using books_okD(3) [of X ord "{}" h i] ok i book_frame_pub_ok fr by (auto simp: handler_ok_def)
  qed (use fr in \<open>auto simp: book_frame_def\<close>)
  have w1: "same_wiring h h1" by (simp add: h1_def)
  then have i1: "i < numSymbols h1" using i by (simp add: same_wiring_def)
  have "handler_ok X ord {} [] (tryRequest rd (\<lambda>s. s) i h1) \<and> same_wiring h1 (tryRequest rd (\<lambda>s. s) i h1)"
    by (rule tryRequest_ok [OF o1 i1 t]) (auto intro: step_counters)
  moreover have "h' = (if needsSnapshot (book h1 i) then tryRequest rd (\<lambda>s. s) i h1 else h1)"
    using run INIT unfolding h1_def by (auto simp: handleDelta_def Let_def)
  ultimately show ?thesis using o1 w1 by (cases "needsSnapshot (book h1 i)") (auto intro: same_wiring_trans)
next
  case INVALID
  have "pub_ok (book h i)" using books_okD(3) [of X ord "{}" h i] ok i by (auto simp: handler_ok_def)
  then have "\<not> lastPublishedValid (book h i)" using INVALID by (simp add: pub_ok_def)
  then have "handler_ok X ord {} [] (map_book i reset h)" by (rule reset_handler_ok [OF ok i])
  then show ?thesis using run INVALID by (auto simp: handleDelta_def)
qed (use run handleLive_ok [of io rd i d t h w h' w', OF _ ok i ev t] in \<open>auto simp: handleDelta_def\<close>)

text \<open>What the exchange may send in a message.\<close>

definition message_ok ::
    "(nat \<Rightarrow> int \<Rightarrow> exchange_book) \<Rightarrow> bool \<Rightarrow> json_parser \<Rightarrow> string \<Rightarrow> QuoteHandler \<Rightarrow> bool" where
  "message_ok X ord parse msg h \<longleftrightarrow>
     (\<forall>doc sy d. parse (c_str msg) = Inr doc \<and> parseDepth (qm_sync (qh_cfg h)) doc = Some (sy, d) \<longrightarrow>
        (\<forall>i. om_symToIdx (qh_books h) sy = Some i \<longrightarrow> event_ok X ord i d h))"

lemma processMessage_ok:
  assumes run: "processMessage io rd parse msg t h w = Some (h', w')" and ok: "handler_ok X ord {} [] h"
    and m: "message_ok X ord parse msg h" and t: "rd_requestMs rd \<noteq> 0"
  shows "handler_ok X ord {} [] h' \<and> same_wiring h h'"
proof -
  have frame: "handler_ok X ord {} [] h1 \<and> same_wiring h h1" if "h1 = h\<lparr>qh_parseFailures := n\<rparr> \<or> h1 = h" for h1 n
    using that handler_ok_frame [OF ok, of h1] ok
    by (auto simp: requests_def same_wiring_def numSymbols_def book_cfg_def)
  show ?thesis
  proof (cases "parse (c_str msg)")
    case (Inl e)
    then show ?thesis using run frame by (auto simp: processMessage_def)
  next
    case doc: (Inr doc)
    show ?thesis
    proof (cases "parseDepth (qm_sync (qh_cfg h)) doc")
      case None
      then show ?thesis using run doc frame by (auto simp: processMessage_def)
    next
      case (Some p)
      obtain sy d where p: "p = (sy, d)" by (cases p)
      show ?thesis
      proof (cases "om_symToIdx (qh_books h) sy")
        case None
        then show ?thesis using run doc Some p frame by (auto simp: processMessage_def getSymbolIndex_def)
      next
        case idx: (Some i)
        let ?h = "h\<lparr>qh_rowClock := noteEvent (eventTimeMs d) (qh_rowClock h)\<rparr>"
        have "handleDelta io rd i d t ?h w = Some (h', w')"
          using run doc Some p idx by (simp add: processMessage_def getSymbolIndex_def)
        moreover have "handler_ok X ord {} [] ?h" by (rule handler_ok_frame [OF ok]) (simp_all add: requests_def)
        moreover have "i < numSymbols ?h" using ok idx by (simp add: handler_ok_def wired_def numSymbols_def)
        moreover have "event_ok X ord i d ?h"
          using m doc Some p idx by (simp add: message_ok_def event_ok_def book_def book_cfg_def)
        ultimately have "handler_ok X ord {} [] h' \<and> same_wiring ?h h'" using t by (rule handleDelta_ok)
        then show ?thesis by (simp add: same_wiring_def numSymbols_def book_cfg_def)
      qed
    qed
  qed
qed

lemma onMessage_ok:
  assumes run: "onMessage io rd rdT us ns parse msg t h w = Some (h', w')" and ok: "handler_ok X ord {} [] h"
    and m: "message_ok X ord parse msg h" and t: "rd_requestMs rd \<noteq> 0"
  shows "handler_ok X ord {} [] h' \<and> same_wiring h h'"
proof -
  let ?h = "h\<lparr>qh_lastMsgTime := t, qh_msgsReceived := qh_msgsReceived h + 1\<rparr>"
  obtain h2 w2 where p: "processMessage io rd parse msg t ?h w = Some (h2, w2)"
    and c: "checkPublishTimeouts io rdT ns t (h2\<lparr>qh_lastParseUs := us\<rparr>) w2 = Some (h', w')"
    using run unfolding onMessage_def Let_def by (auto split: option.splits)
  have "handler_ok X ord {} [] ?h" by (rule handler_ok_frame [OF ok]) (simp_all add: requests_def)
  moreover have "message_ok X ord parse msg ?h" using m by (simp add: message_ok_def event_ok_def book_def book_cfg_def)
  ultimately have 2: "handler_ok X ord {} [] h2 \<and> same_wiring ?h h2" by (rule processMessage_ok [OF p _ _ t])
  have "handler_ok X ord {} [] (h2\<lparr>qh_lastParseUs := us\<rparr>)"
    by (rule handler_ok_frame [of X ord "{}" "[]" h2]) (use 2 in \<open>simp_all add: requests_def\<close>)
  from checkPublishTimeouts_ok [OF c this] 2 show ?thesis
    by (simp add: same_wiring_def numSymbols_def book_cfg_def)
qed

section \<open>Snapshot results keep the invariant\<close>

text \<open>A change of the tables: no book that waits may lose its time.\<close>

lemma handler_ok_tables:
  assumes ok: "handler_ok X ord E P h" and books: "qh_books h' = qh_books h" "qh_cfg h' = qh_cfg h"
    and req: "requests_ok X (book_cfg h) P' (requests h')"
    and len: "length (qh_latestRequestId h') = length (qh_latestRequestId h)"
      "length (qh_requestedAtMs h') = length (qh_requestedAtMs h)"
    and since: "\<And>j. j < numSymbols h \<Longrightarrow> sb_snapshotRequested (book h j) \<Longrightarrow> qh_requestedAtMs h' ! j \<noteq> 0"
  shows "handler_ok X ord E P' h' \<and> same_wiring h h'"
proof -
  have w: "same_wiring h h'" using books len by (simp add: same_wiring_def numSymbols_def book_cfg_def)
  have "books_ok X ord E h" using ok by (simp add: handler_ok_def)
  then have "books_ok X ord E h'" using since books by (simp add: books_ok_def numSymbols_def book_def book_cfg_def)
  with w ok req show ?thesis using wired_same by (auto simp: handler_ok_def same_wiring_def)
qed

lemma requests_give_up:
  assumes "requests_ok X cfg P (latest, since, wk)" "i < length latest"
  shows "requests_ok X cfg P (latest[i := Suc (latest ! i)], since[i := 0], wk)"
  using assms table_give_up [of _ latest since i] by (simp add: requests_ok_def)

lemma requests_skip: "requests_ok X cfg (r # P) q \<Longrightarrow> requests_ok X cfg P q"
  by (auto simp: requests_ok_def split: prod.splits intro: table_ok_mono)

lemma requests_answer:
  assumes ok: "requests_ok X cfg (r # P) (latest, since, wk)" and acc: "latest ! sr_symIdx r \<le> sr_requestId r"
  shows "requests_ok X cfg P (latest, since[sr_symIdx r := 0], wk)"
proof -
  let ?out = "answer_key ` set P \<union> owed wk"
  have "table_ok (insert (sr_symIdx r, sr_requestId r) ?out) latest since"
    using ok by (simp add: requests_ok_def answer_key_def)
  moreover have "sr_requestId r \<notin> snd ` ?out" using ok by (auto simp: requests_ok_def answer_key_def image_iff)
  ultimately have "table_ok ?out latest (since[sr_symIdx r := 0])" using acc by (intro table_answer)
  then show ?thesis using ok by (simp add: requests_ok_def)
qed

text \<open>Dropping a refresh and the request flag of one book.\<close>

definition dropRequest :: "nat \<Rightarrow> QuoteHandler \<Rightarrow> QuoteHandler" where
  "dropRequest i h = map_book i (setSnapshotRequested False) (snd (upd_book i (\<lambda>c s. ((), cancelRefresh c s)) h))"

lemma dropRequest_ok:
  assumes ok: "handler_ok X ord {} P h" and i: "i < numSymbols h"
  shows "handler_ok X ord {} P (dropRequest i h) \<and> same_wiring h (dropRequest i h) \<and>
    \<not> sb_snapshotRequested (book (dropRequest i h) i) \<and> (\<forall>j. j \<noteq> i \<longrightarrow> book (dropRequest i h) j = book h j)"
proof -
  let ?f = "\<lambda>c s. ((), cancelRefresh c s)"
  obtain c s where ca: "cancelRefresh (om_ctr (qh_books h)) (book h i) = (c, s)" by fastforce
  then have f: "?f (om_ctr (qh_books h)) (book h i) = ((), c, s)" by simp
  define h1 where "h1 = snd (upd_book i ?f h)"
  note fc = cancelRefresh_facts [OF ca]
  have pub: "pub_ok (book h i)" using books_okD(3) [of X ord "{}" h i] ok i by (auto simp: handler_ok_def)
  have o1: "handler_ok X ord {} P h1" unfolding h1_def
    by (rule upd_book_handler_ok [of X ord _ _ h i ?f, OF ok i f]) (use fc pub ca in \<open>auto intro: step_cancel\<close>)
  have w1: "same_wiring h h1" by (simp add: h1_def)
  have b1: "book h1 j = (if j = i then s else book h j)" for j
    unfolding h1_def by (rule book_upd_book [of ?f h i, OF f i])
  have i1: "i < numSymbols h1" using w1 i by (simp add: same_wiring_def)
  have d: "dropRequest i h = map_book i (setSnapshotRequested False) h1" by (simp add: dropRequest_def h1_def)
  have "handler_ok X ord {} P (dropRequest i h)" unfolding d
  proof (rule map_book_handler_ok [OF o1 i1])
    show "book_step (book_cfg h1) (X i) ord (c, book h1 i) (c, setSnapshotRequested False (book h1 i))" for c
      by (rule step_request)
  qed (use fc pub b1 in \<open>auto simp: setSnapshotRequested_def pub_ok_def lastPublishedValid_def\<close>)
  moreover have "same_wiring h (dropRequest i h)" using same_wiring_trans [OF w1] by (simp add: d)
  ultimately show ?thesis using book_map_book [OF i1] b1 by (simp add: d setSnapshotRequested_def)
qed

lemma requested_zero:
  assumes "handler_ok X ord {} P h" "\<not> sb_snapshotRequested (book h i)" "j < numSymbols h" "sb_snapshotRequested (book h j)"
  shows "(qh_requestedAtMs h)[i := 0] ! j \<noteq> 0"
  using assms books_okD(2) [of X ord "{}" h j] by (cases "i = j") (auto simp: handler_ok_def)

lemma expireRequest_ok:
  assumes ok: "handler_ok X ord {} P h" and i: "i < numSymbols h"
  shows "handler_ok X ord {} P (expireRequest now jit i h) \<and> same_wiring h (expireRequest now jit i h)"
proof (cases "qh_requestedAtMs h ! i \<noteq> 0 \<and> SNAPSHOT_TIMEOUT_MS < now - qh_requestedAtMs h ! i")
  case True
  define hd where "hd = dropRequest i h"
  note d = dropRequest_ok [OF ok i, folded hd_def]
  let ?lat = "(qh_latestRequestId h)[i := Suc (qh_latestRequestId h ! i)]"
  let ?since = "(qh_requestedAtMs h)[i := 0]"
  have e: "expireRequest now jit i h = hd\<lparr>qh_latestRequestId := ?lat, qh_requestedAtMs := ?since,
      qh_scheduler := onFailure i now 0 0 (-1) (jit i) (qh_scheduler hd),
      qh_snapshotFailures := qh_snapshotFailures hd + 1\<rparr>"
    using True by (simp add: expireRequest_def Let_def hd_def dropRequest_def map_book_def upd_book_tables)
  have rq: "requests hd = requests h" by (simp add: hd_def dropRequest_def)
  then have t: "qh_latestRequestId hd = qh_latestRequestId h" "qh_requestedAtMs hd = qh_requestedAtMs h"
    by (simp_all add: requests_def)
  have lat: "i < length (qh_latestRequestId h)" using ok i by (simp add: handler_ok_def wired_def)
  have "handler_ok X ord {} P (expireRequest now jit i h) \<and> same_wiring hd (expireRequest now jit i h)"
  proof (rule handler_ok_tables [of X ord "{}" P hd])
    show "requests_ok X (book_cfg hd) P (requests (expireRequest now jit i h))"
      using d requests_give_up [OF _ lat] ok rq by (simp add: handler_ok_def e requests_def)
    show "qh_requestedAtMs (expireRequest now jit i h) ! j \<noteq> 0"
      if "j < numSymbols hd" "sb_snapshotRequested (book hd j)" for j
      using requested_zero [OF _ _ that, of X ord P i] d t by (simp add: e)
  qed (use d t in \<open>simp_all add: e\<close>)
  then show ?thesis using d by (blast intro: same_wiring_trans)
next
  case False
  then have "expireRequest now jit i h = h" unfolding expireRequest_def by (rule if_not_P)
  then show ?thesis using ok by simp
qed

lemma afterSnapshot_frame:
  "qh_books (afterSnapshot now j i oc h) = qh_books h" "qh_cfg (afterSnapshot now j i oc h) = qh_cfg h"
  "requests (afterSnapshot now j i oc h) = requests h"
  by (cases oc; simp add: afterSnapshot_def requests_def)+

lemma applyResult_ok:
  assumes ok: "handler_ok X ord {} (r # P) h"
  shows "handler_ok X ord {} P (applyResult now jit r h) \<and> same_wiring h (applyResult now jit r h)"
proof -
  define i where "i = sr_symIdx r"
  obtain lat since wk where q: "requests h = (lat, since, wk)" by (metis prod_cases3)
  then have t: "qh_latestRequestId h = lat" "qh_requestedAtMs h = since" "qh_worker h = wk" by (simp_all add: requests_def)
  have rok: "requests_ok X (book_cfg h) (r # P) (lat, since, wk)" using ok q by (simp add: handler_ok_def)
  then have gen: "genuine_result X (book_cfg h) r" by (simp add: requests_ok_def)
  have "table_ok (answer_key ` set (r # P) \<union> owed wk) lat since" using rok by (simp add: requests_ok_def)
  then have "i < length lat" by (rule table_okD(1) [where rid = "sr_requestId r"]) (simp add: answer_key_def i_def)
  then have i: "i < numSymbols h" using ok t by (simp add: handler_ok_def wired_def)
  have skip: "handler_ok X ord {} P h" using ok rok requests_skip [OF rok] by (simp add: handler_ok_def q)
  text \<open>Once the book does not wait any more, its time may go.\<close>
  have settle: "handler_ok X ord {} P h' \<and> same_wiring h h'"
    if "handler_ok X ord {} (r # P) hd" "same_wiring h hd" "requests hd = requests h"
      "\<not> sb_snapshotRequested (book hd i)" "lat ! i \<le> sr_requestId r"
      "qh_books h' = qh_books hd" "qh_cfg h' = qh_cfg hd" "requests h' = (lat, since[i := 0], wk)" for hd h'
  proof -
    have t': "qh_latestRequestId hd = lat" "qh_requestedAtMs hd = since"
        "qh_latestRequestId h' = lat" "qh_requestedAtMs h' = since[i := 0]"
      using that(3,8) t by (simp_all add: requests_def)
    have rh: "requests_ok X (book_cfg hd) P (requests h')"
      using requests_answer [of X _ r P, OF rok] that(2,5,8) by (simp add: i_def same_wiring_def)
    have "handler_ok X ord {} P h' \<and> same_wiring hd h'"
      by (rule handler_ok_tables [OF that(1,6,7) rh])
        (use t' requested_zero [OF that(1,4)] in \<open>simp_all\<close>)
    then show ?thesis using that(2) by (blast intro: same_wiring_trans)
  qed
  consider (stale) "sr_requestId r < lat ! i" | (failed) "lat ! i \<le> sr_requestId r" "\<not> sd_success (sr_data r)"
    | (good) "lat ! i \<le> sr_requestId r" "sd_success (sr_data r)" by linarith
  then show ?thesis
  proof cases
    case stale
    then have "applyResult now jit r h = h" using t by (simp add: applyResult_def Let_def i_def)
    then show ?thesis using skip by simp
  next
    case failed
    note d = dropRequest_ok [OF ok i]
    let ?d = "sr_data r"
    have e: "applyResult now jit r h = (dropRequest i h)\<lparr>qh_requestedAtMs := since[i := 0],
        qh_snapshotFailures := qh_snapshotFailures h + 1,
        qh_scheduler := onFailure i now (sd_httpStatus ?d) (sd_retryAfterSec ?d) (sd_usedWeight1m ?d)
          (jit (sr_requestId r)) (qh_scheduler h)\<rparr>"
      using failed t by (simp add: applyResult_def Let_def dropRequest_def map_book_def upd_book_tables flip: i_def)
    have rq: "requests (dropRequest i h) = requests h" by (simp add: dropRequest_def)
    show ?thesis
      by (rule settle [of "dropRequest i h"]) (use d rq q failed in \<open>auto simp: e requests_def\<close>)
  next
    case good
    let ?d = "sr_data r"
    let ?f = "onSnapshot (book_cfg h) (sd_lastUpdateId ?d) (sd_bids ?d) (sd_asks ?d)"
    obtain oc c s where sn: "?f (om_ctr (qh_books h)) (book h i) = (oc, c, s)" by (metis prod_cases3)
    define hs where "hs = snd (upd_book i ?f h)"
    note fc = onSnapshot_facts [OF sn]
    have pub: "pub_ok (book h i)" using books_okD(3) [of X ord "{}" h i] ok i by (auto simp: handler_ok_def)
    have os: "handler_ok X ord {} (r # P) hs" unfolding hs_def
    proof (rule upd_book_handler_ok [of X ord _ _ h i ?f, OF ok i sn])
      show "book_step (book_cfg h) (X i) ord (om_ctr (qh_books h), book h i) (c, s)"
        using gen good sn by (intro step_snapshot) (auto simp: genuine_result_def i_def)
    qed (use fc pub in auto)
    have ws: "same_wiring h hs" by (simp add: hs_def)
    have bs: "\<not> sb_snapshotRequested (book hs i)"
      unfolding hs_def using book_upd_book [of ?f h i, OF sn i] fc by simp
    have u: "fst (upd_book i ?f h) = oc" by (rule upd_book_books [of ?f h i, OF sn])
    define hm where "hm = hs\<lparr>qh_requestedAtMs := since[i := 0],
        qh_scheduler := onFetchOk now (sd_usedWeight1m ?d) (qh_scheduler h)\<rparr>"
    have e: "applyResult now jit r h = afterSnapshot now (jit (sr_requestId r)) i oc hm"
      using good t u by (simp add: applyResult_def Let_def hm_def hs_def upd_book_tables split_def flip: i_def)
    have rq: "requests (applyResult now jit r h) = (lat, since[i := 0], wk)"
      unfolding e afterSnapshot_frame using t by (simp add: requests_def hm_def hs_def)
    show ?thesis
      by (rule settle [OF os ws _ bs good(1) _ _ rq]) (simp_all add: e afterSnapshot_frame hm_def hs_def)
  qed
qed

lemma fold_expire_ok:
  "handler_ok X ord {} P h \<Longrightarrow> list_all (\<lambda>i. i < numSymbols h) is \<Longrightarrow>
     handler_ok X ord {} P (fold (expireRequest now jit) is h) \<and> same_wiring h (fold (expireRequest now jit) is h)"
proof (induction "is" arbitrary: h)
  case (Cons i "is")
  let ?h = "expireRequest now jit i h"
  have e: "handler_ok X ord {} P ?h" "same_wiring h ?h" using expireRequest_ok [OF Cons.prems(1)] Cons.prems(2) by auto
  moreover have "list_all (\<lambda>i. i < numSymbols ?h) is" using Cons.prems(2) e by (simp add: same_wiring_def)
  ultimately show ?case using Cons.IH [of ?h] by (auto intro: same_wiring_trans)
qed simp

lemma fold_apply_ok:
  "handler_ok X ord {} rs h \<Longrightarrow>
     handler_ok X ord {} [] (fold (applyResult now jit) rs h) \<and> same_wiring h (fold (applyResult now jit) rs h)"
  by (induction rs arbitrary: h) (auto dest!: applyResult_ok intro: same_wiring_trans)

lemma requests_drain:
  assumes "requests_ok X cfg [] (lat, since, wk)" "drainResults wk = (rs, wk')"
  shows "requests_ok X cfg rs (lat, since, wk')"
proof -
  have ids: "ids_ok wk" "table_ok (owed wk) lat since" using assms(1) by (simp_all add: requests_ok_def)
  note l = snapshot_service.drn_law [OF ids(1) assms(2)] snapshot_service.table_drain [OF ids(1) assms(2) ids(2)]
  have "set rs \<union> set (bq_q (sw_results wk')) = set (bq_q (sw_results wk))"
    using assms(2) by (auto simp: drainResults_def bq_drain_def)
  with l assms(1) show ?thesis by (auto simp: requests_ok_def)
qed

lemma applySnapshotResults_ok:
  assumes ok: "handler_ok X ord {} [] h"
  shows "handler_ok X ord {} [] (applySnapshotResults now je jr h) \<and> same_wiring h (applySnapshotResults now je jr h)"
proof -
  define h1 where "h1 = fold (expireRequest now je) [0..<length (qh_requestedAtMs h)] h"
  have o1: "handler_ok X ord {} [] h1" "same_wiring h h1"
    using fold_expire_ok [OF ok, of "[0..<length (qh_requestedAtMs h)]"] ok
    by (simp_all add: h1_def handler_ok_def wired_def list_all_iff)
  obtain rs wk where d: "drainResults (qh_worker h1) = (rs, wk)" by fastforce
  let ?h2 = "h1\<lparr>qh_worker := wk\<rparr>"
  have "handler_ok X ord {} rs ?h2 \<and> same_wiring h1 ?h2"
    by (rule handler_ok_tables [OF o1(1)])
      (use o1 d requests_drain [OF _ d] books_okD(2) [of X ord "{}" h1] in \<open>auto simp: handler_ok_def requests_def\<close>)
  moreover have "applySnapshotResults now je jr h = fold (applyResult now jr) rs ?h2"
    using d by (simp add: applySnapshotResults_def Let_def h1_def)
  ultimately show ?thesis using fold_apply_ok o1(2) by (auto intro: same_wiring_trans)
qed

section \<open>A new connection keeps the invariant\<close>

lemma publishInvalid_other:
  assumes "publishInvalid io rd i t h w = Some (h', w')" "i < numSymbols h" "j \<noteq> i"
  shows "book h' j = book h j"
proof -
  define q where "q = (emptyQuote (nat (qm_depth (qh_cfg h))))\<lparr>q_sym := getSymbol h i, q_isValid := False,
            q_fhRecvTimeUtcNs := t, q_fhSeqNo := qh_fhSeqNo h + 1\<rparr>"
  let ?h = "h\<lparr>qh_fhSeqNo := qh_fhSeqNo h + 1\<rparr>"
  obtain h2 where p: "publishQuote io rd q ?h w = Some (h2, w')"
    and h': "h' = map_book i (recordPublish (rd_recordNs rd) q) h2"
    using assms(1) unfolding publishInvalid_def Let_def by (auto simp: q_def split: option.splits)
  have "book h2 = book h" "numSymbols h2 = numSymbols h"
    using publishQuote_same [OF p] by (simp_all add: book_def numSymbols_def fun_eq_iff)
  with assms(2,3) show ?thesis by (simp add: h' book_map_book)
qed

lemma invalidLoop_ok:
  "invalidLoop io rd t is h w = Some (h', w') \<Longrightarrow> handler_ok X ord {} P h \<Longrightarrow> list_all (\<lambda>i. i < numSymbols h) is \<Longrightarrow>
     handler_ok X ord {} P h' \<and> same_wiring h h' \<and>
     (\<forall>j. j \<in> set is \<or> \<not> lastPublishedValid (book h j) \<longrightarrow> \<not> lastPublishedValid (book h' j))"
proof (induction "is" arbitrary: h w)
  case (Cons i "is")
  show ?case
  proof (cases "lastPublishedValid (book h i)")
    case False
    then have "invalidLoop io rd t is h w = Some (h', w')" using Cons.prems(1) by simp
    from Cons.IH [OF this Cons.prems(2)] Cons.prems(3) False show ?thesis by auto
  next
    case True
    obtain h1 w1 where p: "publishInvalid io (rd i) i t h w = Some (h1, w1)"
      and r: "invalidLoop io rd t is h1 w1 = Some (h', w')"
      using Cons.prems(1) True by (auto split: option.splits)
    have i: "i < numSymbols h" using Cons.prems(3) by simp
    have o1: "handler_ok X ord {} P h1" "same_wiring h h1" "\<not> lastPublishedValid (book h1 i)"
      using publishInvalid_ok [OF p Cons.prems(2) i] by simp_all
    have "list_all (\<lambda>i. i < numSymbols h1) is" using Cons.prems(3) o1(2) by (simp add: same_wiring_def)
    note IH = Cons.IH [OF r o1(1) this]
    have "\<not> lastPublishedValid (book h' j)" if "j \<in> set (i # is) \<or> \<not> lastPublishedValid (book h j)" for j
      using that IH o1(3) publishInvalid_other [OF p i, of j] by (cases "j = i") auto
    then show ?thesis using IH o1(2) by (blast intro: same_wiring_trans)
  qed
qed simp

lemma resetAll_ok:
  assumes ok: "handler_ok X ord {} P h" and npv: "\<And>j. j < numSymbols h \<Longrightarrow> \<not> lastPublishedValid (book h j)"
  shows "handler_ok X ord {} P (h\<lparr>qh_books := resetAll (qh_books h)\<rparr>) \<and> same_wiring h (h\<lparr>qh_books := resetAll (qh_books h)\<rparr>) \<and>
    (\<forall>j < numSymbols h. \<not> sb_snapshotRequested (book (h\<lparr>qh_books := resetAll (qh_books h)\<rparr>) j))"
proof -
  let ?h = "h\<lparr>qh_books := resetAll (qh_books h)\<rparr>"
  have b: "book ?h j = reset (book h j)" if "j < numSymbols h" for j
    using that by (simp add: book_def numSymbols_def resetAll_def)
  have w: "same_wiring h ?h" by (simp add: same_wiring_def numSymbols_def book_cfg_def resetAll_def)
  have bok: "books_ok X ord {} h" using ok by (simp add: handler_ok_def)
  have c: "om_ctr (qh_books ?h) = om_ctr (qh_books h)" by (simp add: resetAll_def)
  have "books_ok X ord {} ?h" unfolding books_ok_def
  proof (intro allI impI)
    fix j assume "j < numSymbols ?h"
    then have j: "j < numSymbols h" using w by (simp add: same_wiring_def)
    have "book_reach (book_cfg h) (X j) ord (om_ctr (qh_books h), reset (book h j))"
      by (rule reach_step [OF books_okD(1) [OF bok j] step_reset [OF npv [OF j]]])
    then show "book_reach (book_cfg ?h) (X j) ord (om_ctr (qh_books ?h), book ?h j) \<and>
        (sb_snapshotRequested (book ?h j) \<longrightarrow> qh_requestedAtMs ?h ! j \<noteq> 0) \<and> (j \<in> {} \<or> pub_ok (book ?h j))"
      unfolding b [OF j] c using w npv [OF j]
      by (simp add: same_wiring_def reset_def pub_ok_def lastPublishedValid_def)
  qed
  then have "handler_ok X ord {} P ?h" by (rule handler_ok_books [OF ok _ w]) (simp add: requests_def)
  then show ?thesis using w b by (simp add: reset_def)
qed

lemma giveUp_ok:
  assumes "handler_ok X ord {} P h" "\<forall>j < numSymbols h. \<not> sb_snapshotRequested (book h j)" "list_all (\<lambda>i. i < numSymbols h) is"
  shows "handler_ok X ord {} P (fold giveUpRequest is h) \<and> same_wiring h (fold giveUpRequest is h) \<and>
    qh_books (fold giveUpRequest is h) = qh_books h \<and> qh_worker (fold giveUpRequest is h) = qh_worker h \<and>
    qh_tp (fold giveUpRequest is h) = qh_tp h \<and> qh_fhSeqNo (fold giveUpRequest is h) = qh_fhSeqNo h \<and>
    (\<forall>j. j \<in> set is \<or> qh_requestedAtMs h ! j = 0 \<longrightarrow> qh_requestedAtMs (fold giveUpRequest is h) ! j = 0)"
  using assms
proof (induction "is" arbitrary: h)
  case (Cons i "is")
  define h1 where "h1 = giveUpRequest i h"
  have lens: "i < length (qh_latestRequestId h)" "i < length (qh_requestedAtMs h)"
    using Cons.prems by (simp_all add: handler_ok_def wired_def)
  have same: "qh_books h1 = qh_books h \<and> qh_cfg h1 = qh_cfg h \<and> qh_worker h1 = qh_worker h \<and> qh_tp h1 = qh_tp h \<and>
      qh_fhSeqNo h1 = qh_fhSeqNo h" and len: "length (qh_latestRequestId h1) = length (qh_latestRequestId h)"
      "length (qh_requestedAtMs h1) = length (qh_requestedAtMs h)" by (simp_all add: h1_def giveUpRequest_def)
  have zero: "qh_requestedAtMs h1 ! j = 0" if "j = i \<or> qh_requestedAtMs h ! j = 0" for j
    using that lens by (cases "j = i") (auto simp: h1_def giveUpRequest_def)
  have "requests_ok X (book_cfg h) P (requests h1)"
    using Cons.prems(1) requests_give_up [OF _ lens(1)] by (simp add: h1_def giveUpRequest_def handler_ok_def requests_def)
  then have o1: "handler_ok X ord {} P h1 \<and> same_wiring h h1"
    by (intro handler_ok_tables [OF Cons.prems(1)]) (use same len Cons.prems(2) in auto)
  have nr: "\<forall>j < numSymbols h1. \<not> sb_snapshotRequested (book h1 j)"
    using Cons.prems(2) o1 same by (simp add: same_wiring_def book_def numSymbols_def)
  have il: "list_all (\<lambda>i. i < numSymbols h1) is" using Cons.prems(3) o1 by (simp add: same_wiring_def)
  have f: "fold giveUpRequest (i # is) h = fold giveUpRequest is h1" by (simp add: h1_def)
  note IH = Cons.IH [OF conjunct1 [OF o1] nr il]
  have "qh_requestedAtMs (fold giveUpRequest is h1) ! j = 0" if "j \<in> set (i # is) \<or> qh_requestedAtMs h ! j = 0" for j
    using that IH zero [of j] by auto
  then show ?case unfolding f using IH o1 same by (auto intro: same_wiring_trans)
qed simp

lemma beginConnection_ok:
  assumes run: "beginConnection io rd t h w = Some (h', w')" and ok: "handler_ok X ord {} [] h" and tp: "connected (qh_tp h)"
  shows "handler_ok X ord {} [] h' \<and> same_wiring h h' \<and> (\<forall>j < numSymbols h'. qh_requestedAtMs h' ! j = 0) \<and>
    (\<forall>j < numSymbols h'. sb_state (book h' j) = INIT \<and> \<not> lastPublishedValid (book h' j))"
proof -
  let ?h = "h\<lparr>qh_connState := ''connecting''\<rparr>"
  have n: "numSymbols ?h = numSymbols h" by (simp add: numSymbols_def)
  have o0: "handler_ok X ord {} [] ?h" by (rule handler_ok_frame [OF ok]) (simp_all add: requests_def)
  obtain h1 w1 where l: "invalidLoop io rd t [0..<numSymbols h] ?h w = Some (h1, w1)"
    and h': "h' = fold giveUpRequest [0..<length (qh_latestRequestId (h1\<lparr>qh_books := resetAll (qh_books h1)\<rparr>))] (h1\<lparr>qh_books := resetAll (qh_books h1)\<rparr>)"
    using run tp n unfolding beginConnection_def Let_def by (auto split: option.splits)
  have o1: "handler_ok X ord {} [] h1" "same_wiring ?h h1" "\<forall>j. j < numSymbols h \<longrightarrow> \<not> lastPublishedValid (book h1 j)"
    using invalidLoop_ok [OF l o0] n by (auto simp: list_all_iff)
  then have w1: "same_wiring h h1" by (simp add: same_wiring_def numSymbols_def book_cfg_def)
  define h2 where "h2 = h1\<lparr>qh_books := resetAll (qh_books h1)\<rparr>"
  have npv: "\<not> lastPublishedValid (book h1 j)" if "j < numSymbols h1" for j
    using o1(3) that w1 by (simp add: same_wiring_def)
  note o2 = resetAll_ok [OF o1(1) npv, folded h2_def]
  have n2: "numSymbols h2 = numSymbols h1" using o2 by (simp add: same_wiring_def)
  have len: "length (qh_latestRequestId h2) = numSymbols h2" using o2 by (simp add: handler_ok_def wired_def)
  have g: "handler_ok X ord {} [] h' \<and> same_wiring h2 h' \<and> qh_books h' = qh_books h2 \<and> qh_worker h' = qh_worker h2 \<and>
      qh_tp h' = qh_tp h2 \<and> qh_fhSeqNo h' = qh_fhSeqNo h2 \<and>
      (\<forall>j. j \<in> set [0..<numSymbols h2] \<or> qh_requestedAtMs h2 ! j = 0 \<longrightarrow> qh_requestedAtMs h' ! j = 0)"
    unfolding h' h2_def [symmetric] len
    by (rule giveUp_ok [of X ord "[]" h2]) (use o2 n2 in \<open>auto simp: list_all_iff\<close>)
  have n': "numSymbols h' = numSymbols h2" using g by (simp add: same_wiring_def)
  have "book h' j = reset (book h1 j)" if "j < numSymbols h'" for j
    using that g n' n2 by (simp add: book_def numSymbols_def h2_def resetAll_def)
  then have "sb_state (book h' j) = INIT \<and> \<not> lastPublishedValid (book h' j)" if "j < numSymbols h'" for j
    using that npv [of j] n' n2 by (simp add: reset_def lastPublishedValid_def)
  then show ?thesis using g o2 w1 n' by (auto intro: same_wiring_trans)
qed

end
