(* ===== verification/Quote_Log.thy ===== *)
theory Quote_Log
  imports Quote_Handler
begin

text \<open>
  What the quote handler leaves in the tickerplant's log. \<open>log_ok\<close> relates a handler to every quote it has
  published: the rows are numbered from 1, have the announced width and reach the log; each row that is marked
  valid shows the exchange's best levels; consecutive valid rows of a symbol chain. Every method keeps it.
  \<open>quote_run\<close> is the handler's life: \<open>run\<close>, the message loop of \<open>runWebSocketLoop\<close>, lost connections and
  the snapshot thread, interleaved.
\<close>

section \<open>The log\<close>

definition exact_quote :: "BookConfig \<Rightarrow> (int \<Rightarrow> exchange_book) \<Rightarrow> BookQuote \<Rightarrow> bool" where
  "exact_quote cfg X q \<longleftrightarrow> (q_isValid q \<longrightarrow>
     (\<exists>B A. top_levels True (bc_depth cfg) (fst (X (q_exchUpdateId q))) B \<and>
        top_levels False (bc_depth cfg) (snd (X (q_exchUpdateId q))) A \<and>
        shows_levels (bc_depth cfg) (q_bidPrices q) (q_bidQtys q) B \<and>
        shows_levels (bc_depth cfg) (q_askPrices q) (q_askQtys q) A))"

definition follows :: "BookConfig \<Rightarrow> BookQuote \<Rightarrow> BookQuote \<Rightarrow> bool" where
  "follows cfg p q \<longleftrightarrow> (q_isValid p \<and> q_isValid q \<longrightarrow>
     q_exchUpdateId q = q_exchUpdateId p \<and> q_exchFirstUpdateId q = q_exchFirstUpdateId p \<or>
     q_exchUpdateId p \<le> q_exchUpdateId q \<and>
       (if bc_sync cfg = Futures then q_exchPrevUpdateId q = q_exchUpdateId p
        else q_exchFirstUpdateId q \<le> q_exchUpdateId p + 1))"

text \<open>The quotes of one symbol, in the order of their publication.\<close>

definition quotes_of :: "nat \<Rightarrow> (nat \<times> BookQuote) list \<Rightarrow> BookQuote list" where
  "quotes_of i G = map snd (filter (\<lambda>x. fst x = i) G)"

definition remembers :: "SymBook \<Rightarrow> BookQuote list \<Rightarrow> bool" where
  "remembers s qs \<longleftrightarrow> sb_hasPublished s = (qs \<noteq> []) \<and> (qs \<noteq> [] \<longrightarrow> sb_lastPublished s = last qs)"

definition is_row :: "QuoteHandler \<Rightarrow> nat \<times> BookQuote \<Rightarrow> krow \<Rightarrow> bool" where
  "is_row h x r \<longleftrightarrow> q_sym (snd x) = getSymbol h (fst x) \<and>
     length r = quoteRowWidth (nat (qm_depth (qh_cfg h))) (qm_publishTransactTime (qh_cfg h)) \<and>
     (\<exists>t p s. r = buildQuoteRow (snd x) t p s (qm_publishTransactTime (qh_cfg h)))"

definition log_ok ::
    "('w \<Rightarrow> TpView) \<Rightarrow> TpPublisherConfig \<Rightarrow> (nat \<Rightarrow> int \<Rightarrow> exchange_book) \<Rightarrow> bool \<Rightarrow> QuoteHandler \<Rightarrow> 'w \<Rightarrow>
      (nat \<times> BookQuote) list \<Rightarrow> krow list \<Rightarrow> bool" where
  "log_ok view tc X ord h w G H \<longleftrightarrow>
     tp_ready view (qh_tp h) H w \<and> p_cfg (qh_tp h) = tc \<and> int (length H) = qh_fhSeqNo h \<and>
     list_all2 (is_row h) G H \<and>
     (\<forall>x \<in> set G. fst x < numSymbols h \<and> exact_quote (book_cfg h) (X (fst x)) (snd x)) \<and>
     (\<forall>i < numSymbols h. remembers (book h i) (quotes_of i G) \<and>
        (ord \<longrightarrow> successively (follows (book_cfg h)) (quotes_of i G)))"

text \<open>What a method does to the log: it may append.\<close>

definition keeps_log ::
    "('w \<Rightarrow> TpView) \<Rightarrow> TpPublisherConfig \<Rightarrow> (nat \<Rightarrow> int \<Rightarrow> exchange_book) \<Rightarrow> bool \<Rightarrow> QuoteHandler \<Rightarrow> 'w \<Rightarrow>
      QuoteHandler \<Rightarrow> 'w \<Rightarrow> bool" where
  "keeps_log view tc X ord h w h' w' \<longleftrightarrow>
     (\<forall>G H. log_ok view tc X ord h w G H \<longrightarrow> (\<exists>G' H'. log_ok view tc X ord h' w' (G @ G') (H @ H')))"

lemma keeps_log_refl [simp]: "keeps_log view tc X ord h w h w"
  unfolding keeps_log_def by (metis append_Nil2)

lemma keeps_log_trans:
  "keeps_log view tc X ord h w h1 w1 \<Longrightarrow> keeps_log view tc X ord h1 w1 h2 w2 \<Longrightarrow> keeps_log view tc X ord h w h2 w2"
  unfolding keeps_log_def by (metis append_assoc)

text \<open>Methods that publish nothing.\<close>

definition quiet :: "QuoteHandler \<Rightarrow> QuoteHandler \<Rightarrow> bool" where
  "quiet h h' \<longleftrightarrow> same_wiring h h' \<and> qh_tp h' = qh_tp h \<and> qh_fhSeqNo h' = qh_fhSeqNo h \<and>
     (\<forall>i < numSymbols h. sb_hasPublished (book h' i) = sb_hasPublished (book h i) \<and>
        sb_lastPublished (book h' i) = sb_lastPublished (book h i))"

lemma quiet_refl [simp]: "quiet h h"
  by (simp add: quiet_def)

lemma quiet_trans: "quiet h h1 \<Longrightarrow> quiet h1 h2 \<Longrightarrow> quiet h h2"
  by (auto simp: quiet_def same_wiring_def)

lemma is_row_wiring: "same_wiring h h' \<Longrightarrow> is_row h' = is_row h"
  by (simp add: is_row_def same_wiring_def getSymbol_def fun_eq_iff)

lemma quiet_keeps_log:
  assumes "quiet h h'"
  shows "keeps_log view tc X ord h w h' w"
  unfolding keeps_log_def
proof (intro allI impI)
  fix G H assume l: "log_ok view tc X ord h w G H"
  have w: "same_wiring h h'" using assms by (simp add: quiet_def)
  have "log_ok view tc X ord h' w G H"
    using l assms w is_row_wiring [OF w] unfolding log_ok_def remembers_def
    by (simp add: quiet_def same_wiring_def)
  then show "\<exists>G' H'. log_ok view tc X ord h' w (G @ G') (H @ H')" by (metis append_Nil2)
qed

lemma quiet_frame:
  assumes "qh_books h' = qh_books h" "qh_tp h' = qh_tp h" "qh_fhSeqNo h' = qh_fhSeqNo h" "qh_cfg h' = qh_cfg h"
    "length (qh_latestRequestId h') = length (qh_latestRequestId h)"
    "length (qh_requestedAtMs h') = length (qh_requestedAtMs h)"
  shows "quiet h h'"
  using assms by (simp add: quiet_def same_wiring_def numSymbols_def book_cfg_def book_def)

text \<open>An update of one book that leaves the last published quote alone.\<close>

definition same_published :: "SymBook \<Rightarrow> SymBook \<Rightarrow> bool" where
  "same_published s s' \<longleftrightarrow> sb_hasPublished s' = sb_hasPublished s \<and> sb_lastPublished s' = sb_lastPublished s"

lemma quiet_upd_book:
  assumes "i < numSymbols h" "\<And>c r c' s'. f c (book h i) = (r, c', s') \<Longrightarrow> same_published (book h i) s'"
  shows "quiet h (snd (upd_book i f h))"
proof -
  obtain r c s where f: "f (om_ctr (qh_books h)) (book h i) = (r, c, s)" by (metis prod_cases3)
  from assms(2) [OF f] show ?thesis
    by (simp add: quiet_def book_upd_book [of f h i, OF f assms(1)] same_published_def)
qed

lemma quiet_map_book: "i < numSymbols h \<Longrightarrow> same_published (book h i) (f (book h i)) \<Longrightarrow> quiet h (map_book i f h)"
  unfolding map_book_def by (rule quiet_upd_book) auto

lemma onSnapshot_published: "onSnapshot cfg i bs as c s = (r, c', s') \<Longrightarrow> same_published s s'"
proof (erule onSnapshot_cases)
  assume "finishRefresh cfg i bs as c (s\<lparr>sb_snapshotRequested := False\<rparr>) = (r, c', s')"
  from finishRefresh_frame [OF this] show "same_published s s'" by (simp add: same_published_def)
next
  fix failed s2
  assume "replayLive cfg (sb_deltaBuffer s) c
      (applySnapshot cfg i bs as (s\<lparr>sb_snapshotRequested := False, sb_refreshPending := False\<rparr>)) = (failed, c', s2)"
    "s' = s2\<lparr>sb_deltaBuffer := []\<rparr>"
  then show "same_published s s'" using replayLive_published by (fastforce simp: same_published_def applySnapshot_def)
qed (simp add: same_published_def)

lemma same_published_simps [simp]:
  "same_published s s" "same_published s (setSnapshotRequested v s)" "same_published s (beginRefresh s)" "same_published s (reset s)"
  "cancelRefresh c s = (c', s') \<Longrightarrow> same_published s s'" "bufferDelta d c s = (r, c', s') \<Longrightarrow> same_published s s'"
  "applyDelta cfg d c s = (ok, c', s') \<Longrightarrow> same_published s s'"
  using bufferDelta_frame [of d c s r c' s'] applyDelta_published [of cfg d c s ok c' s']
  by (auto simp: same_published_def setSnapshotRequested_def beginRefresh_def reset_def cancelRefresh_def book_frame_def split: if_splits)

lemma requestSnapshot_quiet: "i < numSymbols h \<Longrightarrow> quiet h (requestSnapshot rd i h)"
proof -
  assume i: "i < numSymbols h"
  have "quiet h (map_book i (setSnapshotRequested True) h)" by (rule quiet_map_book [OF i]) simp
  moreover have "quiet (map_book i (setSnapshotRequested True) h) (requestSnapshot rd i h)"
    by (rule quiet_frame) (simp_all add: requestSnapshot_def map_book_def Let_def split: prod.split)
  ultimately show ?thesis by (rule quiet_trans)
qed

lemma tryRequest_quiet:
  assumes i: "i < numSymbols h" and b: "\<And>s. same_published s (before s)"
  shows "quiet h (tryRequest rd before i h)"
proof -
  obtain a sc where a: "tryAcquire i (rd_steadyMs rd) (qh_scheduler h) = (a, sc)" by fastforce
  let ?h = "h\<lparr>qh_scheduler := sc\<rparr>"
  have f: "quiet h ?h" by (rule quiet_frame) simp_all
  have i1: "i < numSymbols ?h" using i by (simp add: numSymbols_def)
  have m: "quiet ?h (map_book i before ?h)" by (rule quiet_map_book [OF i1]) (rule b)
  then have "i < numSymbols (map_book i before ?h)" using i1 by (simp add: quiet_def same_wiring_def)
  then have "quiet h (requestSnapshot rd i (map_book i before ?h))"
    using f m requestSnapshot_quiet by (blast intro: quiet_trans)
  then show ?thesis using a f by (cases a) (simp_all add: tryRequest_def)
qed

lemma dropRequest_quiet: "i < numSymbols h \<Longrightarrow> quiet h (dropRequest i h)"
proof -
  assume i: "i < numSymbols h"
  let ?h = "snd (upd_book i (\<lambda>c s. ((), cancelRefresh c s)) h)"
  have 1: "quiet h ?h" by (rule quiet_upd_book [OF i]) (auto simp: prod_eq_iff)
  then have "i < numSymbols ?h" using i by (simp add: quiet_def same_wiring_def)
  then have "quiet ?h (dropRequest i h)" unfolding dropRequest_def by (rule quiet_map_book) simp
  with 1 show ?thesis by (rule quiet_trans)
qed

lemma expireRequest_drop:
  "expireRequest now jit i h =
     (if qh_requestedAtMs h ! i \<noteq> 0 \<and> SNAPSHOT_TIMEOUT_MS < now - qh_requestedAtMs h ! i then
        (dropRequest i h)\<lparr>qh_latestRequestId := (qh_latestRequestId h)[i := Suc (qh_latestRequestId h ! i)],
          qh_requestedAtMs := (qh_requestedAtMs h)[i := 0],
          qh_scheduler := onFailure i now 0 0 (-1) (jit i) (qh_scheduler h),
          qh_snapshotFailures := qh_snapshotFailures (dropRequest i h) + 1\<rparr> else h)"
  by (simp add: expireRequest_def Let_def dropRequest_def map_book_def upd_book_tables)

lemma expireRequest_quiet: "i < numSymbols h \<Longrightarrow> quiet h (expireRequest now jit i h)"
proof -
  assume i: "i < numSymbols h"
  have "quiet (dropRequest i h) (expireRequest now jit i h)"
    if "qh_requestedAtMs h ! i \<noteq> 0 \<and> SNAPSHOT_TIMEOUT_MS < now - qh_requestedAtMs h ! i"
    unfolding expireRequest_drop if_P [OF that] by (rule quiet_frame) (simp_all add: dropRequest_def map_book_def)
  moreover have "expireRequest now jit i h = h"
    if "\<not> (qh_requestedAtMs h ! i \<noteq> 0 \<and> SNAPSHOT_TIMEOUT_MS < now - qh_requestedAtMs h ! i)"
    unfolding expireRequest_drop by (rule if_not_P [OF that])
  ultimately show ?thesis using dropRequest_quiet [OF i] quiet_trans by (metis quiet_refl)
qed

lemma applyResult_quiet:
  assumes "sr_symIdx r < numSymbols h"
  shows "quiet h (applyResult now jit r h)"
proof -
  define i where "i = sr_symIdx r"
  let ?d = "sr_data r"
  let ?f = "onSnapshot (book_cfg h) (sd_lastUpdateId ?d) (sd_bids ?d) (sd_asks ?d)"
  have i: "i < numSymbols h" using assms by (simp add: i_def)
  consider (stale) "sr_requestId r < qh_latestRequestId h ! i"
    | (failed) "\<not> sr_requestId r < qh_latestRequestId h ! i" "\<not> sd_success ?d"
    | (good) "\<not> sr_requestId r < qh_latestRequestId h ! i" "sd_success ?d" by blast
  then show ?thesis
  proof cases
    case stale
    then show ?thesis by (simp add: applyResult_def Let_def i_def)
  next
    case failed
    have "quiet (dropRequest i h) (applyResult now jit r h)"
      by (rule quiet_frame)
        (use failed in \<open>simp_all add: applyResult_def Let_def dropRequest_def map_book_def upd_book_tables flip: i_def\<close>)
    with dropRequest_quiet [OF i] show ?thesis by (rule quiet_trans)
  next
    case good
    define h1 where "h1 = snd (upd_book i ?f h)"
    define h2 where "h2 = h1\<lparr>qh_requestedAtMs := (qh_requestedAtMs h)[i := 0],
      qh_scheduler := onFetchOk now (sd_usedWeight1m ?d) (qh_scheduler h)\<rparr>"
    have e: "applyResult now jit r h = afterSnapshot now (jit (sr_requestId r)) i (fst (upd_book i ?f h)) h2"
      using good by (simp add: applyResult_def Let_def h1_def h2_def upd_book_tables split_def flip: i_def)
    have "quiet h h1" unfolding h1_def by (rule quiet_upd_book [OF i]) (rule onSnapshot_published)
    moreover have "quiet h1 h2" by (rule quiet_frame) (simp_all add: h2_def h1_def)
    moreover have "quiet h2 (applyResult now jit r h)"
      unfolding e by (rule quiet_frame; cases "fst (upd_book i ?f h)") (simp_all add: afterSnapshot_def)
    ultimately show ?thesis by (blast intro: quiet_trans)
  qed
qed

lemma fold_expire_quiet: "\<forall>i \<in> set is. i < numSymbols h \<Longrightarrow> quiet h (fold (expireRequest now jit) is h)"
proof (induction "is" arbitrary: h)
  case (Cons i "is")
  have q: "quiet h (expireRequest now jit i h)" using expireRequest_quiet Cons.prems by simp
  then have "\<forall>j \<in> set is. j < numSymbols (expireRequest now jit i h)"
    using Cons.prems by (simp add: quiet_def same_wiring_def)
  then show ?case using Cons.IH q by (auto intro: quiet_trans)
qed simp

lemma fold_apply_quiet: "\<forall>r \<in> set rs. sr_symIdx r < numSymbols h \<Longrightarrow> quiet h (fold (applyResult now jit) rs h)"
proof (induction rs arbitrary: h)
  case (Cons r rs)
  have q: "quiet h (applyResult now jit r h)" using applyResult_quiet Cons.prems by simp
  then have "\<forall>x \<in> set rs. sr_symIdx x < numSymbols (applyResult now jit r h)"
    using Cons.prems by (simp add: quiet_def same_wiring_def)
  then show ?case using Cons.IH q by (auto intro: quiet_trans)
qed simp

lemma drained_symbols:
  assumes ok: "handler_ok X ord {} [] h" and d: "drainResults (qh_worker h) = (rs, wk)"
  shows "\<forall>r \<in> set rs. sr_symIdx r < numSymbols h"
proof -
  have "requests_ok X (book_cfg h) rs (qh_latestRequestId h, qh_requestedAtMs h, wk)"
    by (rule requests_drain [OF _ d]) (use ok in \<open>simp add: handler_ok_def requests_def\<close>)
  then have t: "table_ok (answer_key ` set rs \<union> owed wk) (qh_latestRequestId h) (qh_requestedAtMs h)"
    by (simp add: requests_ok_def)
  show ?thesis using table_okD(1) [OF t] ok by (force simp: answer_key_def handler_ok_def wired_def)
qed

lemma applySnapshotResults_quiet:
  assumes "handler_ok X ord {} [] h"
  shows "quiet h (applySnapshotResults now je jr h)"
proof -
  define h1 where "h1 = fold (expireRequest now je) [0..<length (qh_requestedAtMs h)] h"
  have n: "length (qh_requestedAtMs h) = numSymbols h" using assms by (simp add: handler_ok_def wired_def)
  have q1: "quiet h h1" unfolding h1_def by (rule fold_expire_quiet) (simp add: n)
  have o1: "handler_ok X ord {} [] h1"
    using fold_expire_ok [OF assms, of "[0..<length (qh_requestedAtMs h)]"] n by (simp add: h1_def list_all_iff)
  obtain rs wk where d: "drainResults (qh_worker h1) = (rs, wk)" by fastforce
  let ?h2 = "h1\<lparr>qh_worker := wk\<rparr>"
  have q2: "quiet h1 ?h2" by (rule quiet_frame) simp_all
  have "\<forall>r \<in> set rs. sr_symIdx r < numSymbols ?h2" using drained_symbols [OF o1 d] by (simp add: numSymbols_def)
  then have "quiet ?h2 (fold (applyResult now jr) rs ?h2)" by (rule fold_apply_quiet)
  moreover have "applySnapshotResults now je jr h = fold (applyResult now jr) rs ?h2"
    using d by (simp add: applySnapshotResults_def Let_def h1_def)
  ultimately show ?thesis using q1 q2 by (metis quiet_trans)
qed

section \<open>A publication\<close>

lemma getQuote_shape:
  "length (q_bidPrices (getQuote cfg sy s t n)) = bc_depth cfg" "length (q_bidQtys (getQuote cfg sy s t n)) = bc_depth cfg"
  "length (q_askPrices (getQuote cfg sy s t n)) = bc_depth cfg" "length (q_askQtys (getQuote cfg sy s t n)) = bc_depth cfg"
  "q_sym (getQuote cfg sy s t n) = sy" "q_fhSeqNo (getQuote cfg sy s t n) = n"
  by (simp_all add: getQuote_def Let_def emptyQuote_def)

lemma getQuote_exact:
  assumes "book_reach cfg X ord (c, s)" "cfg_ok cfg"
  shows "exact_quote cfg X (getQuote cfg sy s t n)"
  unfolding exact_quote_def
proof
  assume v: "q_isValid (getQuote cfg sy s t n)"
  have "sym_inv cfg X s" using book_reach_inv [OF assms] by simp
  note tops = valid_book_tops [OF this getQuote_valid(1,2) [OF v]]
  show "\<exists>B A. top_levels True (bc_depth cfg) (fst (X (q_exchUpdateId (getQuote cfg sy s t n)))) B \<and>
      top_levels False (bc_depth cfg) (snd (X (q_exchUpdateId (getQuote cfg sy s t n)))) A \<and>
      shows_levels (bc_depth cfg) (q_bidPrices (getQuote cfg sy s t n)) (q_bidQtys (getQuote cfg sy s t n)) B \<and>
      shows_levels (bc_depth cfg) (q_askPrices (getQuote cfg sy s t n)) (q_askQtys (getQuote cfg sy s t n)) A"
    unfolding getQuote_valid(3) [OF v] using tops getQuote_valid(6,7) [OF v] by blast
qed

lemma getQuote_follows:
  assumes "book_reach cfg X True (c, s)" "cfg_ok cfg" "sb_hasPublished s"
  shows "follows cfg (sb_lastPublished s) (getQuote cfg sy s t n)"
  unfolding follows_def
proof (intro impI, elim conjE)
  assume p: "q_isValid (sb_lastPublished s)" and v: "q_isValid (getQuote cfg sy s t n)"
  note g = getQuote_valid [OF v]
  have "chain_inv cfg s" using book_reach_chain [OF assms(1,2)] by simp
  then have ch: "chains_from cfg (sb_lastPublished s) s"
    using assms(3) p g(1) by (simp add: chain_inv_def lastPublishedValid_def)
  have "bc_sync cfg \<noteq> Futures \<Longrightarrow> bc_sync cfg = Spot" by (cases "bc_sync cfg") simp_all
  with ch show "q_exchUpdateId (getQuote cfg sy s t n) = q_exchUpdateId (sb_lastPublished s) \<and>
      q_exchFirstUpdateId (getQuote cfg sy s t n) = q_exchFirstUpdateId (sb_lastPublished s) \<or>
      q_exchUpdateId (sb_lastPublished s) \<le> q_exchUpdateId (getQuote cfg sy s t n) \<and>
      (if bc_sync cfg = Futures then q_exchPrevUpdateId (getQuote cfg sy s t n) = q_exchUpdateId (sb_lastPublished s)
       else q_exchFirstUpdateId (getQuote cfg sy s t n) \<le> q_exchUpdateId (sb_lastPublished s) + 1)"
    by (cases "sb_rangeClosed s") (simp_all add: chains_from_def g)
qed

text \<open>A quote that may be published for symbol \<open>i\<close> now.\<close>

definition good_quote :: "(nat \<Rightarrow> int \<Rightarrow> exchange_book) \<Rightarrow> bool \<Rightarrow> QuoteHandler \<Rightarrow> nat \<Rightarrow> BookQuote \<Rightarrow> bool" where
  "good_quote X ord h i q \<longleftrightarrow> q_sym q = getSymbol h i \<and> q_fhSeqNo q = qh_fhSeqNo h + 1 \<and>
     length (q_bidPrices q) = nat (qm_depth (qh_cfg h)) \<and> length (q_bidQtys q) = nat (qm_depth (qh_cfg h)) \<and>
     length (q_askPrices q) = nat (qm_depth (qh_cfg h)) \<and> length (q_askQtys q) = nat (qm_depth (qh_cfg h)) \<and>
     exact_quote (book_cfg h) (X i) q \<and>
     (ord \<and> sb_hasPublished (book h i) \<longrightarrow> follows (book_cfg h) (sb_lastPublished (book h i)) q)"

lemma good_getQuote:
  assumes "handler_ok X ord E P h" "i < numSymbols h"
  shows "good_quote X ord h i (getQuote (book_cfg h) (getSymbol h i) (book h i) t (qh_fhSeqNo h + 1))"
proof -
  have r: "book_reach (book_cfg h) (X i) ord (om_ctr (qh_books h), book h i)" and c: "cfg_ok (book_cfg h)"
    and d: "bc_depth (book_cfg h) = nat (qm_depth (qh_cfg h))"
    using assms books_okD(1) [of X ord E h i] by (auto simp: handler_ok_def wired_def)
  show ?thesis
    using getQuote_exact [OF r c] getQuote_follows [OF _ c, of "X i" "om_ctr (qh_books h)" "book h i"] r
    by (auto simp: good_quote_def getQuote_shape d)
qed

lemma good_invalid:
  "good_quote X ord h i ((emptyQuote (nat (qm_depth (qh_cfg h))))\<lparr>q_sym := getSymbol h i, q_isValid := False,
     q_fhRecvTimeUtcNs := t, q_fhSeqNo := qh_fhSeqNo h + 1\<rparr>)"
  by (simp add: good_quote_def emptyQuote_def exact_quote_def follows_def)

lemma quotes_of_snoc: "quotes_of j (G @ [(i, q)]) = quotes_of j G @ (if j = i then [q] else [])"
  by (simp add: quotes_of_def)

lemma publish_keeps_log:
  assumes con: "tp_contract io view tc"
    and pub: "publishQuote io rd q (h\<lparr>qh_fhSeqNo := qh_fhSeqNo h + 1\<rparr>) w = Some (h2, w')"
    and q: "good_quote X ord h i q" and i: "i < numSymbols h"
  shows "keeps_log view tc X ord h w (map_book i (recordPublish now q) h2) w'"
  unfolding keeps_log_def
proof (intro allI impI)
  fix G H assume l: "log_ok view tc X ord h w G H"
  let ?f = "qm_publishTransactTime (qh_cfg h)" and ?d = "nat (qm_depth (qh_cfg h))"
  let ?h1 = "h\<lparr>qh_fhSeqNo := qh_fhSeqNo h + 1\<rparr>" and ?h' = "map_book i (recordPublish now q) h2"
  obtain st rc where st: "stamp (q_fhRecvTimeUtcNs q) (q_exchEventTimeMs q) (qh_rowClock h) = (st, rc)" by fastforce
  define r where "r = buildQuoteRow q (st_timeUtcNs st) (qh_lastParseUs h) (rd_sendUs rd) ?f"
  note sh = quote_row_shape [of q ?d "st_timeUtcNs st" "qh_lastParseUs h" _ ?f]
  have r: "length r = quoteRowWidth ?d ?f" "last r = KLong (q_fhSeqNo q)"
      "(buildQuoteRow q (st_timeUtcNs st) (qh_lastParseUs h) 0 ?f)[quoteSendUsIndex ?d ?f := KLong (rd_sendUs rd)] = r"
    using sh q by (simp_all add: r_def good_quote_def)
  then have "r \<noteq> []" by (auto simp: quoteRowWidth_def)
  then have seq: "row_seq r = qh_fhSeqNo h + 1" using r(2) q by (simp add: row_seq_def good_quote_def)
  obtain b tp where p: "publish io r (row_seq r) (qh_tp h) w = Some (b, tp, w')" and t2: "qh_tp h2 = tp"
    using pub st r(3) q seq unfolding publishQuote_def Let_def
    by (auto simp: good_quote_def split: option.splits)
  have ready: "tp_ready view tp (H @ [r]) w' \<and> p_cfg tp = tc"
    using publish_ready [OF _ _ _ p, of view H] con l seq by (auto simp: log_ok_def)
  have w2: "same_wiring h h2" "book h2 = book h" "numSymbols h2 = numSymbols h"
    using publishQuote_same [OF pub] by (simp_all add: same_wiring_def numSymbols_def book_def book_cfg_def fun_eq_iff)
  then have wir: "same_wiring h ?h'" by (blast intro: same_wiring_trans map_book_wiring)
  have bk: "book ?h' j = (if j = i then recordPublish now q (book h i) else book h j)" for j
    using book_map_book [of i h2] i w2 by simp
  have "is_row h (i, q) r" unfolding is_row_def using q r(1) r_def by (auto simp: good_quote_def)
  then have "list_all2 (is_row h) (G @ [(i, q)]) (H @ [r])"
    using l by (intro list_all2_appendI) (simp_all add: log_ok_def)
  then have rows: "list_all2 (is_row ?h') (G @ [(i, q)]) (H @ [r])" unfolding is_row_wiring [OF wir] .
  have seqno: "qh_fhSeqNo ?h' = qh_fhSeqNo h + 1" using publishQuote_frame(6) [OF pub] by (simp add: map_book_def)
  have rem: "remembers (book ?h' j) (quotes_of j (G @ [(i, q)])) \<and>
      (ord \<longrightarrow> successively (follows (book_cfg h)) (quotes_of j (G @ [(i, q)])))" if j: "j < numSymbols h" for j
  proof -
    have old: "remembers (book h j) (quotes_of j G)" "ord \<Longrightarrow> successively (follows (book_cfg h)) (quotes_of j G)"
      using l j by (simp_all add: log_ok_def)
    show ?thesis
    proof (cases "j = i")
      case True
      have "follows (book_cfg h) (last (quotes_of j G)) q" if "ord" "quotes_of j G \<noteq> []"
        using that old(1) q True by (simp add: remembers_def good_quote_def)
      then show ?thesis using True old(2) bk [of j]
        by (auto simp: quotes_of_snoc remembers_def recordPublish_def successively_append_iff)
    qed (use old bk [of j] in \<open>simp add: quotes_of_snoc\<close>)
  qed
  have "log_ok view tc X ord ?h' w' (G @ [(i, q)]) (H @ [r])"
    using ready rows rem l q i wir seqno t2 by (auto simp: log_ok_def same_wiring_def map_book_def good_quote_def)
  then show "\<exists>G' H'. log_ok view tc X ord ?h' w' (G @ G') (H @ H')" by blast
qed

lemma maybePublish_log:
  assumes con: "tp_contract io view tc" and run: "maybePublish io rd i t h w = Some (h', w')"
    and ok: "handler_ok X ord E P h" and i: "i < numSymbols h"
  shows "keeps_log view tc X ord h w h' w'"
proof -
  define q where "q = getQuote (book_cfg h) (getSymbol h i) (book h i) t (qh_fhSeqNo h + 1)"
  have qn: "q\<lparr>q_fhSeqNo := qh_fhSeqNo h + 1\<rparr> = q" by (simp add: q_def getQuote_def Let_def)
  show ?thesis
  proof (cases "shouldPublish (rd_checkNs rd) (book h i) q")
    case False
    then show ?thesis using run by (simp add: maybePublish_def q_def)
  next
    case True
    then obtain h2 where p: "publishQuote io rd q (h\<lparr>qh_fhSeqNo := qh_fhSeqNo h + 1\<rparr>) w = Some (h2, w')"
      and h': "h' = map_book i (recordPublish (rd_recordNs rd) q) h2"
      using run qn unfolding maybePublish_def q_def [symmetric] Let_def by (auto split: option.splits)
    have "good_quote X ord h i q" unfolding q_def by (rule good_getQuote [OF ok i])
    from publish_keeps_log [OF con p this i] show ?thesis unfolding h' .
  qed
qed

lemma publishInvalid_log:
  assumes con: "tp_contract io view tc" and run: "publishInvalid io rd i t h w = Some (h', w')" and i: "i < numSymbols h"
  shows "keeps_log view tc X ord h w h' w'"
proof -
  define q where "q = (emptyQuote (nat (qm_depth (qh_cfg h))))\<lparr>q_sym := getSymbol h i, q_isValid := False,
            q_fhRecvTimeUtcNs := t, q_fhSeqNo := qh_fhSeqNo h + 1\<rparr>"
  obtain h2 where p: "publishQuote io rd q (h\<lparr>qh_fhSeqNo := qh_fhSeqNo h + 1\<rparr>) w = Some (h2, w')"
    and h': "h' = map_book i (recordPublish (rd_recordNs rd) q) h2"
    using run unfolding publishInvalid_def Let_def by (auto simp: q_def split: option.splits)
  have "good_quote X ord h i q" unfolding q_def by (rule good_invalid)
  from publish_keeps_log [OF con p this i] show ?thesis unfolding h' .
qed

section \<open>Every method keeps the log\<close>

lemma timeoutLoop_log:
  assumes con: "tp_contract io view tc"
  shows "timeoutLoop io rd t is h w = Some (h', w') \<Longrightarrow> handler_ok X ord E P h \<Longrightarrow>
    list_all (\<lambda>i. i < numSymbols h) is \<Longrightarrow> keeps_log view tc X ord h w h' w'"
proof (induction "is" arbitrary: h w)
  case (Cons i "is")
  define q where "q = getQuote (book_cfg h) (getSymbol h i) (book h i) t (qh_fhSeqNo h + 1)"
  have i: "i < numSymbols h" using Cons.prems(3) by simp
  show ?case
  proof (cases "q_isValid q")
    case False
    then show ?thesis using Cons by (simp add: q_def)
  next
    case True
    let ?h = "h\<lparr>qh_fhSeqNo := qh_fhSeqNo h + 1\<rparr>"
    obtain h1 w1 where p: "publishQuote io (rd i) q ?h w = Some (h1, w1)"
      and r: "timeoutLoop io rd t is (map_book i (recordPublish (rd_recordNs (rd i)) q) h1) w1 = Some (h', w')"
      using Cons.prems(1) True unfolding q_def by (auto simp: Let_def split: option.splits)
    let ?h1 = "map_book i (recordPublish (rd_recordNs (rd i)) q) h1"
    have "good_quote X ord h i q" unfolding q_def by (rule good_getQuote [OF Cons.prems(2) i])
    note k = publish_keeps_log [OF con p this i, of "rd_recordNs (rd i)"]
    have "timeoutLoop io rd t [i] h w = Some (?h1, w1)" using True p by (simp add: q_def Let_def)
    then have o1: "handler_ok X ord E P ?h1 \<and> same_wiring h ?h1" by (rule timeoutLoop_ok) (use Cons.prems i in simp_all)
    then have "list_all (\<lambda>i. i < numSymbols ?h1) is" using Cons.prems(3) by (simp add: same_wiring_def)
    from keeps_log_trans [OF k Cons.IH [OF r _ this]] o1 show ?thesis by blast
  qed
qed simp

lemma checkPublishTimeouts_log:
  assumes "tp_contract io view tc" "checkPublishTimeouts io rd ns t h w = Some (h', w')" "handler_ok X ord E P h"
  shows "keeps_log view tc X ord h w h' w'"
  using timeoutLoop_log [OF assms(1) assms(2) [unfolded checkPublishTimeouts_def] assms(3)]
  by (simp add: getTimeoutPublishNeeded_def numSymbols_def list_all_iff)

lemma publishInvalid_wiring:
  assumes "publishInvalid io rd i t h w = Some (h', w')" "i < numSymbols h"
  shows "same_wiring h h'"
proof -
  obtain q h2 where p: "publishQuote io rd q (h\<lparr>qh_fhSeqNo := qh_fhSeqNo h + 1\<rparr>) w = Some (h2, w')"
    and h': "h' = map_book i (recordPublish (rd_recordNs rd) q) h2"
    using assms(1) unfolding publishInvalid_def Let_def by (auto split: option.splits)
  have "same_wiring h h2"
    using publishQuote_same(1) [OF p] by (simp add: same_wiring_def numSymbols_def book_cfg_def)
  then show ?thesis unfolding h' by (rule same_wiring_trans) simp
qed

lemma handleLive_log:
  assumes con: "tp_contract io view tc" and run: "handleLive io rd i d t h w = Some (h', w')"
    and ok: "handler_ok X ord {} [] h" and i: "i < numSymbols h" and ev: "event_ok X ord i d h"
  shows "keeps_log view tc X ord h w h' w'"
proof -
  let ?f = "applyDelta (book_cfg h) d"
  obtain a c s where ap: "?f (om_ctr (qh_books h)) (book h i) = (a, c, s)" by (metis prod_cases3)
  obtain h1 where u: "upd_book i ?f h = (a, h1)"
    using upd_book_books(1) [of ?f h i, OF ap] by (cases "upd_book i ?f h") simp
  have "quiet h (snd (upd_book i ?f h))" by (rule quiet_upd_book [OF i]) simp
  then have q1: "quiet h h1" using u by simp
  then have i1: "i < numSymbols h1" using i by (simp add: quiet_def same_wiring_def)
  show ?thesis
  proof (cases a)
    case False
    define h3 where "h3 = (let h2 = (if sb_state (book h i) = VALID then h1\<lparr>qh_sequenceGaps := qh_sequenceGaps h1 + 1\<rparr>
        else h1\<lparr>qh_scheduler := onFailure i (rd_steadyMs rd) 0 0 (-1) (rd_jitter rd) (qh_scheduler h1)\<rparr>)
        in h2\<lparr>qh_resyncs := qh_resyncs h2 + 1\<rparr>)"
    have q3: "quiet h1 h3" by (rule quiet_frame) (simp_all add: h3_def Let_def)
    then have i3: "i < numSymbols h3" using i1 by (simp add: quiet_def same_wiring_def)
    obtain h4 where p: "publishInvalid io rd i t h3 w = Some (h4, w')" and h': "h' = map_book i reset h4"
      using run u False unfolding handleLive_def Let_def h3_def by (auto split: option.splits)
    have "quiet h h3" using q1 q3 by (rule quiet_trans)
    then have k: "keeps_log view tc X ord h w h4 w'"
      using publishInvalid_log [OF con p i3] by (blast intro: keeps_log_trans quiet_keeps_log)
    have "i < numSymbols h4" using publishInvalid_wiring [OF p i3] i3 by (simp add: same_wiring_def)
    then have "quiet h4 h'" unfolding h' by (rule quiet_map_book) simp
    with k show ?thesis by (blast intro: keeps_log_trans quiet_keeps_log)
  next
    case True
    have o1: "handler_ok X ord {} [] h1"
    proof -
      note fr = applyDelta_frame [OF ap]
      have "pub_ok s" using books_okD(3) [of X ord "{}" h i] ok i fr True book_frame_pub_ok by (auto simp: handler_ok_def)
      moreover have "book_step (book_cfg h) (X i) ord (om_ctr (qh_books h), book h i) (c, s)"
        using ev by (intro step_delta [OF _ _ ap]) (auto simp: event_ok_def)
      ultimately have "handler_ok X ord {} [] (snd (upd_book i ?f h))"
        using fr by (intro upd_book_handler_ok [of X ord _ _ h i ?f, OF ok i ap]) auto
      then show ?thesis using u by simp
    qed
    show ?thesis
    proof (cases "isValid (book h1 i)")
      case False
      then have "h' = h1" "w' = w" using run u True by (simp_all add: handleLive_def)
      then show ?thesis using q1 by (simp add: quiet_keeps_log)
    next
      case valid: True
      define h2 where "h2 = (if sb_state (book h i) = SYNCING then h1\<lparr>qh_scheduler := onSynced i (qh_scheduler h1)\<rparr> else h1)"
      have o2: "handler_ok X ord {} [] h2" by (rule handler_ok_frame [OF o1]) (simp_all add: h2_def requests_def)
      have q2: "quiet h1 h2" by (rule quiet_frame) (simp_all add: h2_def)
      then have i2: "i < numSymbols h2" using i1 by (simp add: quiet_def same_wiring_def)
      have v2: "isValid (book h2 i)" using valid by (simp add: h2_def book_def)
      obtain h3 where p: "maybePublish io rd i t h2 w = Some (h3, w')"
        and h': "h' = (if wantsRefresh (book_cfg h3) (book h3 i) then tryRequest rd beginRefresh i h3 else h3)"
        using run u True valid unfolding handleLive_def Let_def h2_def by (auto split: option.splits)
      have "i < numSymbols h3" using maybePublish_ok [OF p o2 i2 v2] i2 by (simp add: same_wiring_def)
      then have "quiet h3 h'" unfolding h' by (simp add: tryRequest_quiet)
      moreover have "quiet h h2" using q1 q2 by (rule quiet_trans)
      ultimately show ?thesis
        using maybePublish_log [OF con p o2 i2] by (blast intro: keeps_log_trans quiet_keeps_log)
    qed
  qed
qed

lemma handleDelta_log:
  assumes con: "tp_contract io view tc" and run: "handleDelta io rd i d t h w = Some (h', w')"
    and ok: "handler_ok X ord {} [] h" and i: "i < numSymbols h" and ev: "event_ok X ord i d h"
  shows "keeps_log view tc X ord h w h' w'"
proof (cases "sb_state (book h i)")
  case INIT
  define h1 where "h1 = snd (upd_book i (bufferDelta d) h)"
  have q1: "quiet h h1" unfolding h1_def by (rule quiet_upd_book [OF i]) simp
  then have "i < numSymbols h1" using i by (simp add: quiet_def same_wiring_def)
  then have "quiet h1 (tryRequest rd (\<lambda>s. s) i h1)" by (simp add: tryRequest_quiet)
  moreover have "h' = (if needsSnapshot (book h1 i) then tryRequest rd (\<lambda>s. s) i h1 else h1)" "w' = w"
    using run INIT unfolding h1_def by (auto simp: handleDelta_def Let_def)
  ultimately have "quiet h h'" using q1 by (auto intro: quiet_trans)
  then show ?thesis using \<open>w' = w\<close> by (simp add: quiet_keeps_log)
next
  case INVALID
  have "quiet h (map_book i reset h)" by (rule quiet_map_book [OF i]) simp
  then show ?thesis using run INVALID by (auto simp: handleDelta_def quiet_keeps_log)
qed (use run handleLive_log [OF con _ ok i ev] in \<open>auto simp: handleDelta_def\<close>)

lemma processMessage_log:
  assumes con: "tp_contract io view tc" and run: "processMessage io rd parse msg t h w = Some (h', w')"
    and ok: "handler_ok X ord {} [] h" and m: "message_ok X ord parse msg h"
  shows "keeps_log view tc X ord h w h' w'"
proof -
  have frame: "quiet h (h\<lparr>qh_parseFailures := n\<rparr>)" for n by (rule quiet_frame) simp_all
  consider (out) "h' = h \<or> (\<exists>n. h' = h\<lparr>qh_parseFailures := n\<rparr>)" "w' = w"
    | (delta) doc sy d i where "parse (c_str msg) = Inr doc" "parseDepth (qm_sync (qh_cfg h)) doc = Some (sy, d)"
        "om_symToIdx (qh_books h) sy = Some i"
        "handleDelta io rd i d t (h\<lparr>qh_rowClock := noteEvent (eventTimeMs d) (qh_rowClock h)\<rparr>) w = Some (h', w')"
    using run by (auto simp: processMessage_def getSymbolIndex_def Let_def split: sum.splits option.splits if_splits)
  then show ?thesis
  proof cases
    case out
    then show ?thesis using frame by (auto simp: quiet_keeps_log)
  next
    case (delta doc sy d i)
    let ?h = "h\<lparr>qh_rowClock := noteEvent (eventTimeMs d) (qh_rowClock h)\<rparr>"
    have o: "handler_ok X ord {} [] ?h" by (rule handler_ok_frame [OF ok]) (simp_all add: requests_def)
    have i: "i < numSymbols ?h" using ok delta(3) by (simp add: handler_ok_def wired_def numSymbols_def)
    have e: "event_ok X ord i d ?h" using m delta(1-3) by (simp add: message_ok_def event_ok_def book_def book_cfg_def)
    have "quiet h ?h" by (rule quiet_frame) simp_all
    then show ?thesis using handleDelta_log [OF con delta(4) o i e] by (blast intro: keeps_log_trans quiet_keeps_log)
  qed
qed

lemma onMessage_log:
  assumes con: "tp_contract io view tc" and run: "onMessage io rd rdT us ns parse msg t h w = Some (h', w')"
    and ok: "handler_ok X ord {} [] h" and m: "message_ok X ord parse msg h" and t: "rd_requestMs rd \<noteq> 0"
  shows "keeps_log view tc X ord h w h' w'"
proof -
  let ?h = "h\<lparr>qh_lastMsgTime := t, qh_msgsReceived := qh_msgsReceived h + 1\<rparr>"
  obtain h2 w2 where p: "processMessage io rd parse msg t ?h w = Some (h2, w2)"
    and c: "checkPublishTimeouts io rdT ns t (h2\<lparr>qh_lastParseUs := us\<rparr>) w2 = Some (h', w')"
    using run unfolding onMessage_def Let_def by (auto split: option.splits)
  have o: "handler_ok X ord {} [] ?h" by (rule handler_ok_frame [OF ok]) (simp_all add: requests_def)
  have mm: "message_ok X ord parse msg ?h" using m by (simp add: message_ok_def event_ok_def book_def book_cfg_def)
  have "handler_ok X ord {} [] h2" using processMessage_ok [OF p o mm t] by simp
  then have o2: "handler_ok X ord {} [] (h2\<lparr>qh_lastParseUs := us\<rparr>)"
    by (rule handler_ok_frame) (simp_all add: requests_def)
  have "quiet h ?h" "quiet h2 (h2\<lparr>qh_lastParseUs := us\<rparr>)" by (rule quiet_frame; simp)+
  then show ?thesis using processMessage_log [OF con p o mm] checkPublishTimeouts_log [OF con c o2]
    by (blast intro: keeps_log_trans quiet_keeps_log)
qed

lemma invalidLoop_log:
  assumes con: "tp_contract io view tc"
  shows "invalidLoop io rd t is h w = Some (h', w') \<Longrightarrow> list_all (\<lambda>i. i < numSymbols h) is \<Longrightarrow> keeps_log view tc X ord h w h' w'"
proof (induction "is" arbitrary: h w)
  case (Cons i "is")
  show ?case
  proof (cases "lastPublishedValid (book h i)")
    case True
    obtain h1 w1 where p: "publishInvalid io (rd i) i t h w = Some (h1, w1)"
      and r: "invalidLoop io rd t is h1 w1 = Some (h', w')"
      using Cons.prems(1) True by (auto split: option.splits)
    have i: "i < numSymbols h" using Cons.prems(2) by simp
    have "list_all (\<lambda>i. i < numSymbols h1) is"
      using Cons.prems(2) publishInvalid_wiring [OF p i] by (simp add: same_wiring_def)
    from keeps_log_trans [OF publishInvalid_log [OF con p i] Cons.IH [OF r this]] show ?thesis .
  qed (use Cons in simp)
qed simp

lemma beginConnection_log:
  assumes con: "tp_contract io view tc" and run: "beginConnection io rd t h w = Some (h', w')"
    and ok: "handler_ok X ord {} [] h" and tp: "connected (qh_tp h)"
  shows "keeps_log view tc X ord h w h' w'"
proof -
  let ?h = "h\<lparr>qh_connState := ''connecting''\<rparr>"
  have n: "numSymbols ?h = numSymbols h" by (simp add: numSymbols_def)
  have o0: "handler_ok X ord {} [] ?h" by (rule handler_ok_frame [OF ok]) (simp_all add: requests_def)
  obtain h1 where l: "invalidLoop io rd t [0..<numSymbols h] ?h w = Some (h1, w')"
    and h': "h' = fold giveUpRequest [0..<length (qh_latestRequestId (h1\<lparr>qh_books := resetAll (qh_books h1)\<rparr>))] (h1\<lparr>qh_books := resetAll (qh_books h1)\<rparr>)"
    using run tp n unfolding beginConnection_def Let_def by (auto split: option.splits)
  have o1: "handler_ok X ord {} [] h1" "same_wiring ?h h1" "\<And>j. j < numSymbols h1 \<Longrightarrow> \<not> lastPublishedValid (book h1 j)"
    using invalidLoop_ok [OF l o0] n by (auto simp: list_all_iff same_wiring_def)
  define h2 where "h2 = h1\<lparr>qh_books := resetAll (qh_books h1)\<rparr>"
  note r = resetAll_ok [OF o1(1,3), folded h2_def]
  then have "\<forall>j < numSymbols h2. \<not> sb_snapshotRequested (book h2 j)"
    "list_all (\<lambda>i. i < numSymbols h2) [0..<length (qh_latestRequestId h2)]"
    by (auto simp: same_wiring_def list_all_iff handler_ok_def wired_def)
  from giveUp_ok [OF conjunct1 [OF r] this]
  have g: "same_wiring h2 h'" "qh_books h' = qh_books h2" "qh_tp h' = qh_tp h2" "qh_fhSeqNo h' = qh_fhSeqNo h2"
    unfolding h' h2_def by simp_all
  have "quiet h ?h" by (rule quiet_frame) simp_all
  moreover have "keeps_log view tc X ord ?h w h1 w'" by (rule invalidLoop_log [OF con l]) (simp add: n list_all_iff)
  moreover have "quiet h1 h2" using r
    by (simp add: quiet_def h2_def book_def numSymbols_def resetAll_def reset_def same_wiring_def book_cfg_def)
  moreover have "quiet h2 h'" using g by (simp add: quiet_def book_def)
  ultimately show ?thesis by (meson keeps_log_trans quiet_keeps_log)
qed

section \<open>The life of a handler\<close>

text \<open>
  What the exchange answers to the request the worker is fetching: whatever the network does, a snapshot that is
  accepted as well formed is the exchange's book at the id it carries.
\<close>

definition answers_ok ::
    "(nat \<Rightarrow> int \<Rightarrow> exchange_book) \<Rightarrow> BookConfig \<Rightarrow> SnapshotWorker \<Rightarrow> (SnapshotRequest \<Rightarrow> SnapshotData) \<Rightarrow> bool" where
  "answers_ok X cfg wk f \<longleftrightarrow> (\<forall>req. sw_pc wk = Fetching req \<and> sd_success (f req) \<longrightarrow>
     genuine_snapshot cfg (X (rq_symIdx req)) (sd_lastUpdateId (f req)) (sd_bids (f req)) (sd_asks (f req)))"

text \<open>
  \<open>run\<close> after a successful \<open>connect\<close>: connections to the exchange come and go, and on each the message loop
  applies what the worker has fetched and reads messages. The worker's thread moves in between.
  A new connection is only begun while the handler is running, so while it is connected to the tickerplant.
\<close>

inductive quote_run ::
    "'w TpIo \<Rightarrow> json_parser \<Rightarrow> (nat \<Rightarrow> int \<Rightarrow> exchange_book) \<Rightarrow> bool \<Rightarrow> QuoteHandler \<Rightarrow> 'w \<Rightarrow> QuoteHandler \<Rightarrow> 'w \<Rightarrow> bool"
  for io parse X ord h0 w0 where
  begin_run: "connect io (qh_fhSeqNo h0 + 1) (qh_tp h0) w0 = Some (True, p, w) \<Longrightarrow>
    quote_run io parse X ord h0 w0 (h0\<lparr>qh_worker := sw_start (qh_worker h0), qh_tp := p\<rparr>) w"
| new_connection: "quote_run io parse X ord h0 w0 h w \<Longrightarrow> connected (qh_tp h) \<Longrightarrow>
    beginConnection io rd t h w = Some (h', w') \<Longrightarrow> quote_run io parse X ord h0 w0 h' w'"
| connection_up: "quote_run io parse X ord h0 w0 h w \<Longrightarrow> quote_run io parse X ord h0 w0 (connectionUp h) w"
| connection_lost: "quote_run io parse X ord h0 w0 h w \<Longrightarrow> connectionLost h = (delay, h') \<Longrightarrow>
    quote_run io parse X ord h0 w0 h' w"
| flag_read: "quote_run io parse X ord h0 w0 h w \<Longrightarrow> running io (qh_tp h) w = (run, w') \<Longrightarrow>
    quote_run io parse X ord h0 w0 h w'"
| waited: "quote_run io parse X ord h0 w0 h w \<Longrightarrow> quote_run io parse X ord h0 w0 h (sleep_loop io (qh_tp h) delay slept w)"
| connection_left: "quote_run io parse X ord h0 w0 h w \<Longrightarrow> quote_run io parse X ord h0 w0 (connectionLeft h) w"
| results: "quote_run io parse X ord h0 w0 h w \<Longrightarrow> quote_run io parse X ord h0 w0 (applySnapshotResults now je jr h) w"
| read_message: "quote_run io parse X ord h0 w0 h w \<Longrightarrow> message_ok X ord parse msg h \<Longrightarrow> rd_requestMs rd \<noteq> 0 \<Longrightarrow>
    onMessage io rd rdT us ns parse msg t h w = Some (h', w') \<Longrightarrow> quote_run io parse X ord h0 w0 h' w'"
| health: "quote_run io parse X ord h0 w0 h w \<Longrightarrow> quote_run io parse X ord h0 w0 h (publishHealth io now h w)"
| snapshot_thread: "quote_run io parse X ord h0 w0 h w \<Longrightarrow>
    f = (\<lambda>req. fetchSnapshot net parse (qh_rest h) (rq_sym req) (qm_snapshotLimit (qh_cfg h))) \<Longrightarrow>
    answers_ok X (book_cfg h) (qh_worker h) f \<Longrightarrow> worker_step f (qh_worker h) = Some wk \<Longrightarrow>
    quote_run io parse X ord h0 w0 (h\<lparr>qh_worker := wk\<rparr>) w"

text \<open>A tickerplant that has not seen the session yet.\<close>

definition fresh_tp :: "TpView \<Rightarrow> bool" where
  "fresh_tp v \<longleftrightarrow> tv_logged v = [] \<and> tv_flight v = [] \<and> \<not> tv_known v"

definition market_ok :: "QuoteMarketConfig \<Rightarrow> bool" where
  "market_ok m \<longleftrightarrow> 0 < qm_snapshotLimit m"

lemma indexSymbols_bound:
  "indexSymbols n sys m sy = Some i \<Longrightarrow> (\<And>j. m sy = Some j \<Longrightarrow> j < k) \<Longrightarrow> n + length sys \<le> k \<Longrightarrow> i < k"
proof (induction sys arbitrary: n m)
  case (Cons a sys)
  have u: "(m(a \<mapsto> n)) sy = Some j \<Longrightarrow> j < k" for j
    using Cons.prems(2,3) by (auto split: if_splits)
  have "indexSymbols (Suc n) sys (m(a \<mapsto> n)) sy = Some i" using Cons.prems(1) by simp
  moreover have "Suc n + length sys \<le> k" using Cons.prems(3) by simp
  ultimately show ?case using Cons.IH u by blast
qed simp

lemma newQuoteHandler_ok:
  assumes "market_ok m"
  shows "handler_ok X ord {} [] (newQuoteHandler symbols m tpHost tpPort startNs steadyNs)"
proof -
  let ?h = "newQuoteHandler symbols m tpHost tpPort startNs steadyNs"
  have n: "numSymbols ?h = length symbols" by (simp add: newQuoteHandler_def Let_def numSymbols_def newManager_def)
  have i: "i < length symbols" if "om_symToIdx (qh_books ?h) sy = Some i" for sy i
    using that indexSymbols_bound [of 0 "map (map upper) symbols" Map.empty sy i "length symbols"]
    by (simp add: newQuoteHandler_def Let_def newManager_def)
  have b: "book ?h j = newSymBook steadyNs" if "j < length symbols" for j
    using that by (simp add: newQuoteHandler_def Let_def book_def newManager_def)
  have "wired ?h" using assms i
    by (simp add: wired_def n) (simp add: newQuoteHandler_def Let_def book_cfg_def newManager_def cfg_ok_def defaultBookConfig_def market_ok_def)
  moreover have "books_ok X ord {} ?h"
    by (auto simp: books_ok_def n b pub_ok_def reach_start) (simp_all add: newSymBook_def lastPublishedValid_def)
  moreover have "requests_ok X (book_cfg ?h) [] (requests ?h)"
    by (simp add: requests_ok_def requests_def newQuoteHandler_def Let_def newWorker_def newQueue_def ids_ok_def
        in_flight_def owed_def table_ok_def)
  ultimately show ?thesis by (simp add: handler_ok_def)
qed

lemma worker_results:
  assumes "worker_step f wk = Some wk'" "r \<in> set (bq_q (sw_results wk'))"
  shows "r \<in> set (bq_q (sw_results wk)) \<or>
    (\<exists>req. sw_pc wk = Fetching req \<and> sr_symIdx r = rq_symIdx req \<and> sr_data r = f req)"
  using assms(1)
proof (cases rule: worker_step_cases)
  case (fetch req q a)
  from fetch(2) show ?thesis
    by (cases rule: bq_push_cases) (use assms(2) fetch(1,3) in \<open>auto dest: in_set_tlD\<close>)
qed (use assms(2) in auto)

lemma worker_handler_ok:
  assumes ok: "handler_ok X ord {} [] h" and st: "worker_step f (qh_worker h) = Some wk"
    and a: "answers_ok X (book_cfg h) (qh_worker h) f"
  shows "handler_ok X ord {} [] (h\<lparr>qh_worker := wk\<rparr>)"
proof -
  have ids: "ids_ok (qh_worker h)" "table_ok (owed (qh_worker h)) (qh_latestRequestId h) (qh_requestedAtMs h)"
    and gen: "\<forall>r \<in> set (bq_q (sw_results (qh_worker h))). genuine_result X (book_cfg h) r"
    using ok by (simp_all add: handler_ok_def requests_ok_def requests_def)
  have ex: "\<exists>f. worker_step f (qh_worker h) = Some wk" using st by blast
  have "genuine_result X (book_cfg h) r" if "r \<in> set (bq_q (sw_results wk))" for r
    using worker_results [OF st that] gen a by (auto simp: genuine_result_def answers_ok_def)
  then have "requests_ok X (book_cfg h) [] (requests (h\<lparr>qh_worker := wk\<rparr>))"
    using snapshot_service.wrk_law [OF ids(1) ex] snapshot_service.table_work [OF ids(1) ex ids(2)]
    by (simp add: requests_ok_def requests_def)
  then have "handler_ok X ord {} [] (h\<lparr>qh_worker := wk\<rparr>) \<and> same_wiring h (h\<lparr>qh_worker := wk\<rparr>)"
    by (intro handler_ok_tables [OF ok]) (use ok books_okD(2) [of X ord "{}" h] in \<open>auto simp: handler_ok_def\<close>)
  then show ?thesis by blast
qed

lemma publishHealth_settles:
  assumes "health_contract io view"
  shows "settles (view w) (view (publishHealth io now h w))"
proof (cases "connected (qh_tp h)")
  case True
  let ?w1 = "snd (io_async io (p_handle (qh_tp h)) ''.u.upd'' [KSym ''health_feed_handler'', KMixed (healthRow now h)] w)"
  have "settles (view w) (view ?w1)" using assms by (simp add: health_contract_def)
  moreover have "settles (view ?w1) (view (sendFhStats io (p_handle (qh_tp h)) (qm_tpTable (qh_cfg h)) (quoteStats h) ?w1))"
    using assms by (rule sendFhStats_settles)
  ultimately show ?thesis using True by (auto simp: publishHealth_def Let_def intro: settles_trans)
qed (simp add: publishHealth_def)

definition quote_inv ::
    "('w \<Rightarrow> TpView) \<Rightarrow> QuoteHandler \<Rightarrow> TpPublisherConfig \<Rightarrow> (nat \<Rightarrow> int \<Rightarrow> exchange_book) \<Rightarrow> bool \<Rightarrow> QuoteHandler \<Rightarrow> 'w \<Rightarrow> bool" where
  "quote_inv view h0 tc X ord h w \<longleftrightarrow> handler_ok X ord {} [] h \<and> same_wiring h0 h \<and> (\<exists>G H. log_ok view tc X ord h w G H)"

lemma quote_invI:
  "handler_ok X ord {} [] h' \<Longrightarrow> same_wiring h h' \<Longrightarrow> keeps_log view tc X ord h w h' w' \<Longrightarrow> quote_inv view h0 tc X ord h w \<Longrightarrow>
     quote_inv view h0 tc X ord h' w'"
  unfolding quote_inv_def keeps_log_def by (blast intro: same_wiring_trans)

lemma quote_inv_quiet:
  "handler_ok X ord {} [] h' \<Longrightarrow> quiet h h' \<Longrightarrow> quote_inv view h0 tc X ord h w \<Longrightarrow> quote_inv view h0 tc X ord h' w"
  by (rule quote_invI [OF _ _ quiet_keeps_log]) (simp_all add: quiet_def)

lemma begin_inv:
  assumes con: "tp_contract io view tc" and tc: "p_cfg (qh_tp h0) = tc" and h0: "handler_ok X ord {} [] h0"
    and new: "qh_tp h0 = newTpPublisher tc" "qh_fhSeqNo h0 = 0" "\<And>j. j < numSymbols h0 \<Longrightarrow> \<not> sb_hasPublished (book h0 j)"
    and w0: "fresh_tp (view w0)" and c: "connect io (qh_fhSeqNo h0 + 1) (qh_tp h0) w0 = Some (True, p, w)"
    and wk: "qh_worker h0 = newWorker"
  shows "quote_inv view h0 tc X ord (h0\<lparr>qh_worker := sw_start (qh_worker h0), qh_tp := p\<rparr>) w"
proof -
  let ?h = "h0\<lparr>qh_worker := sw_start (qh_worker h0), qh_tp := p\<rparr>"
  have idle: "tp_idle view (qh_tp h0) [] w0"
    using w0 by (simp add: tp_idle_def tp_base_def new newTpPublisher_def fresh_tp_def ring_of_def last_n_def numbered_def)
  have "connect_loop io 1 0 (qh_tp h0) w0 = Some (True, p, w)" using c by (simp add: connect_def new)
  then have post: "connect_post view [] (qh_tp h0) (True, p, w)"
    using connect_loop_view [OF con, of 1 0 "qh_tp h0" w0 "(True, p, w)" "[]"] idle tc new by (simp add: newTpPublisher_def)
  then have "log_ok view tc X ord ?h w [] []"
    using connect_post_ready [OF post] new(2,3) tc
    by (simp add: log_ok_def connect_post_def remembers_def quotes_of_def numSymbols_def book_def)
  moreover have "requests_ok X (book_cfg h0) [] (requests ?h)"
    using h0 by (simp add: handler_ok_def requests_ok_def requests_def wk sw_start_def newWorker_def newQueue_def ids_ok_def in_flight_def owed_def)
  then have "handler_ok X ord {} [] ?h \<and> same_wiring h0 ?h"
    by (intro handler_ok_tables [OF h0]) (use h0 books_okD(2) [of X ord "{}" h0] in \<open>auto simp: handler_ok_def\<close>)
  ultimately show ?thesis by (auto simp: quote_inv_def)
qed

lemma quote_run_inv:
  assumes con: "tp_contract io view tc" "health_contract io view" and m: "market_ok m"
    and h0: "h0 = newQuoteHandler symbols m tpHost tpPort startNs steadyNs" and tc: "tc = p_cfg (qh_tp h0)"
    and w0: "fresh_tp (view w0)" and run: "quote_run io parse X ord h0 w0 h w"
  shows "quote_inv view h0 tc X ord h w"
  using run
proof induction
  case (begin_run p w)
  show ?case
    by (rule begin_inv [OF con(1) _ _ _ _ _ w0 begin_run])
      (use newQuoteHandler_ok [OF m] in \<open>simp_all add: tc h0 newQuoteHandler_def Let_def newTpPublisher_def
        numSymbols_def book_def newManager_def newSymBook_def\<close>)
next
  case (new_connection h w rd t h' w')
  then have ok: "handler_ok X ord {} [] h" by (simp add: quote_inv_def)
  show ?case
    using beginConnection_ok [OF new_connection.hyps(3) ok new_connection.hyps(2)]
      beginConnection_log [OF con(1) new_connection.hyps(3) ok new_connection.hyps(2)] new_connection.IH
    by (blast intro: quote_invI)
next
  case (connection_up h w)
  have "quiet h (connectionUp h)" by (rule quiet_frame) (simp_all add: connectionUp_def)
  moreover have "handler_ok X ord {} [] (connectionUp h)"
    by (rule handler_ok_frame [of X ord "{}" "[]" h]) (use connection_up.IH in \<open>simp_all add: quote_inv_def connectionUp_def requests_def\<close>)
  ultimately show ?case using connection_up.IH by (blast intro: quote_inv_quiet)
next
  case (flag_read h w run w')
  have "settles (view w) (view w')" by (rule running_view [OF con(1) flag_read.hyps(2)])
  with flag_read.IH tp_ready_settles [of view "qh_tp h" _ w w'] show ?case by (auto simp: quote_inv_def log_ok_def)
next
  case (waited h w delay slept)
  have "settles (view w) (view (sleep_loop io (qh_tp h) delay slept w))" by (rule sleep_loop_view [OF con(1)])
  with waited.IH tp_ready_settles [of view "qh_tp h" _ w] show ?case by (auto simp: quote_inv_def log_ok_def)
next
  case (connection_left h w)
  have "quiet h (connectionLeft h)" by (rule quiet_frame) (simp_all add: connectionLeft_def)
  moreover have "handler_ok X ord {} [] (connectionLeft h)"
    by (rule handler_ok_frame [of X ord "{}" "[]" h]) (use connection_left.IH in \<open>simp_all add: quote_inv_def connectionLeft_def requests_def\<close>)
  ultimately show ?case using connection_left.IH by (blast intro: quote_inv_quiet)
next
  case (connection_lost h w delay h')
  have "quiet h h'" by (rule quiet_frame) (use connection_lost.hyps(2) in \<open>auto simp: connectionLost_def\<close>)
  moreover have "handler_ok X ord {} [] h'"
    by (rule handler_ok_frame [of X ord "{}" "[]" h])
      (use connection_lost.IH connection_lost.hyps(2) in \<open>auto simp: quote_inv_def connectionLost_def requests_def\<close>)
  ultimately show ?case using connection_lost.IH by (blast intro: quote_inv_quiet)
next
  case (results h w now je jr)
  then have ok: "handler_ok X ord {} [] h" by (simp add: quote_inv_def)
  then show ?case using applySnapshotResults_ok [OF ok] applySnapshotResults_quiet [OF ok] results.IH
    by (blast intro: quote_inv_quiet)
next
  case (read_message h w msg rd rdT us ns t h' w')
  then have ok: "handler_ok X ord {} [] h" by (simp add: quote_inv_def)
  show ?case
    using onMessage_ok [OF read_message.hyps(4) ok read_message.hyps(2,3)]
      onMessage_log [OF con(1) read_message.hyps(4) ok read_message.hyps(2,3)] read_message.IH
    by (blast intro: quote_invI)
next
  case (health h w now)
  then show ?case using tp_ready_settles [of view "qh_tp h" _ w, OF _ publishHealth_settles [OF con(2), of w now h]]
    by (auto simp: quote_inv_def log_ok_def)
next
  case (snapshot_thread h w f net wk)
  then have ok: "handler_ok X ord {} [] h" by (simp add: quote_inv_def)
  have "quiet h (h\<lparr>qh_worker := wk\<rparr>)" by (rule quiet_frame) simp_all
  then show ?case using worker_handler_ok [OF ok snapshot_thread.hyps(4,3)] snapshot_thread.IH
    by (blast intro: quote_inv_quiet)
qed

text \<open>The rows in the tickerplant, when none was given up.\<close>

lemma logged_rows:
  assumes "log_ok view tc X ord h w G H" "p_rowsUnresendable (qh_tp h) = 0" "connected (qh_tp h)"
  shows "tv_logged (view w) @ tv_flight (view w) = H"
  using assms by (simp add: log_ok_def tp_ready_def tp_live_def connected_def)

section \<open>No symbol waits for ever\<close>

lemma dropRequest_flag:
  assumes "i < numSymbols h"
  shows "sb_snapshotRequested (book (dropRequest i h) j) \<longrightarrow> j \<noteq> i \<and> sb_snapshotRequested (book h j)"
proof -
  let ?f = "\<lambda>c s. ((), cancelRefresh c s)"
  obtain c s where f: "?f (om_ctr (qh_books h)) (book h i) = ((), c, s)" by fastforce
  let ?h = "snd (upd_book i ?f h)"
  have "i < numSymbols ?h" using assms upd_book_wiring [of h i ?f] by (simp add: same_wiring_def)
  then show ?thesis
    using book_upd_book [of ?f h i, OF f assms] by (simp add: dropRequest_def book_map_book setSnapshotRequested_def)
qed

lemma expireRequest_flag:
  assumes "i < numSymbols h" "i < length (qh_requestedAtMs h)"
  shows "sb_snapshotRequested (book (expireRequest now jit i h) j) \<longrightarrow> sb_snapshotRequested (book h j)"
    "j \<noteq> i \<Longrightarrow> qh_requestedAtMs (expireRequest now jit i h) ! j = qh_requestedAtMs h ! j"
    "SNAPSHOT_TIMEOUT_MS < now - qh_requestedAtMs h ! i \<Longrightarrow> qh_requestedAtMs h ! i \<noteq> 0 \<Longrightarrow>
       \<not> sb_snapshotRequested (book (expireRequest now jit i h) i) \<and> qh_requestedAtMs (expireRequest now jit i h) ! i = 0"
  using dropRequest_flag [OF assms(1)] assms(2)
  by (auto simp: expireRequest_drop book_def dropRequest_def map_book_def)

text \<open>An accepted or refused result never makes a symbol wait.\<close>

definition free :: "QuoteHandler \<Rightarrow> nat \<Rightarrow> bool" where
  "free h i \<longleftrightarrow> \<not> sb_snapshotRequested (book h i) \<and> qh_requestedAtMs h ! i = 0"

lemma applyResult_free:
  assumes r: "sr_symIdx r < numSymbols h" and len: "numSymbols h = length (qh_requestedAtMs h)" and f: "free h i"
  shows "free (applyResult now jit r h) i"
proof -
  define k where "k = sr_symIdx r"
  let ?d = "sr_data r"
  let ?f = "onSnapshot (book_cfg h) (sd_lastUpdateId ?d) (sd_bids ?d) (sd_asks ?d)"
  have z: "((qh_requestedAtMs h)[k := 0]) ! i = 0" using f r len by (cases "i = k") (simp_all add: free_def k_def)
  consider (stale) "sr_requestId r < qh_latestRequestId h ! k"
    | (failed) "\<not> sr_requestId r < qh_latestRequestId h ! k" "\<not> sd_success ?d"
    | (good) "\<not> sr_requestId r < qh_latestRequestId h ! k" "sd_success ?d" by blast
  then show ?thesis
  proof cases
    case stale
    then show ?thesis using f by (simp add: applyResult_def Let_def k_def)
  next
    case failed
    have "qh_books (applyResult now jit r h) = qh_books (dropRequest k h)"
      "qh_requestedAtMs (applyResult now jit r h) = (qh_requestedAtMs h)[k := 0]"
      using failed by (simp_all add: applyResult_def Let_def dropRequest_def map_book_def upd_book_tables flip: k_def)
    then show ?thesis using z dropRequest_flag [of k h i] f r by (auto simp: free_def book_def k_def)
  next
    case good
    obtain oc c s where sn: "?f (om_ctr (qh_books h)) (book h k) = (oc, c, s)" by (metis prod_cases3)
    have e: "qh_books (applyResult now jit r h) = qh_books (snd (upd_book k ?f h))"
      "qh_requestedAtMs (applyResult now jit r h) = (qh_requestedAtMs h)[k := 0]"
      using good afterSnapshot_frame [unfolded requests_def]
      by (simp_all add: applyResult_def Let_def upd_book_tables split_def flip: k_def)
    have b: "book (applyResult now jit r h) i = (if i = k then s else book h i)"
      using book_upd_book [of ?f h k, OF sn] r e(1) by (simp add: book_def k_def)
    show ?thesis using z b e(2) onSnapshot_facts [OF sn] f by (simp add: free_def)
  qed
qed

lemma fold_apply_free:
  "\<forall>r \<in> set rs. sr_symIdx r < numSymbols h \<Longrightarrow> numSymbols h = length (qh_requestedAtMs h) \<Longrightarrow> free h i \<Longrightarrow>
     free (fold (applyResult now jit) rs h) i"
proof (induction rs arbitrary: h)
  case (Cons r rs)
  let ?h = "applyResult now jit r h"
  have "same_wiring h ?h" using applyResult_quiet [of r h] Cons.prems(1) by (simp add: quiet_def)
  then have "\<forall>r \<in> set rs. sr_symIdx r < numSymbols ?h" "numSymbols ?h = length (qh_requestedAtMs ?h)"
    using Cons.prems(1,2) by (simp_all add: same_wiring_def)
  moreover have "free ?h i" using applyResult_free Cons.prems by simp
  ultimately show ?case using Cons.IH [of ?h] by simp
qed simp

lemma fold_expire_free:
  assumes "distinct is" "\<forall>j \<in> set is. j < numSymbols h" "numSymbols h = length (qh_requestedAtMs h)"
    and "free h i \<or> i \<in> set is \<and> qh_requestedAtMs h ! i \<noteq> 0 \<and> SNAPSHOT_TIMEOUT_MS < now - qh_requestedAtMs h ! i"
  shows "free (fold (expireRequest now jit) is h) i"
  using assms
proof (induction "is" arbitrary: h)
  case (Cons k "is")
  let ?h = "expireRequest now jit k h"
  have k: "k < numSymbols h" "k < length (qh_requestedAtMs h)" using Cons.prems(2,3) by auto
  have w: "same_wiring h ?h" using expireRequest_quiet [OF k(1)] by (simp add: quiet_def)
  note fl = expireRequest_flag [OF k]
  have "free ?h i \<or> i \<in> set is \<and> qh_requestedAtMs ?h ! i \<noteq> 0 \<and> SNAPSHOT_TIMEOUT_MS < now - qh_requestedAtMs ?h ! i"
  proof (cases "i = k")
    case True
    then show ?thesis using Cons.prems(1,4) fl(3) [of now jit] by (auto simp: free_def expireRequest_drop)
  next
    case False
    then show ?thesis using Cons.prems(4) fl(1) [of now jit i] fl(2) [of i now jit] by (auto simp: free_def)
  qed
  then show ?case using Cons.IH [of ?h] Cons.prems(1-3) w by (simp add: same_wiring_def)
qed simp

lemma results_free_or:
  assumes ok: "handler_ok X ord {} [] h" and i: "i < numSymbols h"
    and t: "free h i \<or> qh_requestedAtMs h ! i \<noteq> 0 \<and> SNAPSHOT_TIMEOUT_MS < now - qh_requestedAtMs h ! i"
  shows "free (applySnapshotResults now je jr h) i"
proof -
  define h1 where "h1 = fold (expireRequest now je) [0..<length (qh_requestedAtMs h)] h"
  have n: "length (qh_requestedAtMs h) = numSymbols h" using ok by (simp add: handler_ok_def wired_def)
  have f1: "free h1 i" unfolding h1_def by (rule fold_expire_free) (use n i t in auto)
  have o1: "handler_ok X ord {} [] h1"
    using fold_expire_ok [OF ok, of "[0..<length (qh_requestedAtMs h)]"] n by (simp add: h1_def list_all_iff)
  obtain rs wk where d: "drainResults (qh_worker h1) = (rs, wk)" by fastforce
  let ?h2 = "h1\<lparr>qh_worker := wk\<rparr>"
  have "\<forall>r \<in> set rs. sr_symIdx r < numSymbols ?h2" using drained_symbols [OF o1 d] by (simp add: numSymbols_def)
  moreover have "numSymbols ?h2 = length (qh_requestedAtMs ?h2)" using o1 by (simp add: handler_ok_def wired_def numSymbols_def)
  moreover have "free ?h2 i" using f1 by (simp add: free_def book_def)
  ultimately have "free (fold (applyResult now jr) rs ?h2) i" by (rule fold_apply_free)
  then show ?thesis using d by (simp add: applySnapshotResults_def Let_def h1_def)
qed

lemmas results_free = results_free_or [OF _ _ disjI2, OF _ _ conjI]
lemmas results_keep_free = results_free_or [OF _ _ disjI1]

end
