(* ===== verification/Quote_Run.thy ===== *)
theory Quote_Run
  imports Quote_Log "HOL-Library.Code_Target_Nat"
begin

text \<open>
  What the quote handler guarantees over its whole life (\<open>quote_run\<close>), and a run that shows it: one
  symbol, a tickerplant that logs each row when the next arrives, an exchange whose book stands still. The run
  connects, buffers an event, fetches and applies the snapshot and publishes a valid row.
\<close>

section \<open>A run\<close>

definition demo_market :: QuoteMarketConfig where
  "demo_market = defaultQuoteMarketConfig\<lparr>qm_snapshotLimit := 1, qm_depth := 1\<rparr>"

definition demo_h0 :: QuoteHandler where
  "demo_h0 = newQuoteHandler [''b''] demo_market ''h'' 5010 1000 0"

lemma demo_upper: "upper CHR ''b'' = CHR ''B''"
  by code_simp

lemma demo_rnd: "rnd64 (1/10) = 3602879701896397/36028797018963968" "rnd64 (1351079888211148875 / 2251799813685248) = 600"
  by (code_simp, code_simp)

text \<open>The handler, evaluated once.\<close>

lemmas demo_h0_explicit = demo_h0_def [unfolded newQuoteHandler_def demo_market_def defaultQuoteMarketConfig_def
  defaultTpConfig_def defaultBookConfig_def Let_def newManager_def newTpPublisher_def newWorker_def newQueue_def newRowClock_def newScheduler_def
  defaultSchedulerConfig_def, simplified demo_rnd demo_upper list.map quoteRowWidth_def, simplified, simplified demo_rnd, simplified]

declare demo_h0_explicit [code]

definition demo_event :: "int \<Rightarrow> int \<Rightarrow> Json" where
  "demo_event U u = JObject [(''data'', JObject [(''s'', JString ''B''), (''U'', JInt U), (''u'', JInt u), (''E'', JInt 5),
     (''b'', JArray [JArray [JString ''10'', JString ''2'']]), (''a'', JArray [])])]"

definition demo_snapshot :: Json where
  "demo_snapshot = JObject [(''lastUpdateId'', JInt 100), (''bids'', JArray [JArray [JString ''10'', JString ''2'']]),
     (''asks'', JArray [JArray [JString ''11'', JString ''3'']])]"

definition demo_parse :: json_parser where
  "demo_parse s = (if s = ''1'' then Inr (demo_event 101 101) else if s = ''2'' then Inr (demo_event 102 102)
     else if s = ''s'' then Inr demo_snapshot else Inl [])"

definition demo_net :: net where
  "demo_net host prt target = Inr \<lparr>rs_status = 200, rs_find = (\<lambda>_. None), rs_body = ''s''\<rparr>"

definition demo_rd :: Readings where
  "demo_rd = \<lparr>rd_steadyMs = 1, rd_requestMs = 1, rd_checkNs = 1, rd_recordNs = 1, rd_sendUs = 3, rd_pubNs = 4, rd_jitter = 0\<rparr>"


definition demo_delta :: "int \<Rightarrow> BufferedDelta" where
  "demo_delta u = \<lparr>firstUpdateId = u, finalUpdateId = u, eventTimeMs = 5, bids = run_bids, asks = [],
     prevFinalUpdateId = -1, transactTimeMs = 0\<rparr>"

definition demo_data :: SnapshotData where
  "demo_data = emptySnapshotData\<lparr>sd_httpStatus := 200, sd_usedWeight1m := -1, sd_lastUpdateId := 100,
     sd_bids := run_bids, sd_asks := run_asks, sd_success := True\<rparr>"

lemma demo_prices: "price_of ''10'' = Some (Fin 10)" "price_of ''2'' = Some (Fin 2)" "price_of ''11'' = Some (Fin 11)" "price_of ''3'' = Some (Fin 3)"
proof -
  have d: "decimal ''10''" "decimal ''2''" "decimal ''11''" "decimal ''3''" "ends_number []"
    by (simp_all add: decimal_def ends_number_def digit_val_def lower_def)
  have v: "digits_val 10 ''10'' = 10" "digits_val 10 ''2'' = 2" "digits_val 10 ''11'' = 11" "digits_val 10 ''3'' = 3"
    by (simp_all add: digits_val_def digit_val_def lower_def)
  show "price_of ''10'' = Some (Fin 10)" "price_of ''2'' = Some (Fin 2)" "price_of ''11'' = Some (Fin 11)" "price_of ''3'' = Some (Fin 3)"
    using price_of_digits [OF d(1,5)] price_of_digits [OF d(2,5)] price_of_digits [OF d(3,5)] price_of_digits [OF d(4,5)] by (simp_all add: v)
qed

lemma demo_levels:
  "levels_of [JArray [JString ''10'', JString ''2'']] = run_bids" "levels_of [JArray [JString ''11'', JString ''3'']] = run_asks" "levels_of [] = []"
  by (simp_all add: levels_of_def parseLevels_def List.map_filter_def parseLevelPair_def demo_prices run_bids_def run_asks_def)

lemma demo_depth: "u = 101 \<or> u = 102 \<Longrightarrow> parseDepth Spot (demo_event u u) = Some (''B'', demo_delta u)"
  by (erule disjE) (simp_all add: parseDepth_def demo_event_def newReader_def obj_def rd_string_def rd_int64_def rd_array_def field_def
      isInt64_def in_i64_def hasError_def demo_levels demo_delta_def)


lemma demo_get: "rc_host rc \<noteq> [] \<Longrightarrow> get demo_net rc t = \<lparr>hr_status = 200, hr_body = ''s'', hr_retryAfterSec = 0, hr_usedWeight1m = -1, hr_error = []\<rparr>"
  by (simp add: get_def demo_net_def headerInt_def)

lemma demo_fetch: "rc_host rc \<noteq> [] \<Longrightarrow> fetchSnapshot demo_net demo_parse rc sy n = demo_data"
  by (simp add: fetchSnapshot_def demo_get Let_def parseSnapshotResponse_def demo_parse_def c_str_def demo_snapshot_def
     newReader_def rd_int64_def rd_array_def field_def isInt64_def in_i64_def hasError_def demo_levels demo_data_def emptySnapshotData_def)


text \<open>The same message without the JSON.\<close>

definition demo_live :: "int \<Rightarrow> int \<Rightarrow> QuoteHandler \<Rightarrow> DyingTp \<Rightarrow> (QuoteHandler \<times> DyingTp) option" where
  "demo_live u t h w =
     (case handleDelta dying_io demo_rd 0 (demo_delta u) t
         (h\<lparr>qh_lastMsgTime := t, qh_msgsReceived := qh_msgsReceived h + 1, qh_rowClock := noteEvent 5 (qh_rowClock h)\<rparr>) w of
        None \<Rightarrow> None
      | Some (h2, w2) \<Rightarrow> checkPublishTimeouts dying_io (\<lambda>_. demo_rd) 1 t (h2\<lparr>qh_lastParseUs := 2\<rparr>) w2)"

definition demo_msg :: "int \<Rightarrow> string" where
  "demo_msg u = (if u = 101 then ''1'' else ''2'')"

lemma demo_onMessage:
  assumes "u = 101 \<or> u = 102" "qm_sync (qh_cfg h) = Spot" "getSymbolIndex (qh_books h) ''B'' = 0"
  shows "onMessage dying_io demo_rd (\<lambda>_. demo_rd) 2 1 demo_parse (demo_msg u) t h w = demo_live u t h w"
proof -
  have p: "demo_parse (c_str (demo_msg u)) = Inr (demo_event u u)"
    using assms(1) by (auto simp: demo_parse_def demo_msg_def c_str_def)
  have e: "eventTimeMs (demo_delta u) = 5" by (simp add: demo_delta_def)
  show ?thesis
    by (simp add: onMessage_def processMessage_def p demo_depth [OF assms(1)] assms(2,3) e demo_live_def split: option.split prod.split)
qed


definition demo_bind ::
    "(QuoteHandler \<times> DyingTp) option \<Rightarrow> (QuoteHandler \<Rightarrow> DyingTp \<Rightarrow> (QuoteHandler \<times> DyingTp) option) \<Rightarrow> (QuoteHandler \<times> DyingTp) option" where
  "demo_bind x f = (case x of None \<Rightarrow> None | Some (h, w) \<Rightarrow> f h w)"

definition demo_work :: "QuoteHandler \<Rightarrow> DyingTp \<Rightarrow> (QuoteHandler \<times> DyingTp) option" where
  "demo_work h w = map_option (\<lambda>wk. (h\<lparr>qh_worker := wk\<rparr>, w)) (worker_step (\<lambda>_. demo_data) (qh_worker h))"

definition demo_s1 :: "(QuoteHandler \<times> DyingTp) option" where
  "demo_s1 = (case connect dying_io (qh_fhSeqNo demo_h0 + 1) (qh_tp demo_h0) dying_start of Some (True, p, w) \<Rightarrow>
     Some (demo_h0\<lparr>qh_worker := sw_start (qh_worker demo_h0), qh_tp := p\<rparr>, w) | _ \<Rightarrow> None)"

definition demo_s2 :: "(QuoteHandler \<times> DyingTp) option" where
  "demo_s2 = demo_bind demo_s1 (beginConnection dying_io (\<lambda>_. demo_rd) 0)"

definition demo_s3 :: "(QuoteHandler \<times> DyingTp) option" where
  "demo_s3 = demo_bind demo_s2 (demo_live 101 7)"

definition demo_s4 :: "(QuoteHandler \<times> DyingTp) option" where
  "demo_s4 = demo_bind (demo_bind (demo_bind demo_s3 demo_work) demo_work) demo_work"

definition demo_s5 :: "(QuoteHandler \<times> DyingTp) option" where
  "demo_s5 = demo_bind demo_s4 (\<lambda>h w. Some (applySnapshotResults 2 (\<lambda>_. 0) (\<lambda>_. 0) h, w))"

definition demo_s6 :: "(QuoteHandler \<times> DyingTp) option" where
  "demo_s6 = demo_bind demo_s5 (demo_live 102 8)"

text \<open>What the rules ask of a state.\<close>

definition demo_ready :: "int \<Rightarrow> QuoteHandler \<Rightarrow> bool" where
  "demo_ready u h \<longleftrightarrow> qm_sync (qh_cfg h) = Spot \<and> bc_sync (book_cfg h) = Spot \<and> bc_snapshotLimit (book_cfg h) = 1 \<and>
     getSymbolIndex (qh_books h) ''B'' = 0 \<and> (sb_state (book h 0) = VALID \<longrightarrow> lastId (sb_seq (book h 0)) \<le> u) \<and>
     rc_host (qh_rest h) \<noteq> [] \<and> qm_snapshotLimit (qh_cfg h) = 1 \<and> connected (qh_tp h)"

lemma demo_vals:
  "map_option (\<lambda>(h, w). demo_ready 0 h) demo_s1 = Some True"
  "map_option (\<lambda>(h, w). demo_ready 101 h) demo_s2 = Some True"
  "map_option (\<lambda>(h, w). (demo_ready 0 h, qh_requestedAtMs h)) demo_s3 = Some (True, [1])"
  "map_option (\<lambda>(h, w). demo_ready 102 h) demo_s5 = Some True"
  "map_option (\<lambda>(h, w). (qh_fhSeqNo h, connected (qh_tp h), p_rowsUnresendable (qh_tp h), sb_state (book h 0))) demo_s6 =
     Some (1, True, 0, VALID)"
  by (code_simp, code_simp, code_simp, code_simp, code_simp)

lemma demo_delta_genuine: "genuine Spot run_X (demo_delta u)"
  by (simp add: genuine_def delta_ok_def levels_ok_def level_ok_def delta_low_def run_defs demo_delta_def
      truth_updates_def truth_update_def zero_double_def fun_upd_idem)

lemma demo_message_ok:
  assumes "demo_ready u h" "u = 101 \<or> u = 102"
  shows "message_ok (\<lambda>_. run_X) True demo_parse (demo_msg u) h"
proof -
  have p: "demo_parse (c_str (demo_msg u)) = Inr (demo_event u u)"
    using assms(2) by (auto simp: demo_parse_def demo_msg_def c_str_def)
  have i: "om_symToIdx (qh_books h) ''B'' = Some i \<Longrightarrow> i = 0" for i
    using assms(1) by (simp add: demo_ready_def getSymbolIndex_def)
  have "in_order (book_cfg h) (book h 0) (demo_delta u)"
    using assms(1) by (simp add: in_order_def demo_ready_def demo_delta_def)
  then show ?thesis
    using assms i demo_depth [OF assms(2)] demo_delta_genuine [of u]
    by (auto simp: message_ok_def p event_ok_def demo_ready_def)
qed

abbreviation demo_run :: "QuoteHandler \<Rightarrow> DyingTp \<Rightarrow> bool" where
  "demo_run \<equiv> quote_run dying_io demo_parse (\<lambda>_. run_X) True demo_h0 dying_start"

lemma demo_run_live:
  assumes "demo_run h w" "demo_ready u h" "u = 101 \<or> u = 102" "demo_live u t h w = Some (h', w')"
  shows "demo_run h' w'"
proof (rule quote_run.read_message [OF assms(1) demo_message_ok [OF assms(2,3)]])
  show "onMessage dying_io demo_rd (\<lambda>_. demo_rd) 2 1 demo_parse (demo_msg u) t h w = Some (h', w')"
    using demo_onMessage [OF assms(3)] assms(2,4) by (simp add: demo_ready_def)
qed (simp add: demo_rd_def)

lemma demo_run_work:
  assumes "demo_run h w" "demo_ready 0 h" "demo_work h w = Some (h', w')"
  shows "demo_run h' w' \<and> demo_ready 0 h'"
proof -
  obtain wk where wk: "worker_step (\<lambda>_. demo_data) (qh_worker h) = Some wk" "h' = h\<lparr>qh_worker := wk\<rparr>" "w' = w"
    using assms(3) by (auto simp: demo_work_def)
  have f: "(\<lambda>req. fetchSnapshot demo_net demo_parse (qh_rest h) (rq_sym req) (qm_snapshotLimit (qh_cfg h))) = (\<lambda>_. demo_data)"
    using demo_fetch assms(2) by (simp add: demo_ready_def)
  have "genuine_snapshot (book_cfg h) run_X 100 run_bids run_asks"
    using assms(2) by (simp add: demo_ready_def genuine_snapshot_def top_levels_def run_bids_def run_asks_def run_X_def flt_def zero_double_def)
  then have "answers_ok (\<lambda>_. run_X) (book_cfg h) (qh_worker h) (\<lambda>_. demo_data)"
    by (simp add: answers_ok_def demo_data_def)
  then have "demo_run h' w'" unfolding wk(2,3)
    by (rule quote_run.snapshot_thread [OF assms(1) f [symmetric] _ wk(1)])
  then show ?thesis using assms(2) by (simp add: wk(2) demo_ready_def book_def book_cfg_def)
qed

lemma demo_bindE: "demo_bind x f = Some y \<Longrightarrow> (\<And>h w. x = Some (h, w) \<Longrightarrow> f h w = Some y \<Longrightarrow> P) \<Longrightarrow> P"
  by (auto simp: demo_bind_def split: option.splits)

lemma demo_run_s2:
  assumes "demo_s2 = Some (h, w)"
  shows "demo_run h w" "demo_ready 101 h"
proof -
  show "demo_ready 101 h" using demo_vals(2) unfolding assms by simp
  from assms obtain h1 w1 where s1: "demo_s1 = Some (h1, w1)"
    and b: "beginConnection dying_io (\<lambda>_. demo_rd) 0 h1 w1 = Some (h, w)"
    unfolding demo_s2_def by (rule demo_bindE)
  have "connected (qh_tp h1)" using demo_vals(1) unfolding s1 by (simp add: demo_ready_def)
  moreover have "demo_run h1 w1"
    using s1 unfolding demo_s1_def by (auto split: option.splits bool.splits intro: quote_run.begin_run)
  ultimately show "demo_run h w" using b by (blast intro: quote_run.new_connection)
qed

lemma demo_run_s3:
  assumes "demo_s3 = Some (h, w)"
  shows "demo_run h w" "demo_ready 0 h" "qh_requestedAtMs h = [1]"
proof -
  show "demo_ready 0 h" "qh_requestedAtMs h = [1]" using demo_vals(3) unfolding assms by simp_all
  from assms obtain h2 w2 where s: "demo_s2 = Some (h2, w2)" "demo_live 101 7 h2 w2 = Some (h, w)"
    unfolding demo_s3_def by (rule demo_bindE)
  show "demo_run h w" by (rule demo_run_live [OF demo_run_s2 [OF s(1)] _ s(2)]) simp
qed

lemma demo_run_s6: "\<exists>h w. demo_s6 = Some (h, w) \<and> demo_run h w \<and> qh_fhSeqNo h = 1 \<and> connected (qh_tp h) \<and> p_rowsUnresendable (qh_tp h) = 0"
proof -
  obtain h w where s: "demo_s6 = Some (h, w)" "qh_fhSeqNo h = 1" "connected (qh_tp h)" "p_rowsUnresendable (qh_tp h) = 0"
    using demo_vals(5) by (cases demo_s6) auto
  from s(1) obtain h5 w5 where s5: "demo_s5 = Some (h5, w5)" and l: "demo_live 102 8 h5 w5 = Some (h, w)"
    unfolding demo_s6_def by (rule demo_bindE)
  from s5 obtain h4 w4 where s4: "demo_s4 = Some (h4, w4)"
    and r: "Some (applySnapshotResults 2 (\<lambda>_. 0) (\<lambda>_. 0) h4, w4) = Some (h5, w5)"
    unfolding demo_s5_def by (rule demo_bindE)
  from s4 obtain hb wb where sb: "demo_bind (demo_bind demo_s3 demo_work) demo_work = Some (hb, wb)"
    and kb: "demo_work hb wb = Some (h4, w4)" unfolding demo_s4_def by (rule demo_bindE)
  from sb obtain ha wa where sa: "demo_bind demo_s3 demo_work = Some (ha, wa)" and ka: "demo_work ha wa = Some (hb, wb)"
    by (rule demo_bindE)
  from sa obtain h3 w3 where s3: "demo_s3 = Some (h3, w3)" and k3: "demo_work h3 w3 = Some (ha, wa)" by (rule demo_bindE)
  have "demo_run h4 w4" using demo_run_s3(1,2) [OF s3] demo_run_work k3 ka kb by blast
  then have "demo_run h5 w5" using r quote_run.results by fastforce
  moreover have "demo_ready 102 h5" using demo_vals(4) unfolding s5 by simp
  ultimately have "demo_run h w" using demo_run_live l by blast
  with s show ?thesis by blast
qed

lemma demo_contracts:
  "tp_contract dying_io dw_view (p_cfg (qh_tp demo_h0))" "health_contract dying_io dw_view"
  "market_ok demo_market" "fresh_tp (dw_view dying_start)"
proof -
  have "tc_table (p_cfg (qh_tp demo_h0)) \<noteq> ''health_feed_handler''" by (simp add: demo_h0_explicit)
  then show "tp_contract dying_io dw_view (p_cfg (qh_tp demo_h0))" by (rule dying_contract)
qed (simp_all add: dying_health market_ok_def demo_market_def fresh_tp_def dying_start_def)

lemma demo_reconnects: "map_option (\<lambda>_. ()) (demo_bind demo_s3 (beginConnection dying_io (\<lambda>_. demo_rd) 0)) = Some ()"
  by code_simp

lemma demo_run_inv:
  assumes "demo_run h w"
  shows "numSymbols h = 1"
    "p_rowsUnresendable (qh_tp h) = 0 \<Longrightarrow> connected (qh_tp h) \<Longrightarrow>
       int (length (tv_logged (dw_view w) @ tv_flight (dw_view w))) = qh_fhSeqNo h"
proof -
  note i = quote_run_inv [OF demo_contracts(1-3) demo_h0_def refl demo_contracts(4) assms]
  then have "numSymbols h = numSymbols demo_h0" by (simp add: quote_inv_def same_wiring_def)
  then show "numSymbols h = 1" by (simp add: demo_h0_explicit numSymbols_def)
  assume c: "p_rowsUnresendable (qh_tp h) = 0" "connected (qh_tp h)"
  from i obtain G H where l: "log_ok dw_view (p_cfg (qh_tp demo_h0)) (\<lambda>_. run_X) True h w G H"
    by (auto simp: quote_inv_def)
  then show "int (length (tv_logged (dw_view w) @ tv_flight (dw_view w))) = qh_fhSeqNo h"
    unfolding logged_rows [OF l c] by (simp add: log_ok_def)
qed

section \<open>Properties\<close>

text \<open>C6: Every row the handler publishes reaches the tickerplant. Over a whole life of the handler, with any number of
  lost connections to the exchange and to the tickerplant, the rows it has published are numbered
  1, 2, 3, ... without a hole, each has the width announced at registration, and, as long as the counter of rows
  that could not be resent is zero, the tickerplant's log followed by what is on its way is exactly these rows.\<close>

theorem handler_rows_all_logged:
  assumes "tp_contract io view (p_cfg (qh_tp h0))" "health_contract io view" "market_ok m" "fresh_tp (view w0)"
    and "h0 = newQuoteHandler symbols m tpHost tpPort startNs steadyNs" "quote_run io parse X ord h0 w0 h w"
  shows "\<exists>H. int (length H) = qh_fhSeqNo h \<and> numbered H \<and>
    (\<forall>r \<in> set H. int (length r) = tc_width (p_cfg (qh_tp h0))) \<and>
    (p_rowsUnresendable (qh_tp h) = 0 \<and> connected (qh_tp h) \<longrightarrow> tv_logged (view w) @ tv_flight (view w) = H)"
proof -
  obtain G H where l: "log_ok view (p_cfg (qh_tp h0)) X ord h w G H" and c: "qh_cfg h = qh_cfg h0"
    using quote_run_inv [OF assms(1-3,5) refl assms(4,6)] by (auto simp: quote_inv_def same_wiring_def)
  have "int (length r) = tc_width (p_cfg (qh_tp h0))" if "r \<in> set H" for r
  proof -
    have "length r = quoteRowWidth (nat (qm_depth (qh_cfg h))) (qm_publishTransactTime (qh_cfg h))"
      using l that by (auto simp: log_ok_def list_all2_conv_all_nth in_set_conv_nth is_row_def)
    then show ?thesis using c by (simp add: assms(5) newQuoteHandler_def Let_def newTpPublisher_def)
  qed
  moreover have "numbered H" using l by (auto simp: log_ok_def tp_ready_def tp_live_def tp_idle_def tp_base_def split: if_splits)
  ultimately show ?thesis
    using l logged_rows [OF l] by (intro exI [of _ H]) (auto simp: log_ok_def)
qed

theorem handler_rows_all_logged_witness:
  "\<exists>h w H. quote_run dying_io demo_parse (\<lambda>_. run_X) True demo_h0 dying_start h w \<and> length H = 1 \<and> numbered H \<and>
     tv_logged (dw_view w) @ tv_flight (dw_view w) = H"
proof -
  obtain h w where r: "demo_run h w" "qh_fhSeqNo h = 1" "connected (qh_tp h)" "p_rowsUnresendable (qh_tp h) = 0"
    using demo_run_s6 by blast
  from handler_rows_all_logged [OF demo_contracts demo_h0_def r(1)] r show ?thesis by fastforce
qed

lemma quotes_exact:
  assumes "tp_contract io view (p_cfg (qh_tp h0))" "health_contract io view" "market_ok m" "fresh_tp (view w0)"
    and "h0 = newQuoteHandler symbols m tpHost tpPort startNs steadyNs" "quote_run io parse X ord h0 w0 h w"
    and "p_rowsUnresendable (qh_tp h) = 0" "connected (qh_tp h)"
  shows "\<exists>G. list_all2 (is_row h) G (tv_logged (view w) @ tv_flight (view w)) \<and>
    (\<forall>x \<in> set G. fst x < numSymbols h \<and> exact_quote (book_cfg h) (X (fst x)) (snd x))"
proof -
  obtain G H where l: "log_ok view (p_cfg (qh_tp h0)) X ord h w G H"
    using quote_run_inv [OF assms(1-3,5) refl assms(4,6)] by (auto simp: quote_inv_def)
  then have "tv_logged (view w) @ tv_flight (view w) = H" by (rule logged_rows [OF _ assms(7,8)])
  then show ?thesis using l by (auto simp: log_ok_def)
qed

text \<open>C1: Every row in the tickerplant that is marked valid is right: it is the row of a quote of its symbol whose two
  sides are exactly the exchange's best levels at the update id in the row. This composes the whole handler: parsing,
  sequencing, snapshots fetched by the other thread and discarded when stale, refreshes, resets, heartbeats,
  reconnects and the resending of rows.\<close>

theorem logged_quotes_exact:
  assumes "tp_contract io view (p_cfg (qh_tp h0))" "health_contract io view" "market_ok m" "fresh_tp (view w0)"
    and "h0 = newQuoteHandler symbols m tpHost tpPort startNs steadyNs" "quote_run io parse X ord h0 w0 h w"
    and "p_rowsUnresendable (qh_tp h) = 0" "connected (qh_tp h)"
  shows "\<exists>G. list_all2 (is_row h) G (tv_logged (view w) @ tv_flight (view w)) \<and>
    (\<forall>x \<in> set G. fst x < numSymbols h \<and> exact_quote (book_cfg h) (X (fst x)) (snd x))"
  using assms by (rule quotes_exact)

theorem logged_quotes_exact_witness:
  "\<exists>h w q r. quote_run dying_io demo_parse (\<lambda>_. run_X) True demo_h0 dying_start h w \<and>
     tv_logged (dw_view w) @ tv_flight (dw_view w) = [r] \<and> is_row h (0, q) r \<and> exact_quote (book_cfg h) run_X q"
proof -
  obtain h w where r: "demo_run h w" "qh_fhSeqNo h = 1" "connected (qh_tp h)" "p_rowsUnresendable (qh_tp h) = 0"
    using demo_run_s6 by blast
  obtain G where g: "list_all2 (is_row h) G (tv_logged (dw_view w) @ tv_flight (dw_view w))"
      "\<forall>x \<in> set G. fst x < numSymbols h \<and> exact_quote (book_cfg h) run_X (snd x)"
    using logged_quotes_exact [OF demo_contracts demo_h0_def r(1,4,3)] by blast
  have "length (tv_logged (dw_view w) @ tv_flight (dw_view w)) = 1"
    using demo_run_inv(2) [OF r(1,4,3)] r(2) by simp
  then obtain x where x: "tv_logged (dw_view w) @ tv_flight (dw_view w) = [x]"
    unfolding One_nat_def length_Suc_conv by blast
  with g obtain i q where q: "G = [(i, q)]" "is_row h (i, q) x" by (auto simp: list_all2_Cons2)
  have "i = 0" using g(2) q(1) demo_run_inv(1) [OF r(1)] by simp
  with g q x r(1) show ?thesis by auto
qed

text \<open>C11: In the tickerplant the valid rows of a symbol chain without a hole: between two consecutive rows of a symbol
  that are both valid, the later one repeats the update-id range of the earlier, or starts where it ended. A consumer
  that checks the ids of the rows sees every hole as an invalid row. The exchange's events are assumed to arrive
  in update-id order.\<close>

theorem logged_quotes_chain:
  assumes "tp_contract io view (p_cfg (qh_tp h0))" "health_contract io view" "market_ok m" "fresh_tp (view w0)"
    and "h0 = newQuoteHandler symbols m tpHost tpPort startNs steadyNs" "quote_run io parse X True h0 w0 h w"
    and "p_rowsUnresendable (qh_tp h) = 0" "connected (qh_tp h)"
  shows "\<exists>G. list_all2 (is_row h) G (tv_logged (view w) @ tv_flight (view w)) \<and>
    (\<forall>i < numSymbols h. successively (follows (book_cfg h)) (quotes_of i G))"
proof -
  obtain G H where l: "log_ok view (p_cfg (qh_tp h0)) X True h w G H"
    using quote_run_inv [OF assms(1-3,5) refl assms(4,6)] by (auto simp: quote_inv_def)
  then have "tv_logged (view w) @ tv_flight (view w) = H" by (rule logged_rows [OF _ assms(7,8)])
  then show ?thesis using l by (auto simp: log_ok_def)
qed

theorem logged_quotes_chain_witness:
  "\<exists>h w G. quote_run dying_io demo_parse (\<lambda>_. run_X) True demo_h0 dying_start h w \<and>
     list_all2 (is_row h) G (tv_logged (dw_view w) @ tv_flight (dw_view w)) \<and>
     (\<forall>i < numSymbols h. successively (follows (book_cfg h)) (quotes_of i G))"
proof -
  obtain h w where r: "demo_run h w" "connected (qh_tp h)" "p_rowsUnresendable (qh_tp h) = 0"
    using demo_run_s6 by blast
  from logged_quotes_chain [OF demo_contracts demo_h0_def r(1,3,2)] r(1) show ?thesis by blast
qed



text \<open>C15: No symbol waits for a snapshot for ever. If the answer to a request was dropped from a full queue or the
  fetch hangs, the first pass over the results more than 30 seconds after the request gives it up: the symbol is
  free to ask again.\<close>

theorem snapshot_wait_is_bounded:
  assumes "tp_contract io view (p_cfg (qh_tp h0))" "health_contract io view" "market_ok m" "fresh_tp (view w0)"
    and "h0 = newQuoteHandler symbols m tpHost tpPort startNs steadyNs" "quote_run io parse X ord h0 w0 h w"
    and "i < numSymbols h" "SNAPSHOT_TIMEOUT_MS < now - qh_requestedAtMs h ! i"
  shows "\<not> sb_snapshotRequested (book (applySnapshotResults now je jr h) i)"
proof (cases "qh_requestedAtMs h ! i = 0")
  case False
  have ok: "handler_ok X ord {} [] h"
    using quote_run_inv [OF assms(1-3,5) refl assms(4,6)] by (simp add: quote_inv_def)
  from results_free [OF ok assms(7) False assms(8)] show ?thesis by (simp add: free_def)
next
  case True
  have ok: "handler_ok X ord {} [] h"
    using quote_run_inv [OF assms(1-3,5) refl assms(4,6)] by (simp add: quote_inv_def)
  then have "free h i" using True books_okD(2) [of X ord "{}" h i] assms(7) by (auto simp: free_def handler_ok_def)
  from results_keep_free [OF ok assms(7) this] show ?thesis by (simp add: free_def)
qed

theorem snapshot_wait_is_bounded_witness:
  "\<exists>h w. quote_run dying_io demo_parse (\<lambda>_. run_X) True demo_h0 dying_start h w \<and> qh_requestedAtMs h = [1] \<and>
     \<not> sb_snapshotRequested (book (applySnapshotResults 40000 (\<lambda>_. 0) (\<lambda>_. 0) h) 0)"
proof -
  obtain h w where s: "demo_s3 = Some (h, w)" using demo_vals(3) by (cases demo_s3) auto
  note r = demo_run_s3 [OF s]
  have "0 < numSymbols h" using demo_run_inv(1) [OF r(1)] by simp
  from snapshot_wait_is_bounded [OF demo_contracts demo_h0_def r(1) this, of 40000 "\<lambda>_. 0" "\<lambda>_. 0"] r
  show ?thesis by (auto simp: SNAPSHOT_TIMEOUT_MS_def)
qed

end
