(* ===== verification/Quote_Loop.thy ===== *)
theory Quote_Loop
  imports Quote_Run
begin

text \<open>
  The control flow of \<open>QuoteFeedHandler::run\<close> and \<open>runWebSocketLoop\<close> (\<open>quote_feed_handler.cpp\<close>) as a machine:
  \<open>quote_pc\<close> says where the handler's thread is, \<open>quote_step\<close> is what it does next when the environment
  gives it an event: a time, a handshake, a message, an exception of the socket, or an action of the snapshot thread.

  \<open>Quote_Log\<close> describes the handler's life by a relation that allows its methods in any order and assumes that a
  connection is only begun while the tickerplant is connected. Here that is proved of the code: every state of the
  machine is one of that life, because the loops test \<open>running_\<close>, which the publisher clears when it gives up.
  The second property is how \<open>run\<close> ends after \<open>stop\<close>.
\<close>

section \<open>The machine\<close>

text \<open>Where the thread is: before \<open>connect\<close>; at the test of the outer loop; in the set-up of a connection; at the top
  of the message loop; in \<open>ws.read\<close>; after the message loop; in the handler of an exception; joining the snapshot thread
  (with the tickerplant's connection still to close or not); at the end. The number is \<open>lastHealthPub\<close>, in ns.\<close>

datatype quote_pc = QStart | QTest | QSetup | QTop int | QRead int | QLeft | QCaught | QJoin bool | QEnd

datatype quote_ev =
    Go "nat \<Rightarrow> Readings" int
  | HandshakeDone int
  | SocketThrows
  | Drain int "nat \<Rightarrow> rat" "nat \<Rightarrow> rat"
  | MessageRead Readings "nat \<Rightarrow> Readings" int int string int int int
  | ThreadActs net

definition HEALTH_INTERVAL_SEC :: int where "HEALTH_INTERVAL_SEC = 5"

definition healthDue :: "int \<Rightarrow> int \<Rightarrow> bool" where
  "healthDue nowNs lastHealthPub \<longleftrightarrow> HEALTH_INTERVAL_SEC \<le> (nowNs - lastHealthPub) sdiv 1000000000"

text \<open>\<open>running_\<close> is the flag the publisher shares.\<close>

definition q_running :: "'w TpIo \<Rightarrow> QuoteHandler \<Rightarrow> 'w \<Rightarrow> bool \<times> 'w" where
  "q_running io h w = running io (qh_tp h) w"

definition stopWorker :: "QuoteHandler \<Rightarrow> QuoteHandler" where
  "stopWorker h = h\<lparr>qh_worker := sw_stop (qh_worker h)\<rparr>"

text \<open>The catch block: only an exception while the handler runs is a lost connection, and after the wait the handler
  goes on only if it still runs.\<close>

definition afterThrow :: "'w TpIo \<Rightarrow> QuoteHandler \<Rightarrow> 'w \<Rightarrow> quote_pc \<times> QuoteHandler \<times> 'w" where
  "afterThrow io h w =
     (case q_running io h w of (run, w1) \<Rightarrow>
        if \<not> run then (QTest, h, w1)
        else case connectionLost h of (delay, h1) \<Rightarrow>
          (case q_running io h1 (sleep_loop io (qh_tp h1) (nat delay) 0 w1) of (go, w2) \<Rightarrow>
             if go then (QTest, h1, w2) else (QJoin True, stopWorker h1, w2)))"

definition startRun :: "'w TpIo \<Rightarrow> QuoteHandler \<Rightarrow> 'w \<Rightarrow> (quote_pc \<times> QuoteHandler \<times> 'w) option" where
  "startRun io h0 w =
     (let h = h0\<lparr>qh_worker := sw_start (qh_worker h0)\<rparr>
      in case connect io (qh_fhSeqNo h + 1) (qh_tp h) w of
           None \<Rightarrow> None
         | Some (True, p, w1) \<Rightarrow> Some (QTest, h\<lparr>qh_tp := p\<rparr>, w1)
         | Some (False, p, w1) \<Rightarrow> Some (QJoin False, stopWorker (h\<lparr>qh_tp := p\<rparr>), w1))"

text \<open>A message that was read, and the health row that may be due after it.\<close>

definition afterRead ::
    "'w TpIo \<Rightarrow> json_parser \<Rightarrow> Readings \<Rightarrow> (nat \<Rightarrow> Readings) \<Rightarrow> int \<Rightarrow> int \<Rightarrow> string \<Rightarrow> int \<Rightarrow> int \<Rightarrow> int \<Rightarrow> int \<Rightarrow>
      QuoteHandler \<Rightarrow> 'w \<Rightarrow> (quote_pc \<times> QuoteHandler \<times> 'w) option" where
  "afterRead io parse rd rdT parseUs nowNs msg recvNs steadyNs wallNs lastHealthPub h w =
     (case onMessage io rd rdT parseUs nowNs parse msg recvNs h w of
        None \<Rightarrow> None
      | Some (h1, w1) \<Rightarrow>
          if healthDue steadyNs lastHealthPub then Some (QTop steadyNs, h1, publishHealth io wallNs h1 w1)
          else Some (QTop lastHealthPub, h1, w1))"

text \<open>\<open>None\<close>: the event does not happen here (or a \<open>connect\<close> never returns).\<close>

fun quote_step ::
    "'w TpIo \<Rightarrow> json_parser \<Rightarrow> quote_ev \<Rightarrow> quote_pc \<times> QuoteHandler \<times> 'w \<Rightarrow> (quote_pc \<times> QuoteHandler \<times> 'w) option" where
  "quote_step io parse (ThreadActs net) (pc, h, w) =
     map_option (\<lambda>wk. (pc, h\<lparr>qh_worker := wk\<rparr>, w))
       (worker_step (\<lambda>req. fetchSnapshot net parse (qh_rest h) (rq_sym req) (qm_snapshotLimit (qh_cfg h))) (qh_worker h))"
| "quote_step io parse (Go rd t) (QStart, h, w) = startRun io h w"
| "quote_step io parse (Go rd t) (QTest, h, w) =
     (case q_running io h w of (run, w1) \<Rightarrow>
        if run then map_option (\<lambda>(h2, w2). (QSetup, h2, w2)) (beginConnection io rd t h w1)
        else Some (QJoin True, stopWorker h, w1))"
| "quote_step io parse (HandshakeDone now) (QSetup, h, w) = Some (QTop now, connectionUp h, w)"
| "quote_step io parse SocketThrows (QSetup, h, w) = Some (QCaught, h, w)"
| "quote_step io parse (Drain now je jr) (QTop lh, h, w) =
     (case q_running io h w of (run, w1) \<Rightarrow>
        if run then Some (QRead lh, applySnapshotResults now je jr h, w1) else Some (QLeft, h, w1))"
| "quote_step io parse (MessageRead rd rdT us ns msg t steady wall) (QRead lh, h, w) =
     (case q_running io h w of (run, w1) \<Rightarrow>
        if run then afterRead io parse rd rdT us ns msg t steady wall lh h w1 else Some (QLeft, h, w1))"
| "quote_step io parse SocketThrows (QRead lh, h, w) = Some (QCaught, h, w)"
| "quote_step io parse (Go rd t) (QLeft, h, w) = Some (QTest, connectionLeft h, w)"
| "quote_step io parse (Go rd t) (QCaught, h, w) = Some (afterThrow io h w)"
| "quote_step io parse (Go rd t) (QJoin cl, h, w) =
     (if sw_pc (qh_worker h) \<noteq> Ended then None
      else if cl then (case close io (qh_tp h) w of (p, w1) \<Rightarrow> Some (QEnd, h\<lparr>qh_tp := p\<rparr>, w1))
      else Some (QEnd, h, w))"
| "quote_step io parse _ _ = None"

fun quote_steps ::
    "'w TpIo \<Rightarrow> json_parser \<Rightarrow> quote_ev list \<Rightarrow> quote_pc \<times> QuoteHandler \<times> 'w \<Rightarrow> (quote_pc \<times> QuoteHandler \<times> 'w) option" where
  "quote_steps io parse [] st = Some st"
| "quote_steps io parse (ev # evs) st =
     (case quote_step io parse ev st of None \<Rightarrow> None | Some st1 \<Rightarrow> quote_steps io parse evs st1)"


section \<open>A stop is final\<close>

text \<open>Nothing sets \<open>running_\<close> again once \<open>stop\<close> or a signal has cleared it: \<open>st\<close> is the set of worlds in which it
  has been cleared. This is all that is assumed of the flag.\<close>

definition stop_contract :: "'w TpIo \<Rightarrow> ('w \<Rightarrow> bool) \<Rightarrow> bool" where
  "stop_contract io st \<longleftrightarrow>
     (\<forall>w. fst (io_poll io w) \<longrightarrow> st (snd (io_poll io w))) \<and>
     (\<forall>w. st w \<longrightarrow> fst (io_poll io w) \<and> st (snd (io_poll io w))) \<and>
     (\<forall>w n. st w \<longrightarrow> st (io_sleep io n w)) \<and>
     (\<forall>w h. st w \<longrightarrow> st (io_kclose io h w)) \<and>
     (\<forall>w h f as. st w \<longrightarrow> st (snd (io_async io h f as w)))"

lemma stop_running:
  assumes c: "stop_contract io st" and r: "running io p w = (run, w1)"
  shows "\<not> run \<Longrightarrow> p_running p \<Longrightarrow> st w1" "st w \<Longrightarrow> \<not> run \<and> st w1"
proof -
  obtain s w2 where po: "io_poll io w = (s, w2)" by fastforce
  have "(s \<longrightarrow> st w2) \<and> (st w \<longrightarrow> s \<and> st w2)" using c po unfolding stop_contract_def by (metis fst_conv snd_conv)
  with r po show "\<not> run \<Longrightarrow> p_running p \<Longrightarrow> st w1" "st w \<Longrightarrow> \<not> run \<and> st w1" by (auto simp: running_def)
qed

lemma stop_sleep:
  assumes c: "stop_contract io st" and w: "st w"
  shows "st (sleep_loop io p delay slept w)"
proof -
  obtain run w1 where r: "running io p w = (run, w1)" by fastforce
  from stop_running(2) [OF c r w] r w show ?thesis by (subst sleep_loop.simps) simp
qed

lemma stop_kclose: "stop_contract io st \<Longrightarrow> st w \<Longrightarrow> st (io_kclose io h w)"
  by (simp add: stop_contract_def)

lemma stop_close:
  "stop_contract io st \<Longrightarrow> close io p w = (p1, w1) \<Longrightarrow> st w \<Longrightarrow> st w1"
  by (auto simp: close_def stop_kclose split: if_splits)

text \<open>While nobody stopped it, a publisher that runs is connected.\<close>

definition tp_up :: "('w \<Rightarrow> bool) \<Rightarrow> TpPublisher \<Rightarrow> 'w \<Rightarrow> bool" where
  "tp_up st p w \<longleftrightarrow> (p_running p \<and> \<not> st w \<longrightarrow> connected p)"

lemma connectOnce_up:
  "connectOnce io n p w = (Some b, p1, w1) \<Longrightarrow> tp_up st p1 w1"
  by (auto simp: connectOnce_def tp_up_def connected_def split: prod.splits if_splits)

lemma connect_up:
  assumes c: "stop_contract io st" and ret: "connect_loop io n att p w = Some v"
  shows "tp_up st (fst (snd v)) (snd (snd v))"
proof -
  let ?P = "\<lambda>io' n att p w v. io' = io \<longrightarrow> tp_up st (fst (snd v)) (snd (snd v))"
  have "?P io n att p w v"
  proof (rule connect_loop.raw_induct [where P = ?P, OF _ ret])
    fix f io' n att p w v
    assume ih: "\<And>io' n att p w v. f io' n att p w = Some v \<Longrightarrow> ?P io' n att p w v"
      and eq: "(case running io' p w of (run, w1) \<Rightarrow>
        if \<not> run then Some (False, p, w1)
        else case connectOnce io' n p w1 of (res, p1, w2) \<Rightarrow>
          (case res of Some b \<Rightarrow> Some (b, p1, w2)
           | None \<Rightarrow> (case sleepWithBackoff io' att p1 w2 of (go, w3) \<Rightarrow>
               if go then f io' n (Suc att) p1 w3 else Some (False, p1, w3)))) = Some v"
    show "?P io' n att p w v"
    proof
      assume io: "io' = io"
      obtain run w1 where r: "running io p w = (run, w1)" by fastforce
      obtain res p1 w2 where k: "connectOnce io n p w1 = (res, p1, w2)" by (metis prod_cases3)
      obtain go w3 where g: "sleepWithBackoff io att p1 w2 = (go, w3)" by fastforce
      have up: "\<not> run \<Longrightarrow> tp_up st p w1" "\<not> go \<Longrightarrow> tp_up st p1 w3"
        using stop_running(1) [OF c r] stop_running(1) [OF c g [unfolded sleepWithBackoff_def]] by (auto simp: tp_up_def)
      show "tp_up st (fst (snd v)) (snd (snd v))"
      proof (cases "run \<and> res = None \<and> go")
        case True
        with eq r k g io have "f io n (Suc att) p1 w3 = Some v" by simp
        with ih show ?thesis by blast
      next
        case False
        with eq up connectOnce_up [of io n p w1 _ p1 w2 st] k show ?thesis
          by (auto simp: io r k g split: if_splits option.splits)
      qed
    qed
  qed
  then show ?thesis by simp
qed

lemma publish_up:
  assumes "stop_contract io st" "publish io r n p w = Some (b, p1, w1)"
  shows "tp_up st p1 w1"
  using assms(2) connect_up [OF assms(1), of "n + 1" 0 _ _ "(b, p1, w1)"]
  by (auto simp: publish_def connect_def Let_def tp_up_def connected_def split: prod.splits bool.splits if_splits)

section \<open>What the methods keep\<close>

text \<open>Between two steps: the publisher is connected unless the handler stops, and the snapshot thread has been started.\<close>

definition loop_ok :: "('w \<Rightarrow> bool) \<Rightarrow> QuoteHandler \<Rightarrow> 'w \<Rightarrow> bool" where
  "loop_ok st h w \<longleftrightarrow> tp_up st (qh_tp h) w \<and> sw_running (qh_worker h) \<and> sw_pc (qh_worker h) \<noteq> NotStarted"

lemma loop_ok_upd [simp]:
  "loop_ok st (h\<lparr>qh_fhSeqNo := sq\<rparr>) w = loop_ok st h w" "loop_ok st (h\<lparr>qh_books := bs\<rparr>) w = loop_ok st h w"
  "loop_ok st (h\<lparr>qh_scheduler := sc\<rparr>) w = loop_ok st h w" "loop_ok st (h\<lparr>qh_sequenceGaps := n\<rparr>) w = loop_ok st h w"
  "loop_ok st (h\<lparr>qh_resyncs := n\<rparr>) w = loop_ok st h w" "loop_ok st (h\<lparr>qh_rowClock := rc\<rparr>) w = loop_ok st h w"
  "loop_ok st (h\<lparr>qh_parseFailures := n\<rparr>) w = loop_ok st h w" "loop_ok st (h\<lparr>qh_lastMsgTime := t\<rparr>) w = loop_ok st h w"
  "loop_ok st (h\<lparr>qh_msgsReceived := n\<rparr>) w = loop_ok st h w" "loop_ok st (h\<lparr>qh_lastParseUs := t\<rparr>) w = loop_ok st h w"
  "loop_ok st (h\<lparr>qh_connState := cs\<rparr>) w = loop_ok st h w" "loop_ok st (h\<lparr>qh_latestRequestId := ids\<rparr>) w = loop_ok st h w"
  "loop_ok st (h\<lparr>qh_requestedAtMs := ts\<rparr>) w = loop_ok st h w" "loop_ok st (h\<lparr>qh_snapshotFailures := n\<rparr>) w = loop_ok st h w"
  "loop_ok st (h\<lparr>qh_reconnectAttempt := n\<rparr>) w = loop_ok st h w" "loop_ok st (h\<lparr>qh_wsReconnects := n\<rparr>) w = loop_ok st h w"
  by (simp_all add: loop_ok_def)

lemma loop_ok_books [simp]: "loop_ok st (snd (upd_book i f h)) w = loop_ok st h w" "loop_ok st (map_book i g h) w = loop_ok st h w"
  by (simp_all add: loop_ok_def map_book_def)

lemma publishQuote_loop:
  assumes "stop_contract io st" "loop_ok st h w" "publishQuote io rd q h w = Some (h1, w1)"
  shows "loop_ok st h1 w1"
  using assms(2,3) publish_up [OF assms(1)] by (auto simp: publishQuote_def loop_ok_def Let_def split: prod.splits option.splits)

lemma maybePublish_loop:
  assumes "stop_contract io st" "loop_ok st h w" "maybePublish io rd i t h w = Some (h1, w1)"
  shows "loop_ok st h1 w1"
  using assms(2,3)
  by (auto simp: maybePublish_def Let_def split: option.splits if_splits dest!: publishQuote_loop [OF assms(1), rotated])

lemma publishInvalid_loop:
  assumes "stop_contract io st" "loop_ok st h w" "publishInvalid io rd i t h w = Some (h1, w1)"
  shows "loop_ok st h1 w1"
  using assms(2,3)
  by (auto simp: publishInvalid_def Let_def split: option.splits dest!: publishQuote_loop [OF assms(1), rotated])

lemma timeoutLoop_loop:
  assumes c: "stop_contract io st"
  shows "loop_ok st h w \<Longrightarrow> timeoutLoop io rd t is h w = Some (h1, w1) \<Longrightarrow> loop_ok st h1 w1"
proof (induction "is" arbitrary: h w)
  case (Cons i "is")
  let ?q = "getQuote (book_cfg h) (getSymbol h i) (book h i) t (qh_fhSeqNo h + 1)"
  show ?case
  proof (cases "q_isValid ?q")
    case False
    with Cons show ?thesis by (simp add: Let_def)
  next
    case True
    then obtain h2 w2 where p: "publishQuote io (rd i) ?q (h\<lparr>qh_fhSeqNo := qh_fhSeqNo h + 1\<rparr>) w = Some (h2, w2)"
      and r: "timeoutLoop io rd t is (map_book i (recordPublish (rd_recordNs (rd i)) ?q) h2) w2 = Some (h1, w1)"
      using Cons.prems(2) by (auto simp: Let_def split: option.splits)
    have "loop_ok st h2 w2" by (rule publishQuote_loop [OF c _ p]) (simp add: Cons.prems(1))
    with Cons.IH [OF _ r] show ?thesis by simp
  qed
qed simp

lemma requestSnapshot_loop: "loop_ok st h w \<Longrightarrow> loop_ok st (requestSnapshot rd i h) w"
  by (auto simp: requestSnapshot_def enqueueRequest_def loop_ok_def Let_def map_book_def split: prod.splits)

lemma tryRequest_loop: "loop_ok st h w \<Longrightarrow> loop_ok st (tryRequest rd b i h) w"
  by (auto simp: tryRequest_def Let_def requestSnapshot_loop split: prod.splits)

lemma upd_book_loop: "upd_book i f h = (r, h1) \<Longrightarrow> loop_ok st h w \<Longrightarrow> loop_ok st h1 w"
  using loop_ok_books(1) [of st i f h w] by simp

lemma handleLive_loop:
  assumes c: "stop_contract io st" and h: "loop_ok st h w" and p: "handleLive io rd i d t h w = Some (h', w')"
  shows "loop_ok st h' w'"
proof -
  obtain r h1 where u: "upd_book i (applyDelta (book_cfg h) d) h = (r, h1)" by fastforce
  note h1 = upd_book_loop [OF u h]
  show ?thesis
  proof (cases r)
    case False
    with p u h1 show ?thesis
      by (auto simp: handleLive_def Let_def split: option.splits if_splits dest!: publishInvalid_loop [OF c, rotated])
  next
    case True
    with p u h1 show ?thesis
      by (auto simp: handleLive_def Let_def tryRequest_loop split: option.splits if_splits dest!: maybePublish_loop [OF c, rotated])
  qed
qed

lemma handleDelta_loop:
  assumes c: "stop_contract io st" and h: "loop_ok st h w" and p: "handleDelta io rd i d t h w = Some (h', w')"
  shows "loop_ok st h' w'"
  using p h
  by (auto simp: handleDelta_def Let_def tryRequest_loop split: BookState.splits if_splits dest: handleLive_loop [OF c h])

lemma processMessage_loop:
  assumes c: "stop_contract io st" and h: "loop_ok st h w" and p: "processMessage io rd parse msg t h w = Some (h', w')"
  shows "loop_ok st h' w'"
  using p h
  by (auto simp: processMessage_def Let_def split: sum.splits option.splits if_splits dest!: handleDelta_loop [OF c, rotated])

lemma onMessage_loop:
  assumes c: "stop_contract io st" and h: "loop_ok st h w" and p: "onMessage io rd rdT us ns parse msg t h w = Some (h', w')"
  shows "loop_ok st h' w'"
  using p h
  by (auto simp: onMessage_def checkPublishTimeouts_def Let_def split: option.splits
      dest!: processMessage_loop [OF c, rotated] timeoutLoop_loop [OF c, rotated])

lemma invalidLoop_loop:
  assumes c: "stop_contract io st"
  shows "loop_ok st h w \<Longrightarrow> invalidLoop io rd ns is h w = Some (h1, w1) \<Longrightarrow> loop_ok st h1 w1"
proof (induction "is" arbitrary: h w)
  case (Cons i "is")
  then show ?case by (auto split: option.splits if_splits dest!: publishInvalid_loop [OF c, rotated])
qed simp

lemma giveUp_loop: "loop_ok st h w \<Longrightarrow> loop_ok st (fold giveUpRequest is h) w"
proof (induction "is" arbitrary: h)
  case (Cons i "is")
  then show ?case by (simp add: giveUpRequest_def)
qed simp

lemma beginConnection_loop:
  assumes c: "stop_contract io st" and h: "loop_ok st h w" and p: "beginConnection io rd ns h w = Some (h', w')"
  shows "loop_ok st h' w'"
  using p h
  by (auto simp: beginConnection_def Let_def split: option.splits if_splits dest!: invalidLoop_loop [OF c, rotated] intro!: giveUp_loop)

lemma expireRequest_loop: "loop_ok st h w \<Longrightarrow> loop_ok st (expireRequest now je i h) w"
  by (simp add: expireRequest_def Let_def)

lemma applyResult_loop: "loop_ok st h w \<Longrightarrow> loop_ok st (applyResult now jr r h) w"
proof -
  have "loop_ok st (afterSnapshot now j i oc h) w" if "loop_ok st h w" for j i oc h
    using that by (simp add: afterSnapshot_def split: SnapshotOutcome.split)
  then show "loop_ok st h w \<Longrightarrow> loop_ok st (applyResult now jr r h) w"
    by (auto simp: applyResult_def Let_def split: prod.split dest: upd_book_loop)
qed

lemma fold_loop:
  assumes "\<And>x h. loop_ok st h w \<Longrightarrow> loop_ok st (f x h) w"
  shows "loop_ok st h w \<Longrightarrow> loop_ok st (fold f xs h) w"
  using assms by (induction xs arbitrary: h) simp_all

lemma applySnapshotResults_loop:
  assumes "loop_ok st h w"
  shows "loop_ok st (applySnapshotResults now je jr h) w"
proof -
  let ?h1 = "fold (expireRequest now je) [0..<length (qh_requestedAtMs h)] h"
  have "loop_ok st ?h1 w" by (rule fold_loop [OF expireRequest_loop assms])
  then have "loop_ok st (?h1\<lparr>qh_worker := snd (drainResults (qh_worker ?h1))\<rparr>) w"
    by (simp add: loop_ok_def drainResults_def bq_drain_def)
  from fold_loop [of st w "applyResult now jr", OF applyResult_loop this] show ?thesis
    by (simp add: applySnapshotResults_def Let_def split_def)
qed

section \<open>Every state of the machine is one of the handler's life\<close>

definition fetch_of :: "net \<Rightarrow> json_parser \<Rightarrow> QuoteHandler \<Rightarrow> SnapshotRequest \<Rightarrow> SnapshotData" where
  "fetch_of net parse h req = fetchSnapshot net parse (qh_rest h) (rq_sym req) (qm_snapshotLimit (qh_cfg h))"

lemma fetch_of_eq:
  "(\<lambda>req. fetchSnapshot net parse (qh_rest h) (rq_sym req) (qm_snapshotLimit (qh_cfg h))) = fetch_of net parse h"
  by (simp add: fun_eq_iff fetch_of_def)

text \<open>What is assumed of the events: messages and snapshots come from the exchange, and the steady clock is not zero.\<close>

fun ev_fits :: "(nat \<Rightarrow> int \<Rightarrow> exchange_book) \<Rightarrow> bool \<Rightarrow> json_parser \<Rightarrow> quote_ev \<Rightarrow> QuoteHandler \<Rightarrow> bool" where
  "ev_fits X ord parse (MessageRead rd rdT us ns msg t steady wall) h \<longleftrightarrow> message_ok X ord parse msg h \<and> rd_requestMs rd \<noteq> 0"
| "ev_fits X ord parse (ThreadActs net) h \<longleftrightarrow> answers_ok X (book_cfg h) (qh_worker h) (fetch_of net parse h)"
| "ev_fits X ord parse _ h \<longleftrightarrow> True"

fun steps_fit ::
    "'w TpIo \<Rightarrow> json_parser \<Rightarrow> (quote_ev \<Rightarrow> QuoteHandler \<Rightarrow> bool) \<Rightarrow> quote_ev list \<Rightarrow> quote_pc \<times> QuoteHandler \<times> 'w \<Rightarrow> bool" where
  "steps_fit io parse fits [] s \<longleftrightarrow> True"
| "steps_fit io parse fits (ev # evs) s \<longleftrightarrow> fits ev (fst (snd s)) \<and>
     (case quote_step io parse ev s of None \<Rightarrow> True | Some s1 \<Rightarrow> steps_fit io parse fits evs s1)"

fun looping :: "quote_pc \<Rightarrow> bool" where
  "looping (QJoin cl) \<longleftrightarrow> False"
| "looping QStart \<longleftrightarrow> False"
| "looping QEnd \<longleftrightarrow> False"
| "looping _ \<longleftrightarrow> True"

text \<open>The snapshot thread when it is to be joined: asked to stop, and never waiting on its queue.\<close>

definition stopping :: "SnapshotWorker \<Rightarrow> bool" where
  "stopping wk \<longleftrightarrow> \<not> sw_running wk \<and> bq_shutdown (sw_requests wk) \<and> sw_pc wk \<noteq> NotStarted"

lemma stop_stopping: "sw_running wk \<Longrightarrow> sw_pc wk \<noteq> NotStarted \<Longrightarrow> stopping (sw_stop wk)"
  by (simp add: stopping_def sw_stop_def bq_shut_def)

lemma worker_step_keeps:
  assumes "worker_step f wk = Some wk'"
  shows "sw_running wk' = sw_running wk" "sw_pc wk' \<noteq> NotStarted" "stopping wk \<Longrightarrow> stopping wk'"
  using assms
  by (auto simp: worker_step_def stopping_def bq_pop_blocking_def split: worker_pc.splits option.splits list.splits if_splits)

definition state_ok ::
    "('w \<Rightarrow> bool) \<Rightarrow> (QuoteHandler \<Rightarrow> 'w \<Rightarrow> bool) \<Rightarrow> QuoteHandler \<Rightarrow> 'w \<Rightarrow> quote_pc \<times> QuoteHandler \<times> 'w \<Rightarrow> bool" where
  "state_ok st life h0 w0 s \<longleftrightarrow> (case s of (pc, h, w) \<Rightarrow>
     (pc = QStart \<longrightarrow> h = h0 \<and> w = w0) \<and> (looping pc \<longrightarrow> life h w \<and> loop_ok st h w) \<and>
     (\<forall>cl. pc = QJoin cl \<longrightarrow> stopping (qh_worker h)))"

lemma loop_ok_world: "loop_ok st h w \<Longrightarrow> (st w \<Longrightarrow> st w') \<Longrightarrow> loop_ok st h w'"
  by (auto simp: loop_ok_def tp_up_def)

lemma running_loop:
  assumes "stop_contract io st" "loop_ok st h w" "running io (qh_tp h) w = (run, w1)"
  shows "loop_ok st h w1" "run \<Longrightarrow> connected (qh_tp h)"
proof -
  note r = stop_running [OF assms(1,3)]
  show "loop_ok st h w1" by (rule loop_ok_world [OF assms(2)]) (use r(2) in simp)
  have "p_running (qh_tp h)" if run using assms(3) that by (auto simp: running_def split: prod.splits)
  with assms(2) r(2) show "run \<Longrightarrow> connected (qh_tp h)" by (auto simp: loop_ok_def tp_up_def)
qed

text \<open>The contract of a life: a relation that the methods keep, in the places where the loops call them. The machine's
  states are then states of that life, whichever it is.\<close>

locale quote_life =
  fixes io :: "'w TpIo" and parse :: json_parser and fits :: "quote_ev \<Rightarrow> QuoteHandler \<Rightarrow> bool"
    and h0 :: QuoteHandler and w0 :: 'w and Q :: "QuoteHandler \<Rightarrow> 'w \<Rightarrow> bool"
  assumes life_begins: "connect io (qh_fhSeqNo h0 + 1) (qh_tp h0) w0 = Some (True, p, w) \<Longrightarrow>
      Q (h0\<lparr>qh_worker := sw_start (qh_worker h0), qh_tp := p\<rparr>) w"
    and life_flag: "Q h w \<Longrightarrow> running io (qh_tp h) w = (run, w') \<Longrightarrow> Q h w'"
    and life_waits: "Q h w \<Longrightarrow> Q h (sleep_loop io (qh_tp h) delay slept w)"
    and life_connects: "Q h w \<Longrightarrow> connected (qh_tp h) \<Longrightarrow> beginConnection io rdT t h w = Some (h', w') \<Longrightarrow> Q h' w'"
    and life_up: "Q h w \<Longrightarrow> Q (connectionUp h) w"
    and life_left: "Q h w \<Longrightarrow> Q (connectionLeft h) w"
    and life_lost: "Q h w \<Longrightarrow> connectionLost h = (ms, h') \<Longrightarrow> Q h' w"
    and life_results: "Q h w \<Longrightarrow> Q (applySnapshotResults now je jr h) w"
    and life_message: "Q h w \<Longrightarrow> fits (MessageRead rd rdT us ns msg t steady wall) h \<Longrightarrow>
      onMessage io rd rdT us ns parse msg t h w = Some (h', w') \<Longrightarrow> Q h' w'"
    and life_health: "Q h w \<Longrightarrow> Q h (publishHealth io wall h w)"
    and life_thread: "Q h w \<Longrightarrow> fits (ThreadActs net) h \<Longrightarrow> worker_step (fetch_of net parse h) (qh_worker h) = Some wk' \<Longrightarrow>
      Q (h\<lparr>qh_worker := wk'\<rparr>) w"
begin

lemma afterThrow_ok:
  assumes c: "stop_contract io st" and l: "Q h w" "loop_ok st h w"
  shows "state_ok st Q h0 w0 (afterThrow io h w)"
proof -
  obtain run w1 where r: "running io (qh_tp h) w = (run, w1)" by fastforce
  note l1 = life_flag [OF l(1) r] running_loop(1) [OF c l(2) r]
  obtain delay h1 where d: "connectionLost h = (delay, h1)" by fastforce
  have l2: "Q h1 w1" "loop_ok st h1 w1"
    using life_lost [OF l1(1) d] l1(2) d by (auto simp: connectionLost_def)
  let ?w = "sleep_loop io (qh_tp h1) (nat delay) 0 w1"
  obtain go w2 where g: "running io (qh_tp h1) ?w = (go, w2)" by fastforce
  have l3: "loop_ok st h1 ?w" by (rule loop_ok_world [OF l2(2)]) (rule stop_sleep [OF c])
  have l4: "Q h1 w2" by (rule life_flag [OF life_waits [OF l2(1)] g])
  note l5 = running_loop(1) [OF c l3 g]
  from l1 l4 l5 r d g stop_stopping [of "qh_worker h1"] show ?thesis
    by (simp add: afterThrow_def q_running_def state_ok_def stopWorker_def loop_ok_def)
qed

lemma startRun_ok:
  assumes c: "stop_contract io st" and wk: "qh_worker h0 = newWorker" and s: "startRun io h0 w0 = Some (pc, h, w)"
  shows "state_ok st Q h0 w0 (pc, h, w)"
proof -
  obtain b p w1 where k: "connect io (qh_fhSeqNo h0 + 1) (qh_tp h0) w0 = Some (b, p, w1)"
    using s by (auto simp: startRun_def Let_def split: option.splits)
  have up: "tp_up st p w1" using connect_up [OF c k [unfolded connect_def]] by simp
  have w: "sw_running (sw_start newWorker)" "sw_pc (sw_start newWorker) \<noteq> NotStarted"
    by (simp_all add: sw_start_def newWorker_def)
  show ?thesis
  proof (cases b)
    case True
    then have e: "pc = QTest" "h = h0\<lparr>qh_worker := sw_start (qh_worker h0), qh_tp := p\<rparr>" "w = w1"
      using s k by (simp_all add: startRun_def Let_def)
    have "connect io (qh_fhSeqNo h0 + 1) (qh_tp h0) w0 = Some (True, p, w1)" using k True by simp
    then have "Q h w" unfolding e by (rule life_begins)
    with e up w wk show ?thesis by (simp add: state_ok_def loop_ok_def)
  next
    case False
    with s k w wk stop_stopping [of "sw_start newWorker"] show ?thesis
      by (auto simp: startRun_def Let_def state_ok_def stopWorker_def)
  qed
qed

lemma quote_step_ok:
  assumes c: "stop_contract io st" and wk: "qh_worker h0 = newWorker"
    and ok: "state_ok st Q h0 w0 (pc, h, w)" and fit: "fits ev h"
    and s: "quote_step io parse ev (pc, h, w) = Some (pc', h', w')"
  shows "state_ok st Q h0 w0 (pc', h', w')"
proof -
  have l: "Q h w" "loop_ok st h w" if "looping pc" using ok that by (simp_all add: state_ok_def)
  obtain run w1 where r: "running io (qh_tp h) w = (run, w1)" by fastforce
  have lr: "Q h w1" "loop_ok st h w1" "run \<Longrightarrow> connected (qh_tp h)" if "looping pc"
    using l [OF that] life_flag [OF _ r] running_loop [OF c _ r] by blast+
  have sw: "stopping (qh_worker (stopWorker h))" if "looping pc"
    using l(2) [OF that] stop_stopping by (simp add: stopWorker_def loop_ok_def)
  show ?thesis
  proof (cases ev)
    case (ThreadActs net)
    then obtain wk' where k: "worker_step (fetch_of net parse h) (qh_worker h) = Some wk'" and e: "pc' = pc" "h' = h\<lparr>qh_worker := wk'\<rparr>" "w' = w"
      using s by (cases pc) (auto simp: fetch_of_eq)
    have "Q h' w'" if "looping pc"
      using life_thread [OF l(1) [OF that] _ k] fit ThreadActs e by simp
    moreover have "pc \<noteq> QStart"
      using k ok wk by (auto simp: state_ok_def newWorker_def worker_step_def)
    ultimately show ?thesis using worker_step_keeps [OF k] l ok e by (auto simp: state_ok_def loop_ok_def)
  next
    case (Go rd t)
    show ?thesis
    proof (cases pc)
      case QStart
      with s Go ok have "startRun io h0 w0 = Some (pc', h', w')" by (simp add: state_ok_def)
      from startRun_ok [OF c wk this] show ?thesis .
    next
      case QTest
      then have lp: "looping pc" by simp
      show ?thesis
      proof (cases run)
        case False
        with s Go QTest r sw [OF lp] show ?thesis by (auto simp: q_running_def state_ok_def)
      next
        case True
        with s Go QTest r have b: "beginConnection io rd t h w1 = Some (h', w')" and pc: "pc' = QSetup" by (auto simp: q_running_def)
        from life_connects [OF lr(1) [OF lp] lr(3) [OF lp True] b] beginConnection_loop [OF c lr(2) [OF lp] b] pc
        show ?thesis by (simp add: state_ok_def)
      qed
    next
      case QLeft
      with s Go l life_left show ?thesis by (auto simp: state_ok_def connectionLeft_def)
    next
      case QCaught
      then have "afterThrow io h w = (pc', h', w')" using s Go by simp
      with afterThrow_ok [OF c l] QCaught show ?thesis by simp
    qed (use s Go in \<open>auto simp: state_ok_def split: if_splits prod.splits\<close>)
  next
    case (HandshakeDone now)
    with s l life_up show ?thesis by (cases pc) (auto simp: state_ok_def connectionUp_def)
  next
    case SocketThrows
    with s l show ?thesis by (cases pc) (auto simp: state_ok_def)
  next
    case (Drain now je jr)
    then obtain lh where pc: "pc = QTop lh" using s by (cases pc) auto
    then have lp: "looping pc" by simp
    from s Drain pc r lr [OF lp] life_results [OF lr(1) [OF lp]] applySnapshotResults_loop [OF lr(2) [OF lp]]
    show ?thesis by (auto simp: q_running_def state_ok_def split: if_splits)
  next
    case (MessageRead rd rdT us ns msg t steady wall)
    then obtain lh where pc: "pc = QRead lh" using s by (cases pc) auto
    then have lp: "looping pc" by simp
    show ?thesis
    proof (cases run)
      case False
      with s MessageRead pc r lr [OF lp] show ?thesis by (auto simp: q_running_def state_ok_def)
    next
      case True
      then have a: "afterRead io parse rd rdT us ns msg t steady wall lh h w1 = Some (pc', h', w')"
        using s MessageRead pc r by (simp add: q_running_def)
      then obtain h1 w2 where m: "onMessage io rd rdT us ns parse msg t h w1 = Some (h1, w2)"
        and e: "(pc', h', w') = (if healthDue steady lh then (QTop steady, h1, publishHealth io wall h1 w2) else (QTop lh, h1, w2))"
        unfolding afterRead_def by (auto split: option.splits if_splits)
      have f: "fits (MessageRead rd rdT us ns msg t steady wall) h" using fit MessageRead by simp
      have q: "Q h1 w2" by (rule life_message [OF lr(1) [OF lp] f m])
      note k = onMessage_loop [OF c lr(2) [OF lp] m]
      have "loop_ok st h1 (publishHealth io wall h1 w2)"
        by (rule loop_ok_world [OF k]) (use c in \<open>simp add: publishHealth_def sendFhStats_def stop_contract_def Let_def\<close>)
      with e q k life_health [OF q, of wall] show ?thesis by (auto simp: state_ok_def split: if_splits)
    qed
  qed
qed

lemma quote_steps_ok:
  assumes c: "stop_contract io st" and wk: "qh_worker h0 = newWorker"
  shows "state_ok st Q h0 w0 s \<Longrightarrow> steps_fit io parse fits evs s \<Longrightarrow>
    quote_steps io parse evs s = Some s' \<Longrightarrow> state_ok st Q h0 w0 s'"
proof (induction evs arbitrary: s)
  case (Cons ev evs)
  obtain pc h w where s: "s = (pc, h, w)" by (metis prod_cases3)
  obtain s1 where 1: "quote_step io parse ev s = Some s1" "quote_steps io parse evs s1 = Some s'"
    using Cons.prems(3) by (auto split: option.splits)
  obtain pc1 h1 w1 where s1: "s1 = (pc1, h1, w1)" by (metis prod_cases3)
  from quote_step_ok [OF c wk Cons.prems(1) [unfolded s] _ 1(1) [unfolded s s1]] Cons.prems(2) 1 Cons.IH [OF _ _ 1(2)]
  show ?case by (simp add: s s1)
qed simp

end

lemma new_worker: "qh_worker (newQuoteHandler symbols m tpHost tpPort startNs steadyNs) = newWorker"
  by (simp add: newQuoteHandler_def Let_def)

text \<open>The life of \<open>Quote_Log\<close> satisfies the contract, and so does the one that allows everything.\<close>

interpretation handler_life: quote_life io parse "ev_fits X ord parse" h0 w0 "quote_run io parse X ord h0 w0"
    for io parse X ord h0 w0
proof unfold_locales
  show "connect io (qh_fhSeqNo h0 + 1) (qh_tp h0) w0 = Some (True, p, w) \<Longrightarrow>
      quote_run io parse X ord h0 w0 (h0\<lparr>qh_worker := sw_start (qh_worker h0), qh_tp := p\<rparr>) w" for p w
    by (rule quote_run.begin_run)
  show "quote_run io parse X ord h0 w0 h w \<Longrightarrow> ev_fits X ord parse (MessageRead rd rdT us ns msg t steady wall) h \<Longrightarrow>
      onMessage io rd rdT us ns parse msg t h w = Some (h', w') \<Longrightarrow> quote_run io parse X ord h0 w0 h' w'"
    for h w rd rdT us ns msg t steady wall h' w' by (rule quote_run.read_message) simp_all
  show "quote_run io parse X ord h0 w0 h w \<Longrightarrow> ev_fits X ord parse (ThreadActs net) h \<Longrightarrow>
      worker_step (fetch_of net parse h) (qh_worker h) = Some wk \<Longrightarrow> quote_run io parse X ord h0 w0 (h\<lparr>qh_worker := wk\<rparr>) w"
    for h w net wk by (rule quote_run.snapshot_thread [OF _ fetch_of_eq [symmetric]]) simp_all
qed (rule quote_run.flag_read quote_run.waited quote_run.new_connection quote_run.connection_up quote_run.connection_left
    quote_run.connection_lost quote_run.results quote_run.health; assumption)+

interpretation any_life: quote_life io parse "\<lambda>_ _. True" h0 w0 "\<lambda>_ _. True" for io parse h0 w0
  by unfold_locales simp_all

lemma any_fits: "steps_fit io parse (\<lambda>_ _. True) evs s"
  by (induction evs arbitrary: s) (simp_all split: option.split)

section \<open>The end of a run\<close>

fun rank :: "quote_pc \<Rightarrow> nat" where
  "rank QEnd = 0"
| "rank (QJoin cl) = 1"
| "rank QStart = 2"
| "rank QTest = 2"
| "rank QLeft = 3"
| "rank QCaught = 3"
| "rank (QRead lh) = 4"
| "rank (QTop lh) = 5"
| "rank QSetup = 6"

fun own_step :: "quote_ev \<Rightarrow> bool" where
  "own_step (ThreadActs net) \<longleftrightarrow> False"
| "own_step _ \<longleftrightarrow> True"

lemma connect_stopped:
  assumes "stop_contract io st" "st w"
  shows "\<exists>w1. connect io n p w = Some (False, p, w1) \<and> st w1"
proof -
  obtain run w1 where r: "running io p w = (run, w1)" by fastforce
  from stop_running(2) [OF assms(1) r assms(2)] r show ?thesis
    unfolding connect_def by (subst connect_loop.simps) simp
qed

lemma stopped_step:
  assumes c: "stop_contract io st" and w: "st w" and s: "quote_step io parse ev (pc, h, w) = Some (pc', h', w')"
  shows "(if own_step ev then rank pc' < rank pc else pc' = pc) \<and> st w' \<and> qh_fhSeqNo h' = qh_fhSeqNo h \<and> qh_books h' = qh_books h"
proof -
  obtain run w1 where r: "running io (qh_tp h) w = (run, w1)" by fastforce
  note f = stop_running(2) [OF c r w]
  show ?thesis
  proof (cases ev)
    case (Go rd t)
    show ?thesis
    proof (cases pc)
      case QStart
      obtain w2 where "connect io (qh_fhSeqNo h + 1) (qh_tp h) w = Some (False, qh_tp h, w2)" "st w2"
        using connect_stopped [OF c w] by blast
      with QStart s Go show ?thesis by (auto simp: startRun_def stopWorker_def Let_def)
    next
      case QCaught
      with s Go f r w show ?thesis by (auto simp: afterThrow_def q_running_def)
    next
      case (QJoin cl)
      with s Go w stop_close [OF c] show ?thesis by (auto split: if_splits prod.splits)
    qed (use s Go f r w in \<open>auto simp: q_running_def stopWorker_def connectionLeft_def\<close>)
  next
    case (ThreadActs net)
    with s w show ?thesis by (cases pc) auto
  qed (use s f r w in \<open>cases pc; auto simp: q_running_def connectionUp_def\<close>)+
qed

lemma stopped_steps:
  assumes c: "stop_contract io st"
  shows "st w \<Longrightarrow> quote_steps io parse evs (pc, h, w) = Some (pc', h', w') \<Longrightarrow>
    length (filter own_step evs) + rank pc' \<le> rank pc \<and> st w' \<and> qh_fhSeqNo h' = qh_fhSeqNo h \<and> qh_books h' = qh_books h"
proof (induction evs arbitrary: pc h w)
  case (Cons ev evs)
  obtain pc1 h1 w1 where 1: "quote_step io parse ev (pc, h, w) = Some (pc1, h1, w1)" "quote_steps io parse evs (pc1, h1, w1) = Some (pc', h', w')"
    using Cons.prems(2) by (auto split: option.splits)
  note 2 = stopped_step [OF c Cons.prems(1) 1(1)]
  from Cons.IH [OF _ 1(2)] 2 show ?case by (auto split: if_splits)
qed simp

text \<open>Once stopped, the thread of a handler always has something to do, or waits for the snapshot thread, which has.\<close>

lemma stopped_goes_on:
  assumes c: "stop_contract io st" and w: "st w" and j: "\<And>cl. pc = QJoin cl \<Longrightarrow> stopping (qh_worker h)" and pc: "pc \<noteq> QEnd"
  shows "\<exists>ev. quote_step io parse ev (pc, h, w) \<noteq> None"
proof -
  obtain run w1 where r: "running io (qh_tp h) w = (run, w1)" by fastforce
  note f = stop_running(2) [OF c r w]
  let ?go = "quote_step io parse (Go rd t) (pc, h, w)"
  show ?thesis
  proof (cases pc)
    case QStart
    obtain w2 where "connect io (qh_fhSeqNo h + 1) (qh_tp h) w = Some (False, qh_tp h, w2)"
      using connect_stopped [OF c w] by blast
    with QStart show ?thesis by (intro exI [of _ "Go undefined 0"]) (simp add: startRun_def Let_def)
  next
    case QTest
    with r f show ?thesis by (intro exI [of _ "Go undefined 0"]) (simp add: q_running_def)
  next
    case (QJoin cl)
    show ?thesis
    proof (cases "sw_pc (qh_worker h) = Ended")
      case True
      with QJoin show ?thesis by (intro exI [of _ "Go undefined 0"]) (simp split: prod.split)
    next
      case False
      with j [OF QJoin] QJoin show ?thesis
        by (intro exI [of _ "ThreadActs undefined"])
          (auto simp: worker_step_def stopping_def bq_pop_blocking_def split: worker_pc.splits list.splits)
    qed
  next
    case QCaught
    then show ?thesis by (intro exI [of _ "Go undefined 0"]) (cases "afterThrow io h w", simp)
  qed (use pc in \<open>auto intro: exI [of _ "Go undefined 0"] exI [of _ SocketThrows] exI [of _ "Drain 0 undefined undefined"] split: prod.split simp: q_running_def\<close>)
qed

section \<open>Properties\<close>

text \<open>C12: The loops of \<open>run\<close> and \<open>runWebSocketLoop\<close> as they are written lead a handler's life: after any sequence of
  handshakes, messages, exceptions, waits and actions of the snapshot thread, with the flag \<open>running_\<close> cleared at any
  moment, the state is one that \<open>quote_run\<close> reaches, so what is proved of a handler's life holds of the code's
  control flow; and a handler that is neither stopped nor refused is connected to the tickerplant wherever its thread is.\<close>

theorem run_is_a_life:
  assumes "stop_contract io st" "h0 = newQuoteHandler symbols m tpHost tpPort startNs steadyNs"
    and "steps_fit io parse (ev_fits X ord parse) evs (QStart, h0, w0)"
    and "quote_steps io parse evs (QStart, h0, w0) = Some (pc, h, w)" "looping pc"
  shows "quote_run io parse X ord h0 w0 h w \<and> (p_running (qh_tp h) \<and> \<not> st w \<longrightarrow> connected (qh_tp h))"
proof -
  have "state_ok st (quote_run io parse X ord h0 w0) h0 w0 (QStart, h0, w0)" by (simp add: state_ok_def)
  from handler_life.quote_steps_ok [OF assms(1) _ this assms(3,4)] assms(2,5) new_worker
  show ?thesis by (simp add: state_ok_def loop_ok_def tp_up_def)
qed

definition loop_events :: "quote_ev list" where
  "loop_events = [Go (\<lambda>_. demo_rd) 0, Go (\<lambda>_. demo_rd) 0, HandshakeDone 1, Drain 1 (\<lambda>_. 0) (\<lambda>_. 0)]"

lemma loop_events_run:
  "map_option (\<lambda>(pc, h, w). (pc, qh_connState h)) (quote_steps dying_io demo_parse loop_events (QStart, demo_h0, dying_start)) =
     Some (QRead 1, ''connected'')"
  by code_simp

lemma dying_never_stops: "stop_contract dying_io (\<lambda>_. False)"
  by (simp add: stop_contract_def dying_io_def)

lemma run_is_a_life_witness:
  "\<exists>h w. quote_steps dying_io demo_parse loop_events (QStart, demo_h0, dying_start) = Some (QRead 1, h, w) \<and> demo_run h w"
proof -
  obtain h w where r: "quote_steps dying_io demo_parse loop_events (QStart, demo_h0, dying_start) = Some (QRead 1, h, w)"
    using loop_events_run by (cases "quote_steps dying_io demo_parse loop_events (QStart, demo_h0, dying_start)") auto
  have f: "steps_fit dying_io demo_parse (ev_fits (\<lambda>_. run_X) True demo_parse) loop_events (QStart, demo_h0, dying_start)"
    by (simp add: loop_events_def split: option.split)
  from run_is_a_life [OF dying_never_stops demo_h0_def f r] r show ?thesis by auto
qed

text \<open>C16: \<open>run\<close> ends after a stop. From the moment the flag is cleared, wherever the handler's thread is, it takes at most six
  more steps of its own, publishes no row and changes no book on the way; until it has ended it can always take
  one, except that it waits in the join for the snapshot thread, which then can.\<close>

theorem stopped_run_ends:
  assumes "stop_contract io st" "h0 = newQuoteHandler symbols m tpHost tpPort startNs steadyNs"
    and "quote_steps io parse evs0 (QStart, h0, w0) = Some (pc, h, w)" "st w"
    and "quote_steps io parse evs (pc, h, w) = Some (pc', h', w')"
  shows "length (filter own_step evs) \<le> 6 \<and> qh_fhSeqNo h' = qh_fhSeqNo h \<and> qh_books h' = qh_books h \<and>
    (pc' = QEnd \<or> (\<exists>ev. quote_step io parse ev (pc', h', w') \<noteq> None))"
proof -
  note 1 = stopped_steps [OF assms(1,4,5)]
  have "rank pc \<le> 6" by (cases pc) simp_all
  have "state_ok st (\<lambda>_ _. True) h0 w0 (QStart, h0, w0)" by (simp add: state_ok_def)
  from any_life.quote_steps_ok [OF assms(1) _ this any_fits assms(3)] assms(2) new_worker
  have "state_ok st (\<lambda>_ _. True) h0 w0 (pc, h, w)" by simp
  from any_life.quote_steps_ok [OF assms(1) _ this any_fits assms(5)] assms(2) new_worker
  have "state_ok st (\<lambda>_ _. True) h0 w0 (pc', h', w')" by simp
  then have "pc' = QEnd \<or> (\<exists>ev. quote_step io parse ev (pc', h', w') \<noteq> None)"
    using stopped_goes_on [OF assms(1), of w' pc' h' parse] 1 by (auto simp: state_ok_def)
  with 1 \<open>rank pc \<le> 6\<close> show ?thesis by simp
qed

definition halted_io :: "DyingTp TpIo" where
  "halted_io = dying_io\<lparr>io_poll := \<lambda>w. (dw_life w = 0, w)\<rparr>"

lemma halted_stops: "stop_contract halted_io (\<lambda>w. dw_life w = 0)"
  by (auto simp: stop_contract_def halted_io_def dying_io_def split: list.split kobj.split)

definition halted_start :: DyingTp where
  "halted_start = dying_start\<lparr>dw_life := 0\<rparr>"

definition halt_events :: "quote_ev list" where
  "halt_events = [Go (\<lambda>_. demo_rd) 0, ThreadActs demo_net, Go (\<lambda>_. demo_rd) 0]"

lemma halted_run: "\<exists>h w. quote_steps halted_io demo_parse halt_events (QStart, demo_h0, halted_start) = Some (QEnd, h, w)"
proof -
  have "connect halted_io (qh_fhSeqNo demo_h0 + 1) (qh_tp demo_h0) halted_start = Some (False, qh_tp demo_h0, halted_start)"
    unfolding connect_def by (subst connect_loop.simps) (simp add: running_def halted_io_def halted_start_def)
  then show ?thesis
    using new_worker [of "[''b'']" demo_market "''h''" 5010 1000 0, folded demo_h0_def]
    by (simp add: halt_events_def startRun_def stopWorker_def sw_start_def sw_stop_def newWorker_def worker_step_def)
qed

lemma stopped_run_ends_witness:
  "\<exists>h w. quote_steps halted_io demo_parse halt_events (QStart, demo_h0, halted_start) = Some (QEnd, h, w) \<and>
     qh_books h = qh_books demo_h0 \<and> length (filter own_step halt_events) \<le> 6"
proof -
  obtain h w where r: "quote_steps halted_io demo_parse halt_events (QStart, demo_h0, halted_start) = Some (QEnd, h, w)"
    using halted_run by blast
  have "dw_life halted_start = 0" by (simp add: halted_start_def)
  from stopped_run_ends [where ?evs0.0 = "[]" and ?w0.0 = halted_start and parse = demo_parse,
      OF halted_stops demo_h0_def _ this r] r show ?thesis by simp
qed

end
