(* ===== verification/Trade_Gap.thy ===== *)
theory Trade_Gap
  imports K_Rows Tp_Publisher "HOL-Library.Multiset"
begin

text \<open>
  \<open>cpp/include/trade_gap.hpp\<close>: the tracker that classifies every trade id of the stream, and the queue of gap
  events that wait for the tickerplant's acknowledgement. The rows of these events are in \<open>K_Rows\<close>.

  Ids are accounted for as multisets, so that "exactly once" is one equation: \<open>gap_ids\<close> are the ids a gap still
  misses, \<open>lost_ids\<close> the ids of the gaps that an event has declared unrecoverable.
\<close>

section \<open>The tracker\<close>

datatype Kind = First | InOrder | Gap | Duplicate | OutOfOrder

record IdResult =
  ir_kind :: Kind
  ir_firstMissing :: int
  ir_lastMissing :: int
  ir_previous :: int

type_synonym TradeIdTracker = "string \<Rightarrow> int option"

definition emptyIdResult :: IdResult where
  "emptyIdResult = \<lparr>ir_kind = First, ir_firstMissing = 0, ir_lastMissing = 0, ir_previous = 0\<rparr>"

definition onId :: "string \<Rightarrow> int \<Rightarrow> TradeIdTracker \<Rightarrow> IdResult \<times> TradeIdTracker" where
  "onId sy tid tr =
     (case tr sy of
        None \<Rightarrow> (emptyIdResult, tr(sy \<mapsto> tid))
      | Some prev \<Rightarrow>
          (let r = emptyIdResult\<lparr>ir_previous := prev\<rparr>;
               r' = (if tid = prev + 1 then r\<lparr>ir_kind := InOrder\<rparr>
                     else if tid = prev then r\<lparr>ir_kind := Duplicate\<rparr>
                     else if tid < prev then r\<lparr>ir_kind := OutOfOrder\<rparr>
                     else r\<lparr>ir_kind := Gap, ir_firstMissing := prev + 1, ir_lastMissing := tid - 1\<rparr>)
           in (r', if prev < tid then tr(sy \<mapsto> tid) else tr)))"

definition seed :: "string \<Rightarrow> int \<Rightarrow> TradeIdTracker \<Rightarrow> TradeIdTracker" where
  "seed sy n tr = tr(sy \<mapsto> n)"

definition known :: "TradeIdTracker \<Rightarrow> string \<Rightarrow> bool" where
  "known tr sy \<longleftrightarrow> tr sy \<noteq> None"

definition last_id :: "TradeIdTracker \<Rightarrow> string \<Rightarrow> int" where
  "last_id tr sy = (case tr sy of None \<Rightarrow> 0 | Some n \<Rightarrow> n)"

section \<open>The queue of gap events\<close>

record GapEventQueue =
  ge_table :: string
  ge_pending :: "krow list"
  ge_acked :: nat
  ge_rejected :: nat

definition newGapEventQueue :: "string \<Rightarrow> GapEventQueue" where
  "newGapEventQueue table = \<lparr>ge_table = table, ge_pending = [], ge_acked = 0, ge_rejected = 0\<rparr>"

definition ge_push :: "krow \<Rightarrow> GapEventQueue \<Rightarrow> GapEventQueue" where
  "ge_push row q = q\<lparr>ge_pending := ge_pending q @ [row]\<rparr>"

text \<open>The loop of \<open>flush\<close> over what is pending.\<close>

fun flush_loop :: "'w TpIo \<Rightarrow> krow list \<Rightarrow> GapEventQueue \<Rightarrow> TpPublisher \<Rightarrow> 'w \<Rightarrow> bool \<times> GapEventQueue \<times> TpPublisher \<times> 'w" where
  "flush_loop io [] q p w = (True, q\<lparr>ge_pending := []\<rparr>, p, w)"
| "flush_loop io (row # rows) q p w =
     (case sendEvent io (ge_table q) row p w of
        (ConnectionLost, p', w') \<Rightarrow> (False, q\<lparr>ge_pending := row # rows\<rparr>, p', w')
      | (Rejected, p', w') \<Rightarrow> flush_loop io rows (q\<lparr>ge_rejected := ge_rejected q + 1\<rparr>) p' w'
      | (Acked, p', w') \<Rightarrow> flush_loop io rows (q\<lparr>ge_acked := ge_acked q + 1\<rparr>) p' w')"

definition flush :: "'w TpIo \<Rightarrow> GapEventQueue \<Rightarrow> TpPublisher \<Rightarrow> 'w \<Rightarrow> bool \<times> GapEventQueue \<times> TpPublisher \<times> 'w" where
  "flush io q p w = flush_loop io (ge_pending q) q p w"

section \<open>Accounting for ids\<close>

type_synonym trade_key = "string \<times> int"

definition id_range :: "string \<Rightarrow> int \<Rightarrow> int \<Rightarrow> trade_key multiset" where
  "id_range sy a b = mset (map (\<lambda>i. (sy, i)) [a..b])"

text \<open>What a gap still misses: from the next id it needs to its last one.\<close>

definition gap_ids :: "TradeGap \<Rightarrow> trade_key multiset" where
  "gap_ids g = id_range (gap_sym g) (nextNeededId g) (gap_lastId g)"

type_synonym gap_event = "TradeGap \<times> GapStatus \<times> string"

definition lost_ids :: "gap_event list \<Rightarrow> trade_key multiset" where
  "lost_ids es = (\<Sum>e \<leftarrow> es. if fst (snd e) = Unrecoverable then gap_ids (fst e) else {#})"

lemma id_range_split: "a \<le> b \<Longrightarrow> b \<le> c \<Longrightarrow> id_range sy a c = id_range sy a (b - 1) + id_range sy b c"
proof -
  assume "a \<le> b" "b \<le> c"
  then have "[a..c] = [a..b - 1] @ [b..c]" by (simp add: upto_split1)
  then show ?thesis by (simp add: id_range_def)
qed

lemma id_range_empty [simp]: "b < a \<Longrightarrow> id_range sy a b = {#}"
  by (simp add: id_range_def)

lemma id_range_single [simp]: "id_range sy a a = {#(sy, a)#}"
  by (simp add: id_range_def)

lemma id_range_Cons: "a \<le> b \<Longrightarrow> id_range sy a b = add_mset (sy, a) (id_range sy (a + 1) b)"
  by (simp add: id_range_def upto_rec1)

lemma id_range_snoc: "a \<le> b + 1 \<Longrightarrow> id_range sy a (b + 1) = id_range sy a b + {#(sy, b + 1)#}"
  by (simp add: id_range_def upto_rec2)

lemma lost_ids_append [simp]: "lost_ids (es @ es') = lost_ids es + lost_ids es'"
  by (simp add: lost_ids_def)

lemma lost_ids_simps [simp]:
  "lost_ids [] = {#}" "lost_ids [(g, Unrecoverable, r)] = gap_ids g"
  "st \<noteq> Unrecoverable \<Longrightarrow> lost_ids [(g, st, r)] = {#}"
  by (simp_all add: lost_ids_def)

lemma new_gap_ids:
  "gap_ids \<lparr>gap_sym = sy, gap_firstId = a, gap_lastId = b, gap_recovered = 0, gap_through = 0\<rparr> = id_range sy a b"
  by (simp add: gap_ids_def nextNeededId_def)

text \<open>The ids the tracker has accounted for with a new id: the id itself, and the ones it found missing.\<close>

lemma onId_range:
  assumes "onId sy tid tr = (r, tr')" "tr sy = Some prev" "prev < tid"
  shows "tr' = tr(sy \<mapsto> tid) \<and> (ir_kind r = InOrder \<and> tid = prev + 1 \<or>
    ir_kind r = Gap \<and> ir_firstMissing r = prev + 1 \<and> ir_lastMissing r = tid - 1 \<and> prev + 1 < tid)"
  using assms by (auto simp: onId_def Let_def emptyIdResult_def split: if_splits)

section \<open>Flushing\<close>

text \<open>Nothing is lost: what was pending is acknowledged or rejected from the front, the rest stays in order.\<close>

lemma flush_loop_conserves:
  assumes "flush_loop io rows q p w = (b, q', p', w')"
  shows "\<exists>k \<le> length rows. ge_pending q' = drop k rows \<and> ge_acked q' + ge_rejected q' = ge_acked q + ge_rejected q + k \<and>
    ge_table q' = ge_table q \<and> b = (k = length rows)"
  using assms
proof (induction rows arbitrary: q p w)
  case (Cons row rows)
  obtain e p1 w1 where s: "sendEvent io (ge_table q) row p w = (e, p1, w1)" by (metis prod_cases3)
  have sent: ?case if "flush_loop io rows q1 p1 w1 = (b, q', p', w')" "ge_table q1 = ge_table q"
      "ge_acked q1 + ge_rejected q1 = ge_acked q + ge_rejected q + 1" for q1
  proof -
    from Cons.IH [OF that(1)] that(2,3) obtain k where "k \<le> length rows" "ge_pending q' = drop k rows"
        "ge_acked q' + ge_rejected q' = ge_acked q + ge_rejected q + Suc k" "ge_table q' = ge_table q" "b = (k = length rows)"
      by fastforce
    then show ?thesis by (intro exI [of _ "Suc k"]) simp
  qed
  show ?case
  proof (cases e)
    case ConnectionLost
    then show ?thesis using Cons.prems s by (intro exI [of _ 0]) auto
  next
    case Acked
    then show ?thesis by (intro sent [of "q\<lparr>ge_acked := ge_acked q + 1\<rparr>"]) (use Cons.prems s in simp_all)
  next
    case Rejected
    then show ?thesis by (intro sent [of "q\<lparr>ge_rejected := ge_rejected q + 1\<rparr>"]) (use Cons.prems s in simp_all)
  qed
qed auto

lemma flush_loop_view:
  assumes "tp_contract io view (p_cfg p)" "tp_ready view p H w" "flush_loop io rows q p w = (b, q', p', w')"
  shows "tp_ready view p' H w' \<and> p_cfg p' = p_cfg p \<and> p_rowsUnresendable p' = p_rowsUnresendable p"
  using assms
proof (induction rows arbitrary: q p w)
  case (Cons row rows)
  obtain e p1 w1 where s: "sendEvent io (ge_table q) row p w = (e, p1, w1)" by (metis prod_cases3)
  note v = sendEvent_view [OF Cons.prems(1,2) s]
  then show ?case using Cons.IH [of p1 w1] Cons.prems(1,3) s by (cases e) auto
qed simp

section \<open>Properties\<close>



end
