(* ===== verification/Trade_Backfill.thy ===== *)
theory Trade_Backfill
  imports Trade_Gap Rest_Client Snapshot_Worker Snapshot_Scheduler Market_Config
begin

text \<open>
  \<open>cpp/include/trade_backfill.hpp\<close>: fetching the trades of a gap, page by page, and handing them to the handler.

  The two callbacks of \<open>pump\<close> are arguments that act on the client's state: \<open>publishRow\<close> may not return (it publishes
  through the tickerplant), so it yields an option. The client's side of the bargain is the locale \<open>backfill_client\<close>.
  What the environment does during a call is the record \<open>PumpEnv\<close>: for each round of the loop, what the fetching
  thread has done since the last one, what an inline fetch returns, and the random jitter of the backoff.
  The loop of \<open>pump\<close> runs at most 100000 rounds, as in the code.
\<close>

section \<open>Pages\<close>

record BackfillTrade =
  bt_id :: int
  bt_price :: double
  bt_qty :: double
  bt_qtyExRpi :: double
  bt_firstTradeId :: int
  bt_lastTradeId :: int
  bt_tradeTimeMs :: int
  bt_buyerIsMaker :: bool

definition emptyBackfillTrade :: BackfillTrade where
  "emptyBackfillTrade = \<lparr>bt_id = 0, bt_price = 0, bt_qty = 0, bt_qtyExRpi = NaN, bt_firstTradeId = 0,
     bt_lastTradeId = 0, bt_tradeTimeMs = 0, bt_buyerIsMaker = False\<rparr>"

record BackfillPage =
  bp_ok :: bool
  bp_tooOld :: bool
  bp_httpStatus :: int
  bp_retryAfterSec :: int
  bp_usedWeight1m :: int
  bp_recvTimeUtcNs :: int
  bp_error :: string
  bp_trades :: "BackfillTrade list"

definition emptyBackfillPage :: BackfillPage where
  "emptyBackfillPage = \<lparr>bp_ok = False, bp_tooOld = False, bp_httpStatus = 0, bp_retryAfterSec = 0,
     bp_usedWeight1m = -1, bp_recvTimeUtcNs = 0, bp_error = [], bp_trades = []\<rparr>"

text \<open>
  The field readers of \<open>parseBackfillBody\<close>. A number is a string that \<open>strtod\<close> reads to its end; its range error is
  not looked at.
\<close>

definition bf_num :: "(string \<times> Json) list \<Rightarrow> string \<Rightarrow> double option" where
  "bf_num ms k =
     (case map_of ms k of
        Some (JString s) \<Rightarrow>
          (case strtod s of Some (d, er, rest) \<Rightarrow> if rest = [] then Some d else None | None \<Rightarrow> None)
      | _ \<Rightarrow> None)"

definition bf_i64 :: "(string \<times> Json) list \<Rightarrow> string \<Rightarrow> int option" where
  "bf_i64 ms k = (case map_of ms k of Some (JInt n) \<Rightarrow> if isInt64 (JInt n) then Some n else None | _ \<Rightarrow> None)"

definition bf_flag :: "(string \<times> Json) list \<Rightarrow> string \<Rightarrow> bool option" where
  "bf_flag ms k = (case map_of ms k of Some (JBool b) \<Rightarrow> Some b | _ \<Rightarrow> None)"

definition parseBackfillTrade :: "TradeSchema \<Rightarrow> (string \<times> Json) list \<Rightarrow> BackfillTrade option" where
  "parseBackfillTrade schema ms =
     (if schema = SpotTrade then
        (case (bf_i64 ms ''id'', bf_num ms ''price'', bf_num ms ''qty'', bf_i64 ms ''time'', bf_flag ms ''isBuyerMaker'') of
           (Some i, Some p, Some q, Some t, Some m) \<Rightarrow>
             Some (emptyBackfillTrade\<lparr>bt_id := i, bt_price := p, bt_qty := q, bt_tradeTimeMs := t, bt_buyerIsMaker := m\<rparr>)
         | _ \<Rightarrow> None)
      else
        (case (bf_i64 ms ''a'', bf_num ms ''p'', bf_num ms ''q'', bf_i64 ms ''f'', bf_i64 ms ''l'', bf_i64 ms ''T'', bf_flag ms ''m'') of
           (Some i, Some p, Some q, Some f, Some l, Some t, Some m) \<Rightarrow>
             Some (emptyBackfillTrade\<lparr>bt_id := i, bt_price := p, bt_qty := q, bt_firstTradeId := f, bt_lastTradeId := l,
               bt_tradeTimeMs := t, bt_buyerIsMaker := m,
               bt_qtyExRpi := (case bf_num ms ''nq'' of Some nq \<Rightarrow> nq | None \<Rightarrow> NaN)\<rparr>)
         | _ \<Rightarrow> None))"

text \<open>The loop over the array: the trades read so far, and the error of the first bad element if there is one.\<close>

fun parseBackfillLoop :: "TradeSchema \<Rightarrow> Json list \<Rightarrow> BackfillTrade list \<Rightarrow> string option \<times> BackfillTrade list" where
  "parseBackfillLoop schema [] out = (None, out)"
| "parseBackfillLoop schema (v # vs) out =
     (case v of JObject ms \<Rightarrow>
        (case parseBackfillTrade schema ms of
           None \<Rightarrow> (Some ''trade object lacks an expected field'', out)
         | Some t \<Rightarrow> parseBackfillLoop schema vs (out @ [t]))
      | _ \<Rightarrow> (Some ''array element is not an object'', out))"

definition parseBackfillBody :: "json_parser \<Rightarrow> string \<Rightarrow> TradeSchema \<Rightarrow> string option \<times> BackfillTrade list" where
  "parseBackfillBody parse body schema =
     (case parse (c_str body) of
        Inr (JArray vs) \<Rightarrow> parseBackfillLoop schema vs []
      | _ \<Rightarrow> (Some ''reply is not a JSON array'', []))"

text \<open>Is \<open>xs\<close> somewhere in \<open>ys\<close>? (\<open>std::string::find\<close>)\<close>

definition contains :: "string \<Rightarrow> string \<Rightarrow> bool" where
  "contains xs ys \<longleftrightarrow> list_ex (\<lambda>i. take (length xs) (drop i ys) = xs) [0..<Suc (length ys)]"

definition fetch :: "net \<Rightarrow> json_parser \<Rightarrow> RestClient \<Rightarrow> string \<Rightarrow> TradeSchema \<Rightarrow> int \<Rightarrow> string \<Rightarrow> int \<Rightarrow> int \<Rightarrow> BackfillPage" where
  "fetch net parse http path schema nowNs sy fromId lmt =
     (let r = get net http (path @ ''?symbol='' @ sy @ ''&fromId='' @ to_string fromId @ ''&limit='' @ to_string lmt);
          page = emptyBackfillPage\<lparr>bp_recvTimeUtcNs := nowNs, bp_httpStatus := hr_status r,
            bp_retryAfterSec := hr_retryAfterSec r, bp_usedWeight1m := hr_usedWeight1m r\<rparr>
      in if hr_error r \<noteq> [] then page\<lparr>bp_error := hr_error r\<rparr>
         else if hr_status r \<noteq> 200 then
           page\<lparr>bp_error := ''HTTP '' @ to_string (hr_status r) @ '' '' @ take 160 (hr_body r),
                bp_tooOld := (hr_status r = 400 \<and> contains ''-4166'' (hr_body r))\<rparr>
         else (case parseBackfillBody parse (hr_body r) schema of
                 (None, ts) \<Rightarrow> page\<lparr>bp_ok := True, bp_trades := ts\<rparr>
               | (Some e, ts) \<Rightarrow> page\<lparr>bp_error := e, bp_trades := ts\<rparr>))"

section \<open>State\<close>

record TradeBackfillConfig =
  bc_enabled :: bool
  bc_maxGapIds :: int
  bc_pageLimit :: int
  bc_maxFailures :: int
  bc_inlineFetch :: bool
  bc_sched :: SnapshotSchedulerConfig

definition defaultBackfillConfig :: TradeBackfillConfig where
  "defaultBackfillConfig = \<lparr>bc_enabled = True, bc_maxGapIds = 500000, bc_pageLimit = 1000, bc_maxFailures = 10,
     bc_inlineFetch = False, bc_sched = defaultSchedulerConfig\<rparr>"

record Job =
  j_gap :: TradeGap
  j_failures :: int

record BackfillRequest =
  br_sym :: string
  br_fromId :: int
  br_limit :: int

datatype backfill_pc = Idle | LoopTest | Popping | Getting BackfillRequest | Finished

record TradeBackfill =
  bf_cfg :: TradeBackfillConfig
  bf_sched :: SnapshotScheduler
  bf_queue :: "Job list"
  bf_inFlight :: bool
  bf_inlinePage :: "BackfillPage option"
  bf_requests :: "BackfillRequest BoundedQueue"
  bf_results :: "BackfillPage BoundedQueue"
  bf_running :: bool
  bf_pc :: backfill_pc
  bf_pagesRequested :: nat
  bf_pagesFailed :: nat
  bf_tradesBackfilled :: int
  bf_gapsRecovered :: nat
  bf_gapsUnrecoverable :: nat

definition newTradeBackfill :: "TradeBackfillConfig \<Rightarrow> TradeBackfill" where
  "newTradeBackfill cfg = \<lparr>bf_cfg = cfg, bf_sched = newScheduler 1 (bc_sched cfg), bf_queue = [], bf_inFlight = False,
     bf_inlinePage = None, bf_requests = newQueue 4, bf_results = newQueue 4, bf_running = False, bf_pc = Idle,
     bf_pagesRequested = 0, bf_pagesFailed = 0, bf_tradesBackfilled = 0, bf_gapsRecovered = 0, bf_gapsUnrecoverable = 0\<rparr>"

definition bf_start :: "TradeBackfill \<Rightarrow> TradeBackfill" where
  "bf_start b = (if bc_inlineFetch (bf_cfg b) \<or> bf_running b then b else b\<lparr>bf_running := True, bf_pc := LoopTest\<rparr>)"

text \<open>\<open>stop\<close> up to the join.\<close>

definition bf_stop :: "TradeBackfill \<Rightarrow> TradeBackfill" where
  "bf_stop b =
     (if \<not> bf_running b then b
      else b\<lparr>bf_running := False, bf_requests := bq_shut (bf_requests b), bf_results := bq_shut (bf_results b)\<rparr>)"

definition addGap :: "TradeGap \<Rightarrow> TradeBackfill \<Rightarrow> TradeBackfill" where
  "addGap gap b = b\<lparr>bf_queue := bf_queue b @ [\<lparr>j_gap = gap, j_failures = 0\<rparr>]\<rparr>"

text \<open>One action of \<open>runLoop\<close>; the argument is what a fetch returns. A thread that waits or has ended does nothing.\<close>

definition bf_thread :: "(BackfillRequest \<Rightarrow> BackfillPage) \<Rightarrow> TradeBackfill \<Rightarrow> TradeBackfill" where
  "bf_thread fetched b =
     (case bf_pc b of
        LoopTest \<Rightarrow> b\<lparr>bf_pc := (if bf_running b then Popping else Finished)\<rparr>
      | Popping \<Rightarrow>
          (case bq_pop_blocking (bf_requests b) of
             None \<Rightarrow> b
           | Some (None, q) \<Rightarrow> b\<lparr>bf_requests := q, bf_pc := Finished\<rparr>
           | Some (Some req, q) \<Rightarrow> b\<lparr>bf_requests := q, bf_pc := Getting req\<rparr>)
      | Getting req \<Rightarrow> b\<lparr>bf_results := snd (bq_push (fetched req) (bf_results b)), bf_pc := LoopTest\<rparr>
      | _ \<Rightarrow> b)"

section \<open>Pages and gaps\<close>

definition finish ::
    "(TradeGap \<Rightarrow> GapStatus \<Rightarrow> string \<Rightarrow> 's \<Rightarrow> 's) \<Rightarrow> GapStatus \<Rightarrow> string \<Rightarrow> TradeBackfill \<Rightarrow> 's \<Rightarrow> TradeBackfill \<times> 's" where
  "finish recordEvent status reason b s =
     (let s' = recordEvent (j_gap (hd (bf_queue b))) status reason s;
          b' = (if status = Recovered then b\<lparr>bf_gapsRecovered := bf_gapsRecovered b + 1\<rparr>
                else b\<lparr>bf_gapsUnrecoverable := bf_gapsUnrecoverable b + 1\<rparr>)
      in (b'\<lparr>bf_queue := tl (bf_queue b)\<rparr>, s'))"

definition upd_head :: "(Job \<Rightarrow> Job) \<Rightarrow> TradeBackfill \<Rightarrow> TradeBackfill" where
  "upd_head f b = b\<lparr>bf_queue := (case bf_queue b of [] \<Rightarrow> [] | j # js \<Rightarrow> f j # js)\<rparr>"

definition fail ::
    "(TradeGap \<Rightarrow> GapStatus \<Rightarrow> string \<Rightarrow> 's \<Rightarrow> 's) \<Rightarrow> BackfillPage \<Rightarrow> int \<Rightarrow> rat \<Rightarrow> string \<Rightarrow> TradeBackfill \<Rightarrow> 's \<Rightarrow> TradeBackfill \<times> 's" where
  "fail recordEvent page nowMs jitter giveUpReason b s =
     (let b1 = b\<lparr>bf_pagesFailed := bf_pagesFailed b + 1,
                 bf_sched := onFailure 0 nowMs (bp_httpStatus page) (bp_retryAfterSec page) (bp_usedWeight1m page) jitter (bf_sched b)\<rparr>;
          b2 = upd_head (\<lambda>j. j\<lparr>j_failures := j_failures j + 1\<rparr>) b1
      in if bc_maxFailures (bf_cfg b) \<le> j_failures (hd (bf_queue b2)) then finish recordEvent Unrecoverable giveUpReason b2 s
         else (b2, s))"

text \<open>The loop that publishes a page: the next expected id, how many were published, the client's state.\<close>

fun publishTrades ::
    "(string \<Rightarrow> BackfillTrade \<Rightarrow> int \<Rightarrow> 's \<Rightarrow> 's option) \<Rightarrow> TradeGap \<Rightarrow> int \<Rightarrow> int \<Rightarrow> int \<Rightarrow> BackfillTrade list \<Rightarrow> 's
      \<Rightarrow> (int \<times> int \<times> 's) option" where
  "publishTrades publishRow g recvNs expected n [] s = Some (expected, n, s)"
| "publishTrades publishRow g recvNs expected n (t # ts) s =
     (if bt_id t < expected then publishTrades publishRow g recvNs expected n ts s
      else if bt_id t \<noteq> expected \<or> gap_lastId g < bt_id t then Some (expected, n, s)
      else case publishRow (gap_sym g) t recvNs s of None \<Rightarrow> None
        | Some s' \<Rightarrow> publishTrades publishRow g recvNs (expected + 1) (n + 1) ts s')"

definition onPage ::
    "(string \<Rightarrow> BackfillTrade \<Rightarrow> int \<Rightarrow> 's \<Rightarrow> 's option) \<Rightarrow> (TradeGap \<Rightarrow> GapStatus \<Rightarrow> string \<Rightarrow> 's \<Rightarrow> 's) \<Rightarrow>
      BackfillPage \<Rightarrow> int \<Rightarrow> rat \<Rightarrow> TradeBackfill \<Rightarrow> 's \<Rightarrow> (TradeBackfill \<times> 's) option" where
  "onPage publishRow recordEvent page nowMs jitter b s =
     (let g = j_gap (hd (bf_queue b))
      in if \<not> bp_ok page then
           (if bp_tooOld page then
              Some (finish recordEvent Unrecoverable ''tooOld''
                (b\<lparr>bf_pagesFailed := bf_pagesFailed b + 1, bf_sched := onFetchOk nowMs (bp_usedWeight1m page) (bf_sched b)\<rparr>) s)
            else Some (fail recordEvent page nowMs jitter ''restFailed'' b s))
         else
           let b1 = b\<lparr>bf_sched := onFetchOk nowMs (bp_usedWeight1m page) (bf_sched b)\<rparr>;
               expected = nextNeededId g
           in if bp_trades page = [] then Some (fail recordEvent page nowMs jitter ''notServed'' b1 s)
              else if expected < bt_id (hd (bp_trades page)) then
                Some (finish recordEvent Unrecoverable ''notServed'' (b1\<lparr>bf_pagesFailed := bf_pagesFailed b1 + 1\<rparr>) s)
              else case publishTrades publishRow g (bp_recvTimeUtcNs page) expected 0 (bp_trades page) s of
                None \<Rightarrow> None
              | Some (expected', n, s1) \<Rightarrow>
                  (if n = 0 then Some (fail recordEvent page nowMs jitter ''notServed'' b1 s1)
                   else
                     let g' = g\<lparr>gap_recovered := gap_recovered g + n, gap_through := expected' - 1\<rparr>;
                         b2 = upd_head (\<lambda>j. \<lparr>j_gap = g', j_failures = 0\<rparr>)
                           (b1\<lparr>bf_tradesBackfilled := bf_tradesBackfilled b1 + n, bf_sched := onSynced 0 (bf_sched b1)\<rparr>)
                     in Some (if gap_lastId g' \<le> gap_through g' then finish recordEvent Recovered [] b2 s1
                              else (b2, recordEvent g' Partial [] s1))))"

section \<open>The pump\<close>

record PumpEnv =
  pe_thread :: "nat \<Rightarrow> (BackfillRequest \<Rightarrow> BackfillPage) list"
  pe_fetch :: "nat \<Rightarrow> string \<Rightarrow> int \<Rightarrow> int \<Rightarrow> BackfillPage"
  pe_jitter :: "nat \<Rightarrow> rat"

text \<open>Step 1: a finished page, if there is one.\<close>

definition takePage ::
    "(string \<Rightarrow> BackfillTrade \<Rightarrow> int \<Rightarrow> 's \<Rightarrow> 's option) \<Rightarrow> (TradeGap \<Rightarrow> GapStatus \<Rightarrow> string \<Rightarrow> 's \<Rightarrow> 's) \<Rightarrow>
      int \<Rightarrow> rat \<Rightarrow> TradeBackfill \<Rightarrow> 's \<Rightarrow> (bool \<times> TradeBackfill \<times> 's) option" where
  "takePage publishRow recordEvent nowMs jitter b s =
     (if bf_inFlight b then
        (case (if bc_inlineFetch (bf_cfg b) then (bf_inlinePage b, bf_results b) else bq_try_pop (bf_results b)) of
           (page, rs) \<Rightarrow>
             (let b1 = b\<lparr>bf_results := rs, bf_inlinePage := None\<rparr>
              in case page of None \<Rightarrow> Some (False, b1, s)
                 | Some pg \<Rightarrow>
                     (case onPage publishRow recordEvent pg nowMs jitter (b1\<lparr>bf_inFlight := False\<rparr>) s of None \<Rightarrow> None
                      | Some (b2, s2) \<Rightarrow> Some (True, b2, s2))))
      else Some (False, b, s))"

text \<open>Step 2: gaps at the head that need no request.\<close>

function settleGaps ::
    "(TradeGap \<Rightarrow> GapStatus \<Rightarrow> string \<Rightarrow> 's \<Rightarrow> 's) \<Rightarrow> bool \<Rightarrow> TradeBackfill \<Rightarrow> 's \<Rightarrow> bool \<times> TradeBackfill \<times> 's" where
  "settleGaps recordEvent progressed b s =
     (if bf_inFlight b \<or> bf_queue b = [] then (progressed, b, s)
      else let g = j_gap (hd (bf_queue b))
      in if \<not> bc_enabled (bf_cfg b) then
           (case finish recordEvent Unrecoverable ''backfillDisabled'' b s of (b', s') \<Rightarrow> settleGaps recordEvent True b' s')
         else if bc_maxGapIds (bf_cfg b) < missing g then
           (case finish recordEvent Unrecoverable ''tooLarge'' b s of (b', s') \<Rightarrow> settleGaps recordEvent True b' s')
         else if gap_lastId g < nextNeededId g then
           (case finish recordEvent Recovered [] b s of (b', s') \<Rightarrow> settleGaps recordEvent True b' s')
         else (progressed, b, s))"
  by pat_completeness auto
termination
  by (relation "measure (\<lambda>(_, _, b, _). length (bf_queue b))") (auto simp: finish_def Let_def)

declare settleGaps.simps [simp del]

text \<open>Step 3: the next request, if the rate limits allow.\<close>

definition nextRequest :: "(string \<Rightarrow> int \<Rightarrow> int \<Rightarrow> BackfillPage) \<Rightarrow> int \<Rightarrow> bool \<Rightarrow> TradeBackfill \<Rightarrow> bool \<times> TradeBackfill" where
  "nextRequest inlineFetch nowMs progressed b =
     (if \<not> bf_inFlight b \<and> bf_queue b \<noteq> [] then
        (case tryAcquire 0 nowMs (bf_sched b) of (ok, sc) \<Rightarrow>
           let b1 = b\<lparr>bf_sched := sc\<rparr>
           in if ok then
                let g = j_gap (hd (bf_queue b)); from = nextNeededId g;
                    lmt = min (bc_pageLimit (bf_cfg b)) (gap_lastId g - from + 1);
                    b2 = b1\<lparr>bf_pagesRequested := bf_pagesRequested b1 + 1, bf_inFlight := True\<rparr>
                in (bc_inlineFetch (bf_cfg b),
                    if bc_inlineFetch (bf_cfg b) then b2\<lparr>bf_inlinePage := Some (inlineFetch (gap_sym g) from lmt)\<rparr>
                    else b2\<lparr>bf_requests := snd (bq_push \<lparr>br_sym = gap_sym g, br_fromId = from, br_limit = lmt\<rparr> (bf_requests b2))\<rparr>)
              else (progressed, b1))
      else (progressed, b))"

definition PUMP_ROUNDS :: nat where
  "PUMP_ROUNDS = 100000"

fun pumpLoop ::
    "(string \<Rightarrow> BackfillTrade \<Rightarrow> int \<Rightarrow> 's \<Rightarrow> 's option) \<Rightarrow> (TradeGap \<Rightarrow> GapStatus \<Rightarrow> string \<Rightarrow> 's \<Rightarrow> 's) \<Rightarrow>
      PumpEnv \<Rightarrow> int \<Rightarrow> nat \<Rightarrow> TradeBackfill \<Rightarrow> 's \<Rightarrow> (TradeBackfill \<times> 's) option" where
  "pumpLoop publishRow recordEvent env nowMs 0 b s = Some (b, s)"
| "pumpLoop publishRow recordEvent env nowMs (Suc n) b s =
     (let guard = PUMP_ROUNDS - Suc n; b0 = fold bf_thread (pe_thread env guard) b
      in case takePage publishRow recordEvent nowMs (pe_jitter env guard) b0 s of None \<Rightarrow> None
         | Some (p1, b1, s1) \<Rightarrow>
             (case settleGaps recordEvent p1 b1 s1 of (p2, b2, s2) \<Rightarrow>
                (case nextRequest (pe_fetch env guard) nowMs p2 b2 of (p3, b3) \<Rightarrow>
                   if p3 then pumpLoop publishRow recordEvent env nowMs n b3 s2 else Some (b3, s2))))"

definition pump ::
    "(string \<Rightarrow> BackfillTrade \<Rightarrow> int \<Rightarrow> 's \<Rightarrow> 's option) \<Rightarrow> (TradeGap \<Rightarrow> GapStatus \<Rightarrow> string \<Rightarrow> 's \<Rightarrow> 's) \<Rightarrow>
      PumpEnv \<Rightarrow> int \<Rightarrow> TradeBackfill \<Rightarrow> 's \<Rightarrow> (TradeBackfill \<times> 's) option" where
  "pump publishRow recordEvent env nowMs b s = pumpLoop publishRow recordEvent env nowMs PUMP_ROUNDS b s"

section \<open>The invariant\<close>

text \<open>The gap at the head may be fetched: backfill is on, the gap is within the cap and misses something.\<close>

definition head_ok :: "TradeBackfill \<Rightarrow> bool" where
  "head_ok b \<longleftrightarrow> bf_queue b \<noteq> [] \<and> bc_enabled (bf_cfg b) \<and> missing (j_gap (hd (bf_queue b))) \<le> bc_maxGapIds (bf_cfg b) \<and>
     nextNeededId (j_gap (hd (bf_queue b))) \<le> gap_lastId (j_gap (hd (bf_queue b)))"

definition request_ok :: "TradeBackfill \<Rightarrow> BackfillRequest \<Rightarrow> bool" where
  "request_ok b rq \<longleftrightarrow> (let g = j_gap (hd (bf_queue b)) in br_sym rq = gap_sym g \<and> br_fromId rq = nextNeededId g \<and>
     br_limit rq \<le> bc_pageLimit (bf_cfg b) \<and> br_fromId rq + br_limit rq - 1 \<le> gap_lastId g)"

text \<open>The requests the thread has not answered, and the number of pages nobody has taken.\<close>

definition asked :: "TradeBackfill \<Rightarrow> BackfillRequest list" where
  "asked b = bq_q (bf_requests b) @ (case bf_pc b of Getting rq \<Rightarrow> [rq] | _ \<Rightarrow> [])"

definition pages :: "TradeBackfill \<Rightarrow> nat" where
  "pages b = length (bq_q (bf_results b)) + (if bf_inlinePage b = None then 0 else 1)"

definition bf_ok :: "TradeBackfill \<Rightarrow> bool" where
  "bf_ok b \<longleftrightarrow> (\<forall>j \<in> set (bf_queue b). 0 < gap_firstId (j_gap j)) \<and>
     length (asked b) + pages b \<le> (if bf_inFlight b then 1 else 0) \<and> (bf_inFlight b \<longrightarrow> head_ok b) \<and>
     (\<forall>rq \<in> set (asked b). request_ok b rq)"

definition open_ids :: "TradeBackfill \<Rightarrow> trade_key multiset" where
  "open_ids b = (\<Sum>j \<leftarrow> bf_queue b. gap_ids (j_gap j))"

lemma bf_ok_frame:
  assumes "bf_ok b" "bf_queue b' = bf_queue b" "bf_inFlight b' = bf_inFlight b" "bf_cfg b' = bf_cfg b"
    "asked b' = asked b" "pages b' = pages b"
  shows "bf_ok b'"
  using assms by (simp add: bf_ok_def head_ok_def request_ok_def)

lemma bf_ok_idle:
  assumes "bf_ok b" "\<not> bf_inFlight b"
  shows "asked b = []" "pages b = 0"
  using assms by (simp_all add: bf_ok_def)

lemma newTradeBackfill_ok: "bf_ok (newTradeBackfill cfg)"
  by (simp add: bf_ok_def newTradeBackfill_def asked_def pages_def newQueue_def)

lemma addGap_ok: "bf_ok b \<Longrightarrow> 0 < gap_firstId g \<Longrightarrow> bf_ok (addGap g b) \<and> open_ids (addGap g b) = open_ids b + gap_ids g"
proof -
  assume ok: "bf_ok b" and g: "0 < gap_firstId g"
  have f: "asked (addGap g b) = asked b" "pages (addGap g b) = pages b" "bf_inFlight (addGap g b) = bf_inFlight b"
    "bf_cfg (addGap g b) = bf_cfg b" "bf_queue (addGap g b) = bf_queue b @ [\<lparr>j_gap = g, j_failures = 0\<rparr>]"
    by (simp_all add: addGap_def asked_def pages_def)
  have "bf_ok (addGap g b)"
  proof (cases "bf_inFlight b")
    case True
    then have "bf_queue b \<noteq> []" using ok by (simp add: bf_ok_def head_ok_def)
    then show ?thesis using ok g f True by (auto simp: bf_ok_def head_ok_def request_ok_def)
  next
    case False
    then show ?thesis using ok g f bf_ok_idle [OF ok False] by (auto simp: bf_ok_def)
  qed
  then show ?thesis by (simp add: open_ids_def f)
qed

lemma bf_start_ok: "bf_ok b \<Longrightarrow> bf_pc b = Idle \<Longrightarrow> bf_ok (bf_start b)"
  by (auto simp: bf_start_def asked_def pages_def intro: bf_ok_frame [of b])

lemma bf_stop_ok: "bf_ok b \<Longrightarrow> bf_ok (bf_stop b)"
  by (auto simp: bf_stop_def asked_def pages_def bq_shut_def intro: bf_ok_frame [of b])

lemma bf_thread_ok:
  assumes "bf_ok b"
  shows "bf_ok (bf_thread f b) \<and> bf_queue (bf_thread f b) = bf_queue b \<and> bf_cfg (bf_thread f b) = bf_cfg b \<and>
    bf_inFlight (bf_thread f b) = bf_inFlight b"
proof (cases "bf_pc b")
  case Popping
  show ?thesis
  proof (cases "bq_q (bf_requests b)")
    case Nil
    then show ?thesis using assms Popping
      by (auto simp: bf_thread_def bq_pop_blocking_def asked_def pages_def intro: bf_ok_frame [OF assms])
  next
    case (Cons rq rest)
    let ?b = "b\<lparr>bf_requests := (bf_requests b)\<lparr>bq_q := rest\<rparr>, bf_pc := Getting rq\<rparr>"
    have "rest = []" using assms Cons by (auto simp: bf_ok_def asked_def split: if_splits)
    then have "bf_ok ?b" by (intro bf_ok_frame [OF assms]) (simp_all add: asked_def pages_def Cons Popping)
    then show ?thesis using Popping Cons by (simp add: bf_thread_def bq_pop_blocking_def)
  qed
next
  case (Getting rq)
  let ?b = "b\<lparr>bf_results := snd (bq_push (f rq) (bf_results b)), bf_pc := LoopTest\<rparr>"
  have one: "bq_q (bf_requests b) = []" "bq_q (bf_results b) = []" "bf_inlinePage b = None" "bf_inFlight b"
    using assms Getting by (auto simp: bf_ok_def asked_def pages_def split: if_splits)
  have "length (bq_q (snd (bq_push (f rq) (bf_results b)))) \<le> 1"
    using one(2) by (simp add: bq_push_def Let_def)
  then have "bf_ok ?b" using assms one Getting
    by (simp add: bf_ok_def asked_def pages_def head_ok_def)
  then show ?thesis using Getting by (simp add: bf_thread_def)
qed (use assms in \<open>auto simp: bf_thread_def asked_def pages_def intro: bf_ok_frame [OF assms]\<close>)

lemma fold_thread_ok:
  "bf_ok b \<Longrightarrow> bf_ok (fold bf_thread fs b) \<and> bf_queue (fold bf_thread fs b) = bf_queue b \<and>
     bf_cfg (fold bf_thread fs b) = bf_cfg b \<and> bf_inFlight (fold bf_thread fs b) = bf_inFlight b"
proof (induction fs arbitrary: b)
  case (Cons f fs)
  note t = bf_thread_ok [OF Cons.prems, of f]
  from Cons.IH [OF conjunct1 [OF t]] t show ?case by simp
qed simp

section \<open>The client\<close>

text \<open>
  What the backfill relies on: the client remembers, in order, the trades it was given and the gap events
  it was told. \<open>inv G E s\<close>: a client in state \<open>s\<close> that has published \<open>G\<close> and recorded \<open>E\<close>.
\<close>

locale backfill_client =
  fixes publishRow :: "string \<Rightarrow> BackfillTrade \<Rightarrow> int \<Rightarrow> 's \<Rightarrow> 's option"
    and recordEvent :: "TradeGap \<Rightarrow> GapStatus \<Rightarrow> string \<Rightarrow> 's \<Rightarrow> 's"
    and inv :: "trade_key list \<Rightarrow> gap_event list \<Rightarrow> 's \<Rightarrow> bool"
  assumes publish_law: "inv G E s \<Longrightarrow> publishRow sy t r s = Some s' \<Longrightarrow> inv (G @ [(sy, bt_id t)]) E s'"
    and record_law: "inv G E s \<Longrightarrow> inv G (E @ [(g, st, reason)]) (recordEvent g st reason s)"
begin

text \<open>A step: every id that was open is published once, declared lost once, or still open.\<close>

definition step_ok :: "TradeBackfill \<Rightarrow> 's \<Rightarrow> TradeBackfill \<Rightarrow> 's \<Rightarrow> bool" where
  "step_ok b s b' s' \<longleftrightarrow> bf_ok b' \<and> bf_cfg b' = bf_cfg b \<and>
     (\<forall>G E. inv G E s \<longrightarrow> (\<exists>D L. inv (G @ D) (E @ L) s' \<and> open_ids b = mset D + lost_ids L + open_ids b'))"

lemma step_ok_trans: "step_ok b s b1 s1 \<Longrightarrow> step_ok b1 s1 b2 s2 \<Longrightarrow> step_ok b s b2 s2"
  unfolding step_ok_def
proof (elim conjE, intro conjI allI impI)
  fix G E
  assume 1: "\<forall>G E. inv G E s \<longrightarrow> (\<exists>D L. inv (G @ D) (E @ L) s1 \<and> open_ids b = mset D + lost_ids L + open_ids b1)"
    and 2: "\<forall>G E. inv G E s1 \<longrightarrow> (\<exists>D L. inv (G @ D) (E @ L) s2 \<and> open_ids b1 = mset D + lost_ids L + open_ids b2)"
    and i: "inv G E s"
  from 1 i obtain D L where d: "inv (G @ D) (E @ L) s1" "open_ids b = mset D + lost_ids L + open_ids b1" by blast
  from 2 d(1) obtain D' L' where "inv ((G @ D) @ D') ((E @ L) @ L') s2" "open_ids b1 = mset D' + lost_ids L' + open_ids b2" by blast
  with d(2) show "\<exists>D L. inv (G @ D) (E @ L) s2 \<and> open_ids b = mset D + lost_ids L + open_ids b2"
    by (intro exI [of _ "D @ D'"] exI [of _ "L @ L'"]) (simp add: ac_simps)
qed simp_all

lemma step_ok_quiet:
  assumes "bf_ok b'" "bf_queue b' = bf_queue b" "bf_cfg b' = bf_cfg b"
  shows "step_ok b s b' s"
  unfolding step_ok_def
proof (intro conjI allI impI)
  fix G E assume "inv G E s"
  with assms show "\<exists>D L. inv (G @ D) (E @ L) s \<and> open_ids b = mset D + lost_ids L + open_ids b'"
    by (intro exI [of _ "[]"]) (simp add: open_ids_def)
qed (use assms in simp_all)

lemma finish_step:
  assumes ok: "bf_ok b" "\<not> bf_inFlight b" "bf_queue b \<noteq> []"
    and st: "st = Unrecoverable \<or> st = Recovered \<and> gap_ids (j_gap (hd (bf_queue b))) = {#}"
    and fin: "finish recordEvent st reason b s = (b', s')"
  shows "step_ok b s b' s' \<and> \<not> bf_inFlight b' \<and> bf_queue b' = tl (bf_queue b)"
proof -
  obtain j js where q: "bf_queue b = j # js" using ok(3) by (cases "bf_queue b") auto
  have b': "bf_queue b' = js" "bf_inFlight b' = bf_inFlight b" "bf_cfg b' = bf_cfg b" "asked b' = asked b" "pages b' = pages b"
    and s': "s' = recordEvent (j_gap j) st reason s"
    using fin q by (auto simp: finish_def Let_def asked_def pages_def split: if_splits)
  have "bf_ok b'" using ok(1,2) b' q by (simp add: bf_ok_def)
  moreover have "open_ids b = mset [] + lost_ids [(j_gap j, st, reason)] + open_ids b'"
    using st q b' by (auto simp: open_ids_def)
  ultimately have "step_ok b s b' s'" unfolding step_ok_def s' using b'(3) record_law
    by (metis append_Nil2)
  then show ?thesis using b' ok(2) q by simp
qed

lemma upd_head_queue:
  "bf_queue (upd_head f b) = (case bf_queue b of [] \<Rightarrow> [] | j # js \<Rightarrow> f j # js)" "bf_inFlight (upd_head f b) = bf_inFlight b"
  "bf_cfg (upd_head f b) = bf_cfg b" "asked (upd_head f b) = asked b" "pages (upd_head f b) = pages b"
  by (simp_all add: upd_head_def asked_def pages_def)

lemma fail_step:
  assumes ok: "bf_ok b" "\<not> bf_inFlight b" "bf_queue b \<noteq> []" and f: "fail recordEvent page now jit reason b s = (b', s')"
  shows "step_ok b s b' s' \<and> \<not> bf_inFlight b'"
proof -
  define b2 where "b2 = upd_head (\<lambda>j. j\<lparr>j_failures := j_failures j + 1\<rparr>)
    (b\<lparr>bf_pagesFailed := bf_pagesFailed b + 1,
       bf_sched := onFailure 0 now (bp_httpStatus page) (bp_retryAfterSec page) (bp_usedWeight1m page) jit (bf_sched b)\<rparr>)"
  obtain j js where q: "bf_queue b = j # js" using ok(3) by (cases "bf_queue b") auto
  have b2: "bf_queue b2 = j\<lparr>j_failures := j_failures j + 1\<rparr> # js" "\<not> bf_inFlight b2" "bf_cfg b2 = bf_cfg b"
      "asked b2 = []" "pages b2 = 0"
    using q ok(2) bf_ok_idle [OF ok(1,2)] by (simp_all add: b2_def upd_head_queue) (simp_all add: asked_def pages_def)
  have ok2: "bf_ok b2" using ok(1) q b2 by (simp add: bf_ok_def)
  have s2: "step_ok b s b2 s"
    unfolding step_ok_def
  proof (intro conjI allI impI)
    fix G E assume "inv G E s"
    then show "\<exists>D L. inv (G @ D) (E @ L) s \<and> open_ids b = mset D + lost_ids L + open_ids b2"
      using q b2 by (intro exI [of _ "[]"]) (simp add: open_ids_def)
  qed (use ok2 b2 in simp_all)
  show ?thesis
  proof (cases "bc_maxFailures (bf_cfg b) \<le> j_failures (hd (bf_queue b2))")
    case True
    then have "finish recordEvent Unrecoverable reason b2 s = (b', s')" using f by (simp add: fail_def Let_def b2_def)
    then show ?thesis using finish_step [OF ok2 b2(2) _ _ , of Unrecoverable reason s b' s'] b2(1) step_ok_trans [OF s2] by auto
  next
    case False
    then have "b' = b2" "s' = s" using f by (auto simp: fail_def Let_def b2_def)
    then show ?thesis using s2 b2(2) by simp
  qed
qed

text \<open>The ids a page publishes are the next ones the gap needs, without a hole and within the gap.\<close>

lemma publishTrades_ids:
  "publishTrades publishRow g r e n ts s = Some (e', n', s') \<Longrightarrow> inv G E s \<Longrightarrow> e \<le> gap_lastId g + 1 \<Longrightarrow>
     n' - n = e' - e \<and> e \<le> e' \<and> e' \<le> gap_lastId g + 1 \<and> inv (G @ map (\<lambda>i. (gap_sym g, i)) [e..e' - 1]) E s'"
proof (induction ts arbitrary: e n s G)
  case (Cons t ts)
  consider (old) "bt_id t < e" | (stop) "\<not> bt_id t < e" "bt_id t \<noteq> e \<or> gap_lastId g < bt_id t"
    | (wanted) "bt_id t = e" "e \<le> gap_lastId g" by force
  then show ?case
  proof cases
    case old
    then show ?thesis using Cons by simp
  next
    case stop
    then show ?thesis using Cons.prems by simp
  next
    case wanted
    then obtain s1 where p: "publishRow (gap_sym g) t r s = Some s1"
      and rest: "publishTrades publishRow g r (e + 1) (n + 1) ts s1 = Some (e', n', s')"
      using Cons.prems(1) by (auto split: option.splits)
    have "inv (G @ [(gap_sym g, e)]) E s1" using publish_law [OF Cons.prems(2) p] wanted(1) by simp
    from Cons.IH [OF rest this] wanted(2)
    have "n' - (n + 1) = e' - (e + 1)" "e + 1 \<le> e'" "e' \<le> gap_lastId g + 1"
        "inv ((G @ [(gap_sym g, e)]) @ map (\<lambda>i. (gap_sym g, i)) [e + 1..e' - 1]) E s'" by simp_all
    moreover from this have "[e..e' - 1] = e # [e + 1..e' - 1]" by (simp add: upto_rec1)
    ultimately show ?thesis by simp
  qed
qed simp

lemma publishTrades_none:
  "publishTrades publishRow g r e n ts s = Some (e', n', s') \<Longrightarrow> n \<le> n' \<and> n' - n = e' - e \<and> (n' = n \<longrightarrow> s' = s)"
  by (induction ts arbitrary: e n s) (fastforce split: if_splits option.splits)+

text \<open>A page that published the ids from \<open>nextNeededId\<close> to \<open>e' - 1\<close> moves the head gap on by exactly these.\<close>

lemma page_step:
  assumes ok: "bf_ok b" "\<not> bf_inFlight b" and q: "bf_queue b = j # js"
    and pub: "publishTrades publishRow (j_gap j) r (nextNeededId (j_gap j)) 0 ts s = Some (e', n, s1)" "n \<noteq> 0"
    and le: "nextNeededId (j_gap j) \<le> gap_lastId (j_gap j) + 1"
    and b': "bf_queue b' = \<lparr>j_gap = (j_gap j)\<lparr>gap_recovered := m, gap_through := e' - 1\<rparr>, j_failures = k\<rparr> # js"
      "bf_cfg b' = bf_cfg b" "bf_inFlight b' = bf_inFlight b" "asked b' = asked b" "pages b' = pages b"
  shows "step_ok b s b' s1"
proof (cases "\<exists>G E. inv G E s")
  case False
  then show ?thesis using ok b' q by (simp add: step_ok_def bf_ok_def)
next
  case True
  let ?g = "j_gap j" and ?e = "nextNeededId (j_gap j)"
  have n: "?e < e'" "e' \<le> gap_lastId ?g + 1" using True publishTrades_ids [OF pub(1) _ le] pub(2) by fastforce+
  have pos: "0 < ?e" using ok(1) q by (auto simp: bf_ok_def nextNeededId_def)
  have g': "gap_ids (?g\<lparr>gap_recovered := m, gap_through := e' - 1\<rparr>) = id_range (gap_sym ?g) e' (gap_lastId ?g)"
    using n(1) pos by (simp add: gap_ids_def nextNeededId_def)
  have split: "gap_ids ?g = id_range (gap_sym ?g) ?e (e' - 1) + id_range (gap_sym ?g) e' (gap_lastId ?g)"
  proof (cases "e' \<le> gap_lastId ?g")
    case True
    then show ?thesis using n(1) id_range_split [of ?e e' "gap_lastId ?g"] by (simp add: gap_ids_def)
  next
    case False
    then have "e' = gap_lastId ?g + 1" using n(2) by simp
    then show ?thesis by (simp add: gap_ids_def)
  qed
  have "bf_ok b'" using ok b' q by (simp add: bf_ok_def)
  moreover have "\<exists>D L. inv (G @ D) (E @ L) s1 \<and> open_ids b = mset D + lost_ids L + open_ids b'" if "inv G E s" for G E
    using publishTrades_ids [OF pub(1) that le] q b'(1) g' split
    by (intro exI [of _ "map (\<lambda>i. (gap_sym ?g, i)) [?e..e' - 1]"] exI [of _ "[]"])
       (simp add: open_ids_def id_range_def ac_simps)
  ultimately show ?thesis using b'(2) by (simp add: step_ok_def)
qed

lemma partial_step: "step_ok b s b' s' \<Longrightarrow> step_ok b s b' (recordEvent g Partial reason s')"
  unfolding step_ok_def
proof (elim conjE, intro conjI allI impI)
  fix G E
  assume "\<forall>G E. inv G E s \<longrightarrow> (\<exists>D L. inv (G @ D) (E @ L) s' \<and> open_ids b = mset D + lost_ids L + open_ids b')" "inv G E s"
  then obtain D L where "inv (G @ D) (E @ L) s'" "open_ids b = mset D + lost_ids L + open_ids b'" by blast
  then show "\<exists>D L. inv (G @ D) (E @ L) (recordEvent g Partial reason s') \<and> open_ids b = mset D + lost_ids L + open_ids b'"
    using record_law [of "G @ D" "E @ L" s' g Partial reason]
    by (intro exI [of _ D] exI [of _ "L @ [(g, Partial, reason)]"]) simp
qed simp_all

lemma sched_frame:
  assumes "bf_ok b" "\<not> bf_inFlight b" "bf_queue b \<noteq> []"
  shows "bf_ok (b\<lparr>bf_sched := sc\<rparr>) \<and> bf_ok (b\<lparr>bf_pagesFailed := n, bf_sched := sc\<rparr>)" "step_ok b s (b\<lparr>bf_sched := sc\<rparr>) s"
    "step_ok b s (b\<lparr>bf_pagesFailed := n, bf_sched := sc\<rparr>) s"
proof -
  show ok: "bf_ok (b\<lparr>bf_sched := sc\<rparr>) \<and> bf_ok (b\<lparr>bf_pagesFailed := n, bf_sched := sc\<rparr>)"
    by (intro conjI; rule bf_ok_frame [OF assms(1)]; simp add: asked_def pages_def)
  show "step_ok b s (b\<lparr>bf_sched := sc\<rparr>) s" "step_ok b s (b\<lparr>bf_pagesFailed := n, bf_sched := sc\<rparr>) s"
    by (rule step_ok_quiet; use ok in simp)+
qed

lemma onPage_step:
  assumes ok: "bf_ok b" "\<not> bf_inFlight b" "bf_queue b \<noteq> []"
    and le: "nextNeededId (j_gap (hd (bf_queue b))) \<le> gap_lastId (j_gap (hd (bf_queue b)))"
    and page: "onPage publishRow recordEvent pg now jit b s = Some (b', s')"
  shows "step_ok b s b' s' \<and> \<not> bf_inFlight b'"
proof -
  obtain j js where q: "bf_queue b = j # js" using ok(3) by (cases "bf_queue b") auto
  define b1 where "b1 = b\<lparr>bf_sched := onFetchOk now (bp_usedWeight1m pg) (bf_sched b)\<rparr>"
  note b1 = sched_frame(1,2) [OF ok, where sc = "onFetchOk now (bp_usedWeight1m pg) (bf_sched b)"]
  have ok1: "bf_ok b1" "\<not> bf_inFlight b1" "bf_queue b1 \<noteq> []" "step_ok b s b1 s" using b1(1,2) ok(2,3) by (simp_all add: b1_def)
  have fin: ?thesis if "finish recordEvent Unrecoverable r (b\<lparr>bf_pagesFailed := n, bf_sched := sc\<rparr>) s = (b', s')" for r n sc
    using finish_step [OF _ _ _ _ that] sched_frame(1) [OF ok, where sc = sc and n = n] ok
      step_ok_trans [OF sched_frame(3) [OF ok, where sc = sc and n = n]] by simp
  have fl: ?thesis if "fail recordEvent pg now jit r bb s = (b', s')" "step_ok b s bb s" "bf_ok bb" "\<not> bf_inFlight bb" "bf_queue bb \<noteq> []" for r bb
    using fail_step [OF that(3-5,1)] step_ok_trans [OF that(2)] by blast
  consider (bad) "\<not> bp_ok pg" | (none) "bp_ok pg" "bp_trades pg = []"
    | (later) "bp_ok pg" "bp_trades pg \<noteq> []" "nextNeededId (j_gap j) < bt_id (hd (bp_trades pg))"
    | (trades) "bp_ok pg" "bp_trades pg \<noteq> []" "\<not> nextNeededId (j_gap j) < bt_id (hd (bp_trades pg))" by blast
  then show ?thesis
  proof cases
    case bad
    then show ?thesis using page fin fl [OF _ step_ok_quiet ok] ok(1)
      by (auto simp: onPage_def Let_def split: if_splits)
  next
    case none
    then show ?thesis using page fl [OF _ ok1(4,1-3)] by (auto simp: onPage_def Let_def b1_def)
  next
    case later
    have swap: "b\<lparr>bf_sched := sc, bf_pagesFailed := n\<rparr> = b\<lparr>bf_pagesFailed := n, bf_sched := sc\<rparr>" for sc n by simp
    show ?thesis using later page q by (intro fin) (simp add: onPage_def Let_def swap)
  next
    case trades
    then obtain e' n s1 where pub: "publishTrades publishRow (j_gap j) (bp_recvTimeUtcNs pg) (nextNeededId (j_gap j)) 0 (bp_trades pg) s = Some (e', n, s1)"
      using page q by (auto simp: onPage_def Let_def split: option.splits)
    show ?thesis
    proof (cases "n = 0")
      case True
      with publishTrades_none [OF pub] have "s1 = s" by simp
      then show ?thesis using page fl [OF _ ok1(4,1-3)] trades pub True q by (auto simp: onPage_def Let_def b1_def)
    next
      case False
      define g' where "g' = (j_gap j)\<lparr>gap_recovered := gap_recovered (j_gap j) + n, gap_through := e' - 1\<rparr>"
      define b2 where "b2 = upd_head (\<lambda>j. \<lparr>j_gap = g', j_failures = 0\<rparr>)
        (b1\<lparr>bf_tradesBackfilled := bf_tradesBackfilled b1 + n, bf_sched := onSynced 0 (bf_sched b1)\<rparr>)"
      have b2: "bf_queue b2 = \<lparr>j_gap = g', j_failures = 0\<rparr> # js" "bf_cfg b2 = bf_cfg b" "bf_inFlight b2 = bf_inFlight b"
        "asked b2 = asked b" "pages b2 = pages b"
        using q by (simp_all add: b2_def b1_def upd_head_def asked_def pages_def)
      have st: "step_ok b s b2 s1" using le q by (intro page_step [OF ok(1,2) q pub False _ b2(1)[unfolded g'_def] b2(2-5)]) simp
      have res: "(if gap_lastId g' \<le> gap_through g' then finish recordEvent Recovered [] b2 s1
                 else (b2, recordEvent g' Partial [] s1)) = (b', s')"
        using page trades pub False q by (simp add: onPage_def Let_def b1_def b2_def g'_def split: if_splits)
      have ok2: "bf_ok b2" using st by (simp add: step_ok_def)
      show ?thesis
      proof (cases "gap_lastId g' \<le> gap_through g'")
        case True
        have "0 < nextNeededId (j_gap j)" using ok(1) q by (auto simp: bf_ok_def nextNeededId_def)
        then have "0 < gap_through g'" using publishTrades_none [OF pub] \<open>n \<noteq> 0\<close> by (simp add: g'_def)
        then have "gap_ids g' = {#}" using True by (simp add: gap_ids_def nextNeededId_def)
        then show ?thesis using finish_step [OF ok2, of Recovered "[]" s1 b' s'] True res b2 ok(2) step_ok_trans [OF st] by auto
      next
        case False
        then show ?thesis using res partial_step [OF st, of g' "[]"] b2(3) ok(2) by auto
      qed
    qed
  qed
qed

lemma takePage_step:
  assumes ok: "bf_ok b" and take: "takePage publishRow recordEvent now jit b s = Some (p, b', s')"
  shows "step_ok b s b' s' \<and> bf_inFlight b' = (bf_inFlight b \<and> \<not> p) \<and> (\<not> bf_inFlight b \<longrightarrow> \<not> p)"
proof (cases "bf_inFlight b")
  case False
  then show ?thesis using take step_ok_quiet [of b b s] ok by (simp add: takePage_def)
next
  case True
  define pr where "pr = (if bc_inlineFetch (bf_cfg b) then (bf_inlinePage b, bf_results b) else bq_try_pop (bf_results b))"
  define b1 where "b1 = b\<lparr>bf_results := snd pr, bf_inlinePage := None\<rparr>"
  have one: "length (asked b) + pages b \<le> 1" "head_ok b" using ok True by (simp_all add: bf_ok_def)
  have a1: "asked b1 = asked b" "bf_queue b1 = bf_queue b" "bf_cfg b1 = bf_cfg b" "bf_inFlight b1"
    using True by (simp_all add: b1_def asked_def)
  have le1: "pages b1 \<le> pages b" "fst pr \<noteq> None \<Longrightarrow> pages b1 < pages b"
    by (auto simp: pages_def b1_def pr_def bq_try_pop_def split: list.splits if_splits)
  have ok1: "bf_ok b1" using ok True a1 le1(1) by (simp add: bf_ok_def head_ok_def request_ok_def)
  note st1 = step_ok_quiet [OF ok1 a1(2,3), of s]
  show ?thesis
  proof (cases "fst pr")
    case None
    then show ?thesis using take True st1 a1(4)
      by (auto simp add: takePage_def pr_def [symmetric] case_prod_beta Let_def b1_def [symmetric])
  next
    case (Some pg)
    let ?b = "b1\<lparr>bf_inFlight := False\<rparr>"
    have "asked b = []" "pages b1 = 0" using le1(2) one(1) Some by (cases "asked b"; simp)+
    then have ok2: "bf_ok ?b" using ok1 a1 by (simp add: bf_ok_def asked_def pages_def)
    have hd: "bf_queue ?b \<noteq> []" "nextNeededId (j_gap (hd (bf_queue ?b))) \<le> gap_lastId (j_gap (hd (bf_queue ?b)))"
      using one(2) a1(2) by (simp_all add: head_ok_def)
    have pg: "onPage publishRow recordEvent pg now jit ?b s = Some (b', s')" "p"
      using take True Some
      by (simp_all add: takePage_def pr_def [symmetric] case_prod_beta Let_def b1_def [symmetric] split: option.splits prod.splits)
    from onPage_step [OF ok2 _ hd pg(1)] have "step_ok ?b s b' s'" "\<not> bf_inFlight b'" by simp_all
    then show ?thesis using step_ok_trans [OF step_ok_quiet [OF ok2, of b s]] a1 pg(2) True by simp
  qed
qed

text \<open>After step 2 no gap that may not be fetched is at the head.\<close>

lemma settleGaps_step:
  "settleGaps recordEvent p b s = (p', b', s') \<Longrightarrow> bf_ok b \<Longrightarrow>
     step_ok b s b' s' \<and> bf_inFlight b' = bf_inFlight b \<and> (\<not> bf_inFlight b' \<longrightarrow> bf_queue b' = [] \<or> head_ok b')"
proof (induction "length (bf_queue b)" arbitrary: p b s rule: less_induct)
  case less
  show ?case
  proof (cases "bf_inFlight b \<or> bf_queue b = [] \<or> head_ok b")
    case True
    then have "p' = p" "b' = b" "s' = s" using less.prems(1)
      by (subst (asm) settleGaps.simps, force simp: Let_def head_ok_def split: if_splits)+
    then show ?thesis using True step_ok_quiet [of b b s] less.prems(2) by auto
  next
    case False
    let ?g = "j_gap (hd (bf_queue b))"
    obtain st r where st: "settleGaps recordEvent p b s =
          (case finish recordEvent st r b s of (b1, s1) \<Rightarrow> settleGaps recordEvent True b1 s1)"
        "st = Unrecoverable \<or> st = Recovered \<and> gap_ids ?g = {#}"
    proof -
      note eq = settleGaps.simps [of recordEvent p b s]
      have e: "gap_ids ?g = {#}" if "gap_lastId ?g < nextNeededId ?g" using that by (simp add: gap_ids_def)
      consider "\<not> bc_enabled (bf_cfg b)" | "bc_enabled (bf_cfg b)" "bc_maxGapIds (bf_cfg b) < missing ?g"
        | "bc_enabled (bf_cfg b)" "\<not> bc_maxGapIds (bf_cfg b) < missing ?g" "gap_lastId ?g < nextNeededId ?g"
        using False by (force simp: head_ok_def)
      then show ?thesis by cases (use False eq e that in \<open>simp_all add: Let_def\<close>)
    qed
    obtain b1 s1 where f: "finish recordEvent st r b s = (b1, s1)" by force
    from False have "\<not> bf_inFlight b" "bf_queue b \<noteq> []" by simp_all
    from finish_step [OF less.prems(2) this st(2) f]
    have 1: "step_ok b s b1 s1" "\<not> bf_inFlight b1" "length (bf_queue b1) < length (bf_queue b)" using False by auto
    have "settleGaps recordEvent True b1 s1 = (p', b', s')" using less.prems(1) st(1) f by simp
    from less.hyps [OF 1(3) this] 1 step_ok_trans [OF 1(1)] False show ?thesis by (auto simp: step_ok_def)
  qed
qed

lemma nextRequest_step:
  assumes ok: "bf_ok b" and hd: "\<not> bf_inFlight b \<longrightarrow> bf_queue b = [] \<or> head_ok b"
    and nx: "nextRequest f now p b = (p', b')"
  shows "step_ok b s b' s"
proof (cases "\<not> bf_inFlight b \<and> bf_queue b \<noteq> [] \<and> fst (tryAcquire 0 now (bf_sched b))")
  case False
  then have "bf_ok b'" "bf_queue b' = bf_queue b" "bf_cfg b' = bf_cfg b" using nx ok
    by (auto simp: nextRequest_def asked_def pages_def split: if_splits prod.splits intro: bf_ok_frame [OF ok])
  then show ?thesis by (rule step_ok_quiet)
next
  case True
  note idle = bf_ok_idle [OF ok]
  obtain sc where sc: "tryAcquire 0 now (bf_sched b) = (True, sc)" using True by (cases "tryAcquire 0 now (bf_sched b)") auto
  let ?g = "j_gap (hd (bf_queue b))"
  define rq where "rq = \<lparr>br_sym = gap_sym ?g, br_fromId = nextNeededId ?g,
    br_limit = min (bc_pageLimit (bf_cfg b)) (gap_lastId ?g - nextNeededId ?g + 1)\<rparr>"
  have b': "bf_queue b' = bf_queue b" "bf_cfg b' = bf_cfg b" "bf_inFlight b'"
    using nx True sc by (auto simp: nextRequest_def Let_def)
  have idle': "bq_q (bf_requests b) = []" "bq_q (bf_results b) = []" "bf_inlinePage b = None" "\<And>r. bf_pc b \<noteq> Getting r"
    using idle True by (auto simp: asked_def pages_def split: if_splits)
  have pc: "(case bf_pc b of Getting r \<Rightarrow> [r] | _ \<Rightarrow> []) = []" using idle True by (simp add: asked_def)
  have push: "set (bq_q (snd (bq_push rq (bf_requests b)))) \<subseteq> {rq}" "length (bq_q (snd (bq_push rq (bf_requests b)))) \<le> 1"
    using idle'(1) by (simp_all add: bq_push_def Let_def)
  have rq: "set (asked b') \<subseteq> {rq} \<and> length (asked b') + pages b' \<le> 1"
  proof (cases "bc_inlineFetch (bf_cfg b)")
    case True
    then have "asked b' = []" "pages b' = 1" using nx \<open>_ \<and> _\<close> sc idle' pc by (auto simp: nextRequest_def Let_def asked_def pages_def)
    then show ?thesis by simp
  next
    case False
    then have "asked b' = bq_q (snd (bq_push rq (bf_requests b)))" "pages b' = 0"
      using nx \<open>_ \<and> _\<close> sc idle' pc by (auto simp: nextRequest_def Let_def asked_def pages_def rq_def)
    then show ?thesis using push by simp
  qed
  have "request_ok b rq" by (simp add: request_ok_def rq_def Let_def min_def)
  then have "bf_ok b'" using ok hd True b' rq by (auto simp: bf_ok_def head_ok_def request_ok_def)
  then show ?thesis using b' by (intro step_ok_quiet)
qed

lemma pumpLoop_step:
  "pumpLoop publishRow recordEvent env now n b s = Some (b', s') \<Longrightarrow> bf_ok b \<Longrightarrow> step_ok b s b' s'"
proof (induction n arbitrary: b s)
  case 0
  then show ?case using step_ok_quiet [of b b s] by simp
next
  case (Suc n)
  let ?k = "PUMP_ROUNDS - Suc n"
  define b0 where "b0 = fold bf_thread (pe_thread env ?k) b"
  have 0: "step_ok b s b0 s" "bf_ok b0" using fold_thread_ok [OF Suc.prems(2), of "pe_thread env ?k"] step_ok_quiet [of b0 b s]
    by (simp_all add: b0_def)
  obtain p1 b1 s1 where 1: "takePage publishRow recordEvent now (pe_jitter env ?k) b0 s = Some (p1, b1, s1)"
    using Suc.prems(1) by (auto simp: Let_def b0_def [symmetric] split: option.splits)
  obtain p2 b2 s2 where 2: "settleGaps recordEvent p1 b1 s1 = (p2, b2, s2)" by (metis prod_cases3)
  obtain p3 b3 where 3: "nextRequest (pe_fetch env ?k) now p2 b2 = (p3, b3)" by force
  have st1: "step_ok b s b1 s1" using step_ok_trans [OF 0(1) conjunct1 [OF takePage_step [OF 0(2) 1]]] .
  then have "bf_ok b1" by (simp add: step_ok_def)
  note set = settleGaps_step [OF 2 this]
  then have st2: "step_ok b s b2 s2" "bf_ok b2" using step_ok_trans [OF st1] by (auto simp: step_ok_def)
  have st3: "step_ok b s b3 s2" using step_ok_trans [OF st2(1) nextRequest_step [OF st2(2) _ 3]] set by blast
  then have "bf_ok b3" by (simp add: step_ok_def)
  from Suc.IH [OF _ this] step_ok_trans [OF st3] show ?case
    using Suc.prems(1) st3 1 2 3 by (auto simp: Let_def b0_def [symmetric] split: if_splits)
qed

lemma pump_step: "pump publishRow recordEvent env now b s = Some (b', s') \<Longrightarrow> bf_ok b \<Longrightarrow> step_ok b s b' s'"
  unfolding pump_def by (rule pumpLoop_step)

end

section \<open>When the pump stops\<close>

text \<open>A client that promises nothing: enough for what the backfill does on its own.\<close>

interpretation any_client: backfill_client publishRow recordEvent "\<lambda>_ _ _. True" for publishRow recordEvent
  by unfold_locales simp_all

text \<open>Nothing to do, or nothing that may be done now.\<close>

definition stop_reason :: "int \<Rightarrow> TradeBackfill \<Rightarrow> bool" where
  "stop_reason nowMs b \<longleftrightarrow> bf_inFlight b \<or> bf_queue b = [] \<or>
     head_ok b \<and> (\<exists>sc. tryAcquire 0 nowMs sc = (False, bf_sched b))"

lemma settleGaps_quiet: "bf_inFlight b \<or> bf_queue b = [] \<or> head_ok b \<Longrightarrow> settleGaps recordEvent p b s = (p, b, s)"
  by (subst settleGaps.simps) (auto simp: head_ok_def Let_def)

lemma nextRequest_stops:
  assumes "\<not> bf_inFlight b \<longrightarrow> bf_queue b = [] \<or> head_ok b" "\<not> bc_inlineFetch (bf_cfg b)" "nextRequest f now p b = (p', b')"
  shows "stop_reason now b' \<and> (p' \<longrightarrow> p \<and> bf_inFlight b' = bf_inFlight b)"
proof (cases "tryAcquire 0 now (bf_sched b)")
  case (Pair ok sc)
  have sc: "\<exists>sc'. tryAcquire 0 now sc' = (False, sc)" if "\<not> ok" using Pair that by auto
  show ?thesis
  proof (cases "bf_inFlight b \<or> bf_queue b = []")
    case True
    then show ?thesis using assms(3) by (auto simp: nextRequest_def stop_reason_def)
  next
    case False
    then have h: "head_ok b" using assms(1) by simp
    show ?thesis
    proof (cases ok)
      case True
      then show ?thesis using assms(2,3) False Pair by (auto simp: nextRequest_def Let_def stop_reason_def)
    next
      case no: False
      then have "b' = b\<lparr>bf_sched := sc\<rparr>" "p' = p" using assms(3) False Pair by (simp_all add: nextRequest_def Let_def)
      then show ?thesis using h sc [OF no] by (simp add: stop_reason_def head_ok_def)
    qed
  qed
qed

text \<open>One round: it stops for a reason, or it has taken a page and the next round has nothing to take.\<close>

lemma pump_round:
  assumes ok: "bf_ok b" and out: "\<not> bc_inlineFetch (bf_cfg b)"
    and run: "pumpLoop publishRow recordEvent env now (Suc n) b s = Some (b', s')"
  shows "stop_reason now b' \<or>
    (bf_inFlight b \<and> (\<exists>b1 s1. bf_ok b1 \<and> \<not> bf_inFlight b1 \<and> \<not> bc_inlineFetch (bf_cfg b1) \<and> (bf_queue b1 = [] \<or> head_ok b1) \<and>
       pumpLoop publishRow recordEvent env now n b1 s1 = Some (b', s'))) \<or>
    (\<not> bf_inFlight b \<and> \<not> (bf_queue b = [] \<or> head_ok b) \<and> (\<exists>b1 s1. bf_ok b1 \<and> \<not> bf_inFlight b1 \<and> \<not> bc_inlineFetch (bf_cfg b1) \<and>
       (bf_queue b1 = [] \<or> head_ok b1) \<and> pumpLoop publishRow recordEvent env now n b1 s1 = Some (b', s')))"
proof -
  let ?k = "PUMP_ROUNDS - Suc n"
  define b0 where "b0 = fold bf_thread (pe_thread env ?k) b"
  have 0: "bf_ok b0" "bf_queue b0 = bf_queue b" "bf_cfg b0 = bf_cfg b" "bf_inFlight b0 = bf_inFlight b"
    using fold_thread_ok [OF ok, of "pe_thread env ?k"] by (simp_all add: b0_def)
  obtain p1 b1 s1 where 1: "takePage publishRow recordEvent now (pe_jitter env ?k) b0 s = Some (p1, b1, s1)"
    using run by (auto simp: Let_def b0_def [symmetric] split: option.splits)
  obtain p2 b2 s2 where 2: "settleGaps recordEvent p1 b1 s1 = (p2, b2, s2)" by (metis prod_cases3)
  obtain p3 b3 where 3: "nextRequest (pe_fetch env ?k) now p2 b2 = (p3, b3)" by force
  have res: "(if p3 then pumpLoop publishRow recordEvent env now n b3 s2 else Some (b3, s2)) = Some (b', s')"
    using run 1 2 3 by (simp add: Let_def b0_def [symmetric])
  note t = any_client.takePage_step [OF 0(1) 1]
  have t1: "bf_ok b1" "bf_cfg b1 = bf_cfg b" "bf_inFlight b1 = (bf_inFlight b \<and> \<not> p1)" "\<not> bf_inFlight b \<Longrightarrow> \<not> p1"
    using t 0 by (simp_all add: any_client.step_ok_def)
  note u = any_client.settleGaps_step [OF 2 t1(1)]
  have u1: "bf_ok b2" "bf_cfg b2 = bf_cfg b" "bf_inFlight b2 = bf_inFlight b1" "\<not> bf_inFlight b2 \<longrightarrow> bf_queue b2 = [] \<or> head_ok b2"
    using u t1(2) by (simp_all add: any_client.step_ok_def)
  have out2: "\<not> bc_inlineFetch (bf_cfg b2)" using out u1(2) by simp
  note v = any_client.nextRequest_step [OF u1(1,4) 3, where s = s2] nextRequest_stops [OF u1(4) out2 3]
  show ?thesis
  proof (cases p3)
    case False
    then show ?thesis using res v(2) by simp
  next
    case True
    have b3: "bf_ok b3" "\<not> bc_inlineFetch (bf_cfg b3)" using v(1) out2 by (simp_all add: any_client.step_ok_def)
    have p2: "p2" "bf_inFlight b3 = bf_inFlight b2" using v(2) True by simp_all
    show ?thesis
    proof (cases "bf_inFlight b3")
      case True
      then have "bf_inFlight b1" using p2(2) u1(3) by simp
      moreover from this have "p2 = p1" using 2 settleGaps_quiet [of b1 recordEvent p1 s1] by simp
      ultimately show ?thesis using p2(1) t1(3) by simp
    next
      case False
      have hd3: "bf_queue b3 = [] \<or> head_ok b3"
        using v(2) True False by (auto simp: stop_reason_def)
      have run3: "pumpLoop publishRow recordEvent env now n b3 s2 = Some (b', s')" using res True by simp
      have "\<not> (bf_queue b = [] \<or> head_ok b)" if "\<not> bf_inFlight b"
      proof
        assume a: "bf_queue b = [] \<or> head_ok b"
        have "b1 = b0" "s1 = s" "\<not> p1" using 1 that 0(4) by (simp_all add: takePage_def)
        moreover have "bf_queue b0 = [] \<or> head_ok b0" using a 0(2,3) by (simp add: head_ok_def)
        ultimately have "p2 = p1" using 2 settleGaps_quiet [of b1 recordEvent p1 s1] by auto
        then show False using p2(1) \<open>\<not> p1\<close> by simp
      qed
      then show ?thesis using b3 False hd3 run3 by blast
    qed
  qed
qed

lemma pumpLoop_stops:
  assumes ok: "bf_ok b" and out: "\<not> bc_inlineFetch (bf_cfg b)"
    and run: "pumpLoop publishRow recordEvent env now (Suc (Suc n)) b s = Some (b', s')"
  shows "stop_reason now b'"
proof (rule ccontr)
  assume no: "\<not> stop_reason now b'"
  with pump_round [OF ok out run] obtain b1 s1 where 1: "bf_ok b1" "\<not> bf_inFlight b1" "\<not> bc_inlineFetch (bf_cfg b1)"
    "bf_queue b1 = [] \<or> head_ok b1" "pumpLoop publishRow recordEvent env now (Suc n) b1 s1 = Some (b', s')"
    by blast
  from pump_round [OF 1(1,3,5)] 1(2,4) no show False by blast
qed

text \<open>C17: The pump never leaves work behind and its bound on the rounds is never what ends it (with the fetching thread,
  as the handlers run it): when it returns, a request is under way, or no gap is left, or the oldest gap may be
  fetched but the rate limits have just refused a request.\<close>

theorem pump_stops_for_a_reason:
  assumes "bf_ok b" "\<not> bc_inlineFetch (bf_cfg b)" "pump publishRow recordEvent env nowMs b s = Some (b', s')"
  shows "bf_inFlight b' \<or> bf_queue b' = [] \<or> (head_ok b' \<and> (\<exists>sc. tryAcquire 0 nowMs sc = (False, bf_sched b')))"
proof -
  have "PUMP_ROUNDS = Suc (Suc 99998)" by (simp add: PUMP_ROUNDS_def)
  then have "pumpLoop publishRow recordEvent env nowMs (Suc (Suc 99998)) b s = Some (b', s')"
    using assms(3) unfolding pump_def by (simp only:)
  from pumpLoop_stops [OF assms(1,2) this] show ?thesis by (simp add: stop_reason_def)
qed

definition disabled_backfill :: TradeBackfill where
  "disabled_backfill = addGap \<lparr>gap_sym = ''B'', gap_firstId = 6, gap_lastId = 7, gap_recovered = 0, gap_through = 0\<rparr>
     (newTradeBackfill (defaultBackfillConfig\<lparr>bc_enabled := False\<rparr>))"

definition quiet_env :: PumpEnv where
  "quiet_env = \<lparr>pe_thread = (\<lambda>_. []), pe_fetch = (\<lambda>_ _ _ _. emptyBackfillPage), pe_jitter = (\<lambda>_. 0)\<rparr>"

lemma pump_stops_for_a_reason_witness:
  "\<exists>b'. pump (\<lambda>_ _ _ s. Some s) (\<lambda>_ _ r s. s @ [r]) quiet_env 0 disabled_backfill [] = Some (b', [''backfillDisabled'']) \<and>
     (bf_inFlight b' \<or> bf_queue b' = [] \<or> (head_ok b' \<and> (\<exists>sc. tryAcquire 0 0 sc = (False, bf_sched b'))))"
proof -
  have f: "\<not> bf_inFlight disabled_backfill" "bf_cfg disabled_backfill = defaultBackfillConfig\<lparr>bc_enabled := False\<rparr>"
    "bf_queue disabled_backfill = [\<lparr>j_gap = \<lparr>gap_sym = ''B'', gap_firstId = 6, gap_lastId = 7, gap_recovered = 0, gap_through = 0\<rparr>, j_failures = 0\<rparr>]"
    by (simp_all add: disabled_backfill_def newTradeBackfill_def addGap_def)
  let ?b = "disabled_backfill\<lparr>bf_gapsUnrecoverable := bf_gapsUnrecoverable disabled_backfill + 1, bf_queue := []\<rparr>"
  have "settleGaps (\<lambda>_ _ r s. s @ [r]) False disabled_backfill [] = (True, ?b, [''backfillDisabled''])"
    by (subst settleGaps.simps) (simp add: f finish_def settleGaps.simps defaultBackfillConfig_def)
  moreover have "settleGaps (\<lambda>_ _ r s. s @ [r]) False ?b [''backfillDisabled''] = (False, ?b, [''backfillDisabled''])"
    by (rule settleGaps_quiet) simp
  ultimately have r: "pumpLoop (\<lambda>_ _ _ s. Some s) (\<lambda>_ _ r s. s @ [r]) quiet_env 0 (Suc (Suc n)) disabled_backfill [] = Some (?b, [''backfillDisabled''])"
    for n by (simp add: quiet_env_def takePage_def nextRequest_def f Let_def)
  have rounds: "PUMP_ROUNDS = Suc (Suc 99998)" by (simp add: PUMP_ROUNDS_def)
  have p: "pump (\<lambda>_ _ _ s. Some s) (\<lambda>_ _ r s. s @ [r]) quiet_env 0 disabled_backfill [] = Some (?b, [''backfillDisabled''])"
    unfolding pump_def rounds by (rule r)
  have "bf_ok disabled_backfill" using addGap_ok [OF newTradeBackfill_ok] by (simp add: disabled_backfill_def)
  from pump_stops_for_a_reason [OF this _ p] f(2) p show ?thesis by (auto simp: defaultBackfillConfig_def)
qed

end
