(* ===== verification/Trade_Handler.thy ===== *)
theory Trade_Handler
  imports Trade_Backfill Fh_Stats Row_Clock
begin

text \<open>
  \<open>cpp/src/trade_feed_handler.cpp\<close> and \<open>cpp/include/trade_feed_handler.hpp\<close>: the trade handler. It composes the id
  tracker, the queue of gap events, the backfill, the row clock and the tickerplant publisher.

  The state is the record \<open>TradeHandler\<close>; every method that changes state is a function of it and of the
  tickerplant's world. A method that publishes returns \<open>None\<close> when the reconnect loop of \<open>publish\<close> does not
  return. The clocks a method reads are the record \<open>TradeReadings\<close>: the system clock at the \<open>n\<close>-th gap event of
  the handler, the system clock after row number \<open>n\<close> was published, and the two measured durations of a
  live message. The WebSocket, TLS and log lines are left out.
\<close>

section \<open>State\<close>

record TradeHandler =
  th_symbols :: "string list"
  th_cfg :: MarketConfig
  th_fhSeqNo :: int
  th_idTracker :: TradeIdTracker
  th_seededSyms :: "string set"
  th_gapEvents :: GapEventQueue
  th_backfillHttp :: RestClient
  th_backfill :: TradeBackfill
  th_ctrBackfilled :: nat
  th_tp :: TpPublisher
  th_reconnectAttempt :: nat
  th_startTime :: int
  th_msgsReceived :: nat
  th_msgsPublished :: nat
  th_wsReconnects :: nat
  th_exchGaps :: nat
  th_exchMissed :: int
  th_exchOutOfOrder :: nat
  th_exchDuplicates :: nat
  th_nqMissing :: nat
  th_rowClock :: RowClock
  th_lastMsgTime :: int
  th_lastPubTime :: int
  th_connState :: string
  th_parseFailures :: nat

record TradeReadings =
  tr_eventNs :: "nat \<Rightarrow> int"
  tr_pubNs :: "int \<Rightarrow> int"
  tr_parseUs :: int
  tr_sendUs :: int

definition newTradeHandler :: "string list \<Rightarrow> MarketConfig \<Rightarrow> string \<Rightarrow> int \<Rightarrow> int \<Rightarrow> TradeHandler" where
  "newTradeHandler symbols market tpHost tpPort startNs =
     (let tpCfg = defaultTpConfig\<lparr>tc_host := tpHost, tc_port := tpPort, tc_table := mc_tpTable market,
            tc_width := int (if mc_schema market = SpotTrade then TRADE_ROW_WIDTH else AGG_TRADE_ROW_WIDTH),
            tc_sessionId := startNs\<rparr>;
          bfCfg = defaultBackfillConfig\<lparr>bc_enabled := mc_backfillEnabled market,
            bc_maxGapIds := mc_backfillMaxGapIds market,
            bc_sched := (bc_sched defaultBackfillConfig)\<lparr>sc_weightPerRequest := mc_backfillWeight market,
              sc_weightLimitPerMin := mc_backfillWeightLimit market\<rparr>\<rparr>
      in \<lparr>th_symbols = symbols, th_cfg = market, th_fhSeqNo = 0, th_idTracker = Map.empty, th_seededSyms = {},
          th_gapEvents = newGapEventQueue ''trade_gap'',
          th_backfillHttp = \<lparr>rc_host = mc_backfillRestHost market, rc_port = mc_backfillRestPort market,
            rc_path = mc_backfillRestPath market\<rparr>,
          th_backfill = newTradeBackfill bfCfg, th_ctrBackfilled = 0, th_tp = newTpPublisher tpCfg,
          th_reconnectAttempt = 0, th_startTime = startNs, th_msgsReceived = 0, th_msgsPublished = 0,
          th_wsReconnects = 0, th_exchGaps = 0, th_exchMissed = 0, th_exchOutOfOrder = 0, th_exchDuplicates = 0,
          th_nqMissing = 0, th_rowClock = newRowClock (mc_clockLagMs market), th_lastMsgTime = 0,
          th_lastPubTime = 0, th_connState = ''disconnected'', th_parseFailures = 0\<rparr>)"

text \<open>The fetcher of the backfill: what its thread is given for a request at time \<open>nowNs\<close>.\<close>

definition tradeFetch :: "net \<Rightarrow> json_parser \<Rightarrow> TradeHandler \<Rightarrow> int \<Rightarrow> BackfillRequest \<Rightarrow> BackfillPage" where
  "tradeFetch net parse h nowNs rq =
     fetch net parse (th_backfillHttp h) (mc_backfillRestPath (th_cfg h)) (mc_schema (th_cfg h)) nowNs
       (br_sym rq) (br_fromId rq) (br_limit rq)"

section \<open>Gaps\<close>

text \<open>The number of gap events so far: the index of the next one.\<close>

definition eventCount :: "TradeHandler \<Rightarrow> nat" where
  "eventCount h = ge_acked (th_gapEvents h) + ge_rejected (th_gapEvents h) + length (ge_pending (th_gapEvents h))"

definition flushGaps :: "'w TpIo \<Rightarrow> TradeHandler \<Rightarrow> 'w \<Rightarrow> TradeHandler \<times> 'w" where
  "flushGaps io h w =
     (case flush io (th_gapEvents h) (th_tp h) w of (b, q, p, w') \<Rightarrow> (h\<lparr>th_gapEvents := q, th_tp := p\<rparr>, w'))"

definition recordGap ::
    "'w TpIo \<Rightarrow> TradeReadings \<Rightarrow> TradeGap \<Rightarrow> GapStatus \<Rightarrow> string \<Rightarrow> TradeHandler \<Rightarrow> 'w \<Rightarrow> TradeHandler \<times> 'w" where
  "recordGap io rd gap status reason h w =
     flushGaps io (h\<lparr>th_gapEvents :=
       ge_push (buildGapRow (tr_eventNs rd (eventCount h)) gap (mc_tpTable (th_cfg h)) status reason) (th_gapEvents h)\<rparr>) w"

definition validateTradeId ::
    "'w TpIo \<Rightarrow> TradeReadings \<Rightarrow> string \<Rightarrow> int \<Rightarrow> TradeHandler \<Rightarrow> 'w \<Rightarrow> TradeHandler \<times> 'w" where
  "validateTradeId io rd sy tradeId h0 w =
     (case onId sy tradeId (th_idTracker h0) of (r, tracker) \<Rightarrow>
        let h = h0\<lparr>th_idTracker := tracker\<rparr>;
            (h', w') =
              (case ir_kind r of
                 First \<Rightarrow> (h, w)
               | InOrder \<Rightarrow> (h, w)
               | OutOfOrder \<Rightarrow> (h\<lparr>th_exchOutOfOrder := th_exchOutOfOrder h + 1\<rparr>, w)
               | Duplicate \<Rightarrow> (h\<lparr>th_exchDuplicates := th_exchDuplicates h + 1\<rparr>, w)
               | Gap \<Rightarrow>
                   (let gap = \<lparr>gap_sym = sy, gap_firstId = ir_firstMissing r, gap_lastId = ir_lastMissing r,
                          gap_recovered = 0, gap_through = 0\<rparr>;
                        h1 = h\<lparr>th_exchGaps := th_exchGaps h + 1, th_exchMissed := th_exchMissed h + missing gap\<rparr>;
                        afterRestart = (sy \<in> th_seededSyms h1)
                    in case recordGap io rd gap Detected (if afterRestart then ''handlerRestart'' else []) h1 w of
                         (h2, w2) \<Rightarrow> (h2\<lparr>th_backfill := addGap gap (th_backfill h2)\<rparr>, w2)))
        in (h'\<lparr>th_seededSyms := th_seededSyms h' - {sy}\<rparr>, w'))"

section \<open>Publishing\<close>

definition publishBackfilled ::
    "'w TpIo \<Rightarrow> TradeReadings \<Rightarrow> string \<Rightarrow> BackfillTrade \<Rightarrow> int \<Rightarrow> TradeHandler \<Rightarrow> 'w \<Rightarrow> (TradeHandler \<times> 'w) option" where
  "publishBackfilled io rd sy t recvNs h w =
     (case stamp recvNs 0 (th_rowClock h) of (st, rc) \<Rightarrow>
        let n = th_fhSeqNo h + 1;
            row = (if mc_schema (th_cfg h) = SpotTrade then
                     buildTradeRow (st_timeUtcNs st) recvNs sy (bt_id t) (bt_price t) (bt_qty t) (bt_buyerIsMaker t)
                       null_long (bt_tradeTimeMs t) 0 0 n
                   else
                     buildAggTradeRow (st_timeUtcNs st) recvNs sy (bt_id t) (bt_firstTradeId t) (bt_lastTradeId t)
                       (bt_price t) (bt_qty t) (bt_qtyExRpi t) (bt_buyerIsMaker t) null_long (bt_tradeTimeMs t) 0 0 n)
        in case publish io row n (th_tp h) w of None \<Rightarrow> None
           | Some (ok, p, w') \<Rightarrow>
               Some (h\<lparr>th_rowClock := rc, th_fhSeqNo := n, th_tp := p, th_lastPubTime := tr_pubNs rd n,
                       th_msgsPublished := th_msgsPublished h + 1, th_ctrBackfilled := th_ctrBackfilled h + 1\<rparr>, w'))"

definition pumpBackfill ::
    "'w TpIo \<Rightarrow> TradeReadings \<Rightarrow> PumpEnv \<Rightarrow> int \<Rightarrow> TradeHandler \<Rightarrow> 'w \<Rightarrow> (TradeHandler \<times> 'w) option" where
  "pumpBackfill io rd env nowMs h w =
     (case pump (\<lambda>sy t recvNs (h, w). publishBackfilled io rd sy t recvNs h w)
             (\<lambda>g st reason (h, w). recordGap io rd g st reason h w) env nowMs (th_backfill h) (h, w) of
        None \<Rightarrow> None
      | Some (b, h', w') \<Rightarrow> Some (h'\<lparr>th_backfill := b\<rparr>, w'))"

section \<open>Messages\<close>

record TradeEvent =
  te_sym :: string
  te_price :: double
  te_qty :: double
  te_buyerIsMaker :: bool
  te_eventTimeMs :: int
  te_tradeTimeMs :: int
  te_primaryId :: int
  te_firstAggId :: int
  te_lastAggId :: int
  te_nq :: "double option"

text \<open>The fields of a trade message: \<open>None\<close> when one is missing or malformed. The optional \<open>nq\<close> of a futures event
  is read apart: a number in a string that is read to its end.\<close>

definition parseTrade :: "TradeSchema \<Rightarrow> Json \<Rightarrow> TradeEvent option" where
  "parseTrade schema doc =
     (let (d0, root) = obj ''data'' (newReader doc);
          (sy, d1) = rd_string ''s'' d0;
          (px, d2) = rd_priceString ''p'' d1;
          (qt, d3) = rd_priceString ''q'' d2;
          (mk, d4) = rd_boolean ''m'' d3;
          (Ef, d5) = rd_int64 ''E'' d4;
          (Tf, d6) = rd_int64 ''T'' d5;
          (pid, d7) = rd_int64 (if schema = SpotTrade then ''t'' else ''a'') d6;
          (ff, d8) = (if schema = SpotTrade then (Some 0, d7) else rd_int64 ''f'' d7);
          (lf, d9) = (if schema = SpotTrade then (Some 0, d8) else rd_int64 ''l'' d8)
      in if hasError d9 then None
         else Some \<lparr>te_sym = the sy, te_price = the px, te_qty = the qt, te_buyerIsMaker = the mk,
           te_eventTimeMs = the Ef, te_tradeTimeMs = the Tf, te_primaryId = the pid, te_firstAggId = the ff,
           te_lastAggId = the lf,
           te_nq = (if schema = SpotTrade then None else case rd_v d9 of None \<Rightarrow> None | Some ms \<Rightarrow> bf_num ms ''nq'')\<rparr>)"

text \<open>What \<open>processMessage\<close> does with a well-formed message.\<close>

definition handleTrade ::
    "'w TpIo \<Rightarrow> TradeReadings \<Rightarrow> TradeEvent \<Rightarrow> int \<Rightarrow> TradeHandler \<Rightarrow> 'w \<Rightarrow> (TradeHandler \<times> 'w) option" where
  "handleTrade io rd e recvNs h0 w0 =
     (let futures = (mc_schema (th_cfg h0) \<noteq> SpotTrade);
          h1 = (if futures \<and> te_nq e = None then h0\<lparr>th_nqMissing := th_nqMissing h0 + 1\<rparr> else h0);
          (h, w) = validateTradeId io rd (te_sym e) (te_primaryId e) h1 w0;
          (st, rc) = stamp recvNs (te_eventTimeMs e) (th_rowClock h);
          n = th_fhSeqNo h + 1;
          (row, sendIdx) =
            (if \<not> futures then
               (buildTradeRow (st_timeUtcNs st) recvNs (te_sym e) (te_primaryId e) (te_price e) (te_qty e) (te_buyerIsMaker e)
                  (te_eventTimeMs e) (te_tradeTimeMs e) (tr_parseUs rd) 0 n, TRADE_ROW_SEND_US_IDX)
             else
               (buildAggTradeRow (st_timeUtcNs st) recvNs (te_sym e) (te_primaryId e) (te_firstAggId e) (te_lastAggId e)
                  (te_price e) (te_qty e) (case te_nq e of Some nq \<Rightarrow> nq | None \<Rightarrow> NaN) (te_buyerIsMaker e)
                  (te_eventTimeMs e) (te_tradeTimeMs e) (tr_parseUs rd) 0 n, AGG_TRADE_ROW_SEND_US_IDX))
      in case publish io (row[sendIdx := KLong (tr_sendUs rd)]) n (th_tp h) w of None \<Rightarrow> None
         | Some (ok, p, w') \<Rightarrow>
             (let h' = h\<lparr>th_rowClock := rc, th_fhSeqNo := n, th_tp := p,
                    th_connState := (if connected p then ''connected'' else ''disconnected''),
                    th_lastPubTime := tr_pubNs rd n, th_msgsPublished := th_msgsPublished h + 1\<rparr>
              in Some (if ge_pending (th_gapEvents h') \<noteq> [] then flushGaps io h' w' else (h', w'))))"

definition processTradeMessage ::
    "'w TpIo \<Rightarrow> TradeReadings \<Rightarrow> json_parser \<Rightarrow> string \<Rightarrow> int \<Rightarrow> TradeHandler \<Rightarrow> 'w \<Rightarrow> (TradeHandler \<times> 'w) option" where
  "processTradeMessage io rd parse msg recvNs h0 w =
     (let h = h0\<lparr>th_lastMsgTime := recvNs, th_msgsReceived := th_msgsReceived h0 + 1\<rparr>
      in case parse (c_str msg) of
           Inl err \<Rightarrow> Some (h\<lparr>th_parseFailures := th_parseFailures h + 1\<rparr>, w)
         | Inr doc \<Rightarrow>
             (case parseTrade (mc_schema (th_cfg h)) doc of
                None \<Rightarrow> Some (h\<lparr>th_parseFailures := th_parseFailures h + 1\<rparr>, w)
              | Some e \<Rightarrow> handleTrade io rd e recvNs h w))"

text \<open>The body of the message loop; the health timer is a step of its own.\<close>

definition onTradeMessage ::
    "'w TpIo \<Rightarrow> TradeReadings \<Rightarrow> TradeReadings \<Rightarrow> PumpEnv \<Rightarrow> int \<Rightarrow> json_parser \<Rightarrow> string \<Rightarrow> int \<Rightarrow> TradeHandler \<Rightarrow> 'w
      \<Rightarrow> (TradeHandler \<times> 'w) option" where
  "onTradeMessage io rd rdP env nowMs parse msg recvNs h w =
     (case processTradeMessage io rd parse msg recvNs h w of None \<Rightarrow> None
      | Some (h', w') \<Rightarrow> pumpBackfill io rdP env nowMs h' w')"

section \<open>The life of the handler\<close>

text \<open>What \<open>run\<close> does with the tickerplant's answer about its last ids and open gaps.\<close>

definition resumeGap :: "OpenGap \<Rightarrow> TradeGap" where
  "resumeGap g = \<lparr>gap_sym = og_sym g, gap_firstId = og_firstId g, gap_lastId = og_lastId g,
     gap_recovered = og_recovered g, gap_through = og_through g\<rparr>"

definition seedState :: "TradeState \<Rightarrow> TradeHandler \<Rightarrow> TradeHandler" where
  "seedState st h =
     (if ts_ok st then
        let h1 = fold (\<lambda>(sy, n) h. h\<lparr>th_idTracker := seed sy n (th_idTracker h), th_seededSyms := insert sy (th_seededSyms h)\<rparr>)
                   (ts_lastIds st) h
        in fold (\<lambda>g h. h\<lparr>th_backfill := addGap (resumeGap g) (th_backfill h)\<rparr>) (ts_openGaps st) h1
      else h)"

definition startTrading :: "'w TpIo \<Rightarrow> TradeHandler \<Rightarrow> 'w \<Rightarrow> (bool \<times> TradeHandler \<times> 'w) option" where
  "startTrading io h w =
     (case connect io (th_fhSeqNo h + 1) (th_tp h) w of
        None \<Rightarrow> None
      | Some (False, p, w1) \<Rightarrow> Some (False, h\<lparr>th_tp := p\<rparr>, w1)
      | Some (True, p, w1) \<Rightarrow>
          (case tradeState io p w1 of (st, p', w2) \<Rightarrow>
             let h1 = seedState st (h\<lparr>th_tp := p'\<rparr>)
             in Some (True, h1\<lparr>th_backfill := bf_start (th_backfill h1)\<rparr>, w2)))"

definition tradeTarget :: "TradeHandler \<Rightarrow> string" where
  "tradeTarget h = (if mc_schema (th_cfg h) = FuturesAggTrade then ''/market'' else []) @
     buildStreamPath (th_symbols h) (mc_streamSuffix (th_cfg h))"

definition tradeConnecting :: "TradeHandler \<Rightarrow> TradeHandler" where
  "tradeConnecting h = h\<lparr>th_connState := ''connecting''\<rparr>"

definition tradeConnectionUp :: "TradeHandler \<Rightarrow> TradeHandler" where
  "tradeConnectionUp h = h\<lparr>th_connState := ''connected'', th_reconnectAttempt := 0\<rparr>"

definition tradeConnectionLeft :: "TradeHandler \<Rightarrow> TradeHandler" where
  "tradeConnectionLeft h = h\<lparr>th_connState := ''disconnected''\<rparr>"

definition TRADE_INITIAL_BACKOFF_MS :: int where "TRADE_INITIAL_BACKOFF_MS = 1000"
definition TRADE_MAX_BACKOFF_MS :: int where "TRADE_MAX_BACKOFF_MS = 8000"

text \<open>The delay of \<open>sleepWithBackoff\<close>.\<close>

definition tradeBackoff :: "nat \<Rightarrow> int" where
  "tradeBackoff attempt = min (backoff_loop attempt TRADE_MAX_BACKOFF_MS TRADE_INITIAL_BACKOFF_MS) TRADE_MAX_BACKOFF_MS"

text \<open>The connection is lost: one more reconnect, and the wait before it.\<close>

definition tradeConnectionLost :: "TradeHandler \<Rightarrow> int \<times> TradeHandler" where
  "tradeConnectionLost h =
     (tradeBackoff (th_reconnectAttempt h),
      h\<lparr>th_wsReconnects := th_wsReconnects h + 1, th_reconnectAttempt := th_reconnectAttempt h + 1\<rparr>)"

text \<open>The end of the message loop after a stop, and the clean-up of \<open>run\<close>, up to the join of the fetching thread.\<close>

definition tradeShutdown :: "'w TpIo \<Rightarrow> TradeHandler \<Rightarrow> 'w \<Rightarrow> TradeHandler \<times> 'w" where
  "tradeShutdown io h w =
     (case close io (th_tp h) w of (p, w') \<Rightarrow>
        (h\<lparr>th_connState := ''disconnected'', th_backfill := bf_stop (th_backfill h), th_tp := p\<rparr>, w'))"

section \<open>Health\<close>

definition tradeHealthRow :: "int \<Rightarrow> TradeHandler \<Rightarrow> krow" where
  "tradeHealthRow now h =
     (let ts = (\<lambda>t. KTimestamp (t - KDB_EPOCH_OFFSET_NS))
      in [ts now, KSym (if mc_schema (th_cfg h) = FuturesAggTrade then ''trade_fh_fut'' else ''trade_fh''), ts (th_startTime h),
          KLong ((now - th_startTime h) sdiv 1000000000), KLong (int (th_msgsReceived h)),
          KLong (int (th_msgsPublished h)), ts (th_lastMsgTime h), ts (th_lastPubTime h),
          KSym (th_connState h), KInt (int (length (th_symbols h)))])"

definition tradeStats :: "TradeHandler \<Rightarrow> (string \<times> int) list" where
  "tradeStats h =
     (let b = th_backfill h; p = th_tp h
      in [(''msgsReceived'', int (th_msgsReceived h)), (''rowsPublished'', int (th_msgsPublished h)),
          (''wsReconnects'', int (th_wsReconnects h)), (''exchGaps'', int (th_exchGaps h)),
          (''exchMissed'', th_exchMissed h), (''exchOutOfOrder'', int (th_exchOutOfOrder h)),
          (''exchDuplicates'', int (th_exchDuplicates h)), (''nqMissing'', int (th_nqMissing h)),
          (''gapEventsPending'', int (length (ge_pending (th_gapEvents h)))), (''gapsOpen'', int (length (bf_queue b))),
          (''gapsRecovered'', int (bf_gapsRecovered b)), (''gapsUnrecoverable'', int (bf_gapsUnrecoverable b)),
          (''tradesBackfilled'', int (th_ctrBackfilled h)), (''backfillRequests'', int (bf_pagesRequested b)),
          (''backfillFailures'', int (bf_pagesFailed b)), (''rateLimitPauses'', int (sch_rateLimitPauses (bf_sched b))),
          (''tpReconnects'', int (p_reconnects p)), (''rowsResent'', int (p_rowsResent p)),
          (''rowsUnresendable'', p_rowsUnresendable p), (''clockLagRows'', int (rc_correctedRows (th_rowClock h)))])"

definition publishTradeHealth :: "'w TpIo \<Rightarrow> int \<Rightarrow> TradeHandler \<Rightarrow> 'w \<Rightarrow> TradeHandler \<times> 'w" where
  "publishTradeHealth io now h0 w0 =
     (let (h, w) = (if ge_pending (th_gapEvents h0) \<noteq> [] then flushGaps io h0 w0 else (h0, w0))
      in if \<not> connected (th_tp h) then (h, w)
         else let w1 = snd (io_async io (p_handle (th_tp h)) ''.u.upd''
                            [KSym ''health_feed_handler'', KMixed (tradeHealthRow now h)] w)
              in (h, sendFhStats io (p_handle (th_tp h)) (mc_tpTable (th_cfg h)) (tradeStats h) w1))"

section \<open>Parsing\<close>

text \<open>The specification of \<open>parseTrade\<close>: look up the fields in the object \<open>data\<close>, all of them or nothing.\<close>

definition get_string :: "(string \<times> Json) list \<Rightarrow> string \<Rightarrow> string option" where
  "get_string ms k = (case map_of ms k of Some (JString s) \<Rightarrow> Some s | _ \<Rightarrow> None)"

definition get_price :: "(string \<times> Json) list \<Rightarrow> string \<Rightarrow> double option" where
  "get_price ms k = Option.bind (get_string ms k) price_of"

definition trade_of :: "TradeSchema \<Rightarrow> (string \<times> Json) list \<Rightarrow> TradeEvent option" where
  "trade_of schema ms =
     (case (get_string ms ''s'', get_price ms ''p'', get_price ms ''q'', bf_flag ms ''m'', bf_i64 ms ''E'', bf_i64 ms ''T'') of
        (Some sy, Some px, Some qt, Some mk, Some Ef, Some Tf) \<Rightarrow>
          (if schema = SpotTrade then
             map_option (\<lambda>t. \<lparr>te_sym = sy, te_price = px, te_qty = qt, te_buyerIsMaker = mk, te_eventTimeMs = Ef, te_tradeTimeMs = Tf,
               te_primaryId = t, te_firstAggId = 0, te_lastAggId = 0, te_nq = None\<rparr>) (bf_i64 ms ''t'')
           else
             (case (bf_i64 ms ''a'', bf_i64 ms ''f'', bf_i64 ms ''l'') of
                (Some a, Some f, Some l) \<Rightarrow>
                  Some \<lparr>te_sym = sy, te_price = px, te_qty = qt, te_buyerIsMaker = mk, te_eventTimeMs = Ef, te_tradeTimeMs = Tf,
                    te_primaryId = a, te_firstAggId = f, te_lastAggId = l, te_nq = bf_num ms ''nq''\<rparr>
              | _ \<Rightarrow> None))
      | _ \<Rightarrow> None)"

text \<open>An accessor on a reader without an error: the field, or an error that stays.\<close>

definition reads :: "(string \<Rightarrow> JsonReader \<Rightarrow> 'a option \<times> JsonReader) \<Rightarrow> ((string \<times> Json) list \<Rightarrow> string \<Rightarrow> 'a option) \<Rightarrow> bool" where
  "reads acc look \<longleftrightarrow> (\<forall>k ms r. (rd_v r = Some ms \<and> \<not> hasError r \<longrightarrow>
       (case look ms k of Some x \<Rightarrow> acc k r = (Some x, r) | None \<Rightarrow> hasError (snd (acc k r)))) \<and>
     (hasError r \<longrightarrow> hasError (snd (acc k r))))"

lemma reads_field:
  assumes "\<And>ms k. look ms k = (case map_of ms k of None \<Rightarrow> None | Some f \<Rightarrow> g f)" "\<And>k f. bad k f \<noteq> []"
  shows "reads (field kind g bad) look"
  using assms(2) by (auto simp: reads_def field_def assms(1) setError_def hasError_def split: option.split)

lemma reads_trade:
  "reads rd_string get_string" "reads rd_priceString get_price" "reads rd_boolean bf_flag" "reads rd_int64 bf_i64"
  unfolding rd_string_def rd_priceString_def rd_boolean_def rd_int64_def
  by (rule reads_field; simp add: get_string_def get_price_def bf_flag_def bf_i64_def split: option.split Json.split)+

text \<open>Reading one field and going on: with an error the whole chain yields \<open>None\<close>.\<close>

lemma reads_sticky:
  assumes "reads acc look" "hasError r" "\<And>x r. hasError r \<Longrightarrow> rest (x :: 'a option) r = None"
  shows "case_prod rest (acc k r) = None"
proof -
  obtain x r' where a: "acc k r = (x, r')" by force
  have "hasError (snd (acc k r))" using assms(1,2) by (simp add: reads_def)
  then show ?thesis using a assms(3) by simp
qed

lemma reads_then:
  assumes "reads acc look" "rd_v r = Some ms" "\<not> hasError r" "\<And>x r. hasError r \<Longrightarrow> rest (x :: 'a option) r = None"
  shows "case_prod rest (acc k r) = (case look ms k of None \<Rightarrow> None | Some x \<Rightarrow> rest (Some x) r)"
proof (cases "look ms k")
  case (Some x)
  then have "acc k r = (Some x, r)" using assms(1-3) by (auto simp: reads_def dest!: spec [of _ k] spec [of _ ms] spec [of _ r])
  then show ?thesis using Some by simp
next
  case None
  obtain x r' where a: "acc k r = (x, r')" by force
  then have "hasError r'" using assms(1-3) None by (auto simp: reads_def dest!: spec [of _ k] spec [of _ ms] spec [of _ r])
  then show ?thesis using None a assms(4) by simp
qed

lemmas sticky_trade = reads_trade [THEN reads_sticky]
lemmas then_trade = reads_trade [THEN reads_then]

text \<open>C19: Reading a trade message with the checked accessors, whose error is tested once at the end, is the same as looking
  up all its fields: the trade is accepted exactly when every field of its schema is there with the right type,
  whatever else the message holds, and \<open>nq\<close> of a futures event never decides.\<close>

theorem parseTrade_is_lookup:
  "parseTrade schema doc =
     (case doc of JObject ms \<Rightarrow> (case map_of ms ''data'' of Some (JObject d) \<Rightarrow> trade_of schema d | _ \<Rightarrow> None) | _ \<Rightarrow> None)"
proof -
  have err: "parseTrade schema doc = None" if "hasError (fst (obj ''data'' (newReader doc)))"
    using that unfolding parseTrade_def Let_def
    by (cases "obj ''data'' (newReader doc)"; cases "schema = SpotTrade") (simp_all add: sticky_trade)
  have fields: "parseTrade schema doc = trade_of schema d" if "obj ''data'' (newReader doc) = (r, root)" "rd_v r = Some d" "\<not> hasError r" for d r root
    using that unfolding parseTrade_def Let_def
    by (cases "schema = SpotTrade")
      (simp_all add: then_trade sticky_trade trade_of_def split: option.split)
  show ?thesis
  proof (cases doc)
    case (JObject ms)
    show ?thesis
    proof (cases "map_of ms ''data''")
      case None
      then show ?thesis using err JObject by (simp add: obj_def newReader_def setError_def hasError_def)
    next
      case (Some v)
      show ?thesis
      proof (cases "\<exists>d. v = JObject d")
        case True
        then show ?thesis using fields JObject Some by (auto simp: obj_def newReader_def hasError_def)
      next
        case False
        then show ?thesis using err JObject Some by (cases v) (auto simp: obj_def newReader_def setError_def hasError_def)
      qed
    qed
  qed (use err in \<open>simp_all add: obj_def newReader_def emptyReader_def hasError_def\<close>)
qed

end
