(* ===== verification/Trade_Log.thy ===== *)
theory Trade_Log
  imports Trade_Handler
begin

text \<open>
  The trade handler against the tickerplant's log: \<open>trade_log\<close> says which trades it has published and which gap
  events it has recorded, in order, and every operation that publishes keeps it. With it the handler is a client of
  the backfill (\<open>trade_client\<close>), so what \<open>pump\<close> guarantees holds for the handler. \<open>trade_run\<close> is the handler's life;
  \<open>trade_run_ok\<close> accounts for every trade id over it.
\<close>

section \<open>Published trades and recorded events\<close>

definition row_key :: "krow \<Rightarrow> trade_key" where
  "row_key r = (case r of t # KSym sy # KLong i # rest \<Rightarrow> (sy, i) | _ \<Rightarrow> ([], 0))"

definition event_rows :: "string \<Rightarrow> int list \<Rightarrow> gap_event list \<Rightarrow> krow list" where
  "event_rows table ts E = map2 (\<lambda>t (g, st, reason). buildGapRow t g table st reason) ts E"

definition row_width :: "MarketConfig \<Rightarrow> nat" where
  "row_width mc = (if mc_schema mc = SpotTrade then TRADE_ROW_WIDTH else AGG_TRADE_ROW_WIDTH)"

definition published_rows :: "('w \<Rightarrow> TpView) \<Rightarrow> krow list \<Rightarrow> TradeHandler \<Rightarrow> 'w \<Rightarrow> bool" where
  "published_rows view H h w \<longleftrightarrow> tp_ready view (th_tp h) H w \<and> th_fhSeqNo h = int (length H) \<and>
     (\<forall>r \<in> set H. length r = row_width (th_cfg h))"

definition recorded_events :: "gap_event list \<Rightarrow> TradeHandler \<Rightarrow> bool" where
  "recorded_events E h \<longleftrightarrow> eventCount h = length E \<and> ge_table (th_gapEvents h) = ''trade_gap'' \<and>
     (\<exists>ts. length ts = length E \<and> ge_pending (th_gapEvents h) =
        drop (ge_acked (th_gapEvents h) + ge_rejected (th_gapEvents h)) (event_rows (mc_tpTable (th_cfg h)) ts E))"

fun trade_log ::
    "'w TpIo \<Rightarrow> ('w \<Rightarrow> TpView) \<Rightarrow> MarketConfig \<Rightarrow> TradeIdTracker \<Rightarrow> trade_key list \<Rightarrow> gap_event list \<Rightarrow> TradeHandler \<times> 'w \<Rightarrow> bool" where
  "trade_log io view mc tr G E (h, w) \<longleftrightarrow> tp_contract io view (p_cfg (th_tp h)) \<and> th_cfg h = mc \<and> th_idTracker h = tr \<and>
     (\<exists>H. published_rows view H h w \<and> map row_key H = G) \<and> recorded_events E h"

declare trade_log.simps [simp del]

text \<open>Only these fields matter.\<close>

lemma trade_log_frame:
  assumes "trade_log io view mc tr G E (h, w)" "settles (view w) (view w')" "th_tp h' = th_tp h" "th_cfg h' = th_cfg h"
    "th_fhSeqNo h' = th_fhSeqNo h" "th_gapEvents h' = th_gapEvents h"
  shows "trade_log io view mc (th_idTracker h') G E (h', w')"
  using assms by (auto simp: trade_log.simps published_rows_def recorded_events_def eventCount_def intro: tp_ready_settles)

lemma event_rows_snoc:
  "length ts = length E \<Longrightarrow> event_rows table (ts @ [t]) (E @ [(g, st, r)]) = event_rows table ts E @ [buildGapRow t g table st r]"
  by (simp add: event_rows_def)

lemma length_event_rows [simp]: "length ts = length E \<Longrightarrow> length (event_rows table ts E) = length E"
  by (simp add: event_rows_def)

lemma flushGaps_log:
  assumes log: "trade_log io view mc tr G E (h, w)" and fl: "flushGaps io h w = (h', w')"
  shows "trade_log io view mc tr G E (h', w') \<and> th_backfill h' = th_backfill h \<and> th_idTracker h' = tr \<and> th_cfg h' = th_cfg h"
proof -
  obtain b q p where f: "flush_loop io (ge_pending (th_gapEvents h)) (th_gapEvents h) (th_tp h) w = (b, q, p, w')"
    and h': "h' = h\<lparr>th_gapEvents := q, th_tp := p\<rparr>"
    using fl by (auto simp: flushGaps_def flush_def split: prod.splits)
  obtain k where k: "k \<le> length (ge_pending (th_gapEvents h))" "ge_pending q = drop k (ge_pending (th_gapEvents h))"
      "ge_acked q + ge_rejected q = ge_acked (th_gapEvents h) + ge_rejected (th_gapEvents h) + k"
      "ge_table q = ge_table (th_gapEvents h)"
    using flush_loop_conserves [OF f] by blast
  have con: "tp_contract io view (p_cfg (th_tp h))" using log by (simp add: trade_log.simps)
  have rows: "published_rows view H h' w'" "p_cfg p = p_cfg (th_tp h)" if "published_rows view H h w" for H
    using flush_loop_view [OF con _ f, of H] that by (simp_all add: published_rows_def h')
  have "recorded_events E h'" using log k
    by (auto simp: trade_log.simps recorded_events_def eventCount_def h' drop_drop add.commute add.left_commute)
  then show ?thesis using log rows by (auto simp: trade_log.simps h')
qed

lemma recordGap_log:
  assumes log: "trade_log io view mc tr G E (h, w)" and rec: "recordGap io rd g st reason h w = (h', w')"
  shows "trade_log io view mc tr G (E @ [(g, st, reason)]) (h', w') \<and> th_backfill h' = th_backfill h \<and>
    th_idTracker h' = tr \<and> th_cfg h' = th_cfg h"
proof -
  let ?q = "th_gapEvents h"
  let ?row = "buildGapRow (tr_eventNs rd (eventCount h)) g (mc_tpTable (th_cfg h)) st reason"
  let ?h = "h\<lparr>th_gapEvents := ge_push ?row ?q\<rparr>"
  have r: "recorded_events E h" using log by (simp add: trade_log.simps)
  then obtain ts where ts: "length ts = length E"
      "ge_pending ?q = drop (ge_acked ?q + ge_rejected ?q) (event_rows (mc_tpTable (th_cfg h)) ts E)"
    by (auto simp: recorded_events_def)
  have le: "ge_acked ?q + ge_rejected ?q \<le> length E" using r by (simp add: recorded_events_def eventCount_def)
  have "recorded_events (E @ [(g, st, reason)]) ?h"
    unfolding recorded_events_def
  proof (intro conjI exI)
    let ?ts = "ts @ [tr_eventNs rd (eventCount h)]"
    show "length ?ts = length (E @ [(g, st, reason)])" using ts(1) by simp
    show "ge_pending (th_gapEvents ?h) =
        drop (ge_acked (th_gapEvents ?h) + ge_rejected (th_gapEvents ?h)) (event_rows (mc_tpTable (th_cfg ?h)) ?ts (E @ [(g, st, reason)]))"
      using ts le by (simp add: ge_push_def event_rows_snoc)
  qed (use r in \<open>simp_all add: recorded_events_def eventCount_def ge_push_def\<close>)
  then have "trade_log io view mc tr G (E @ [(g, st, reason)]) (?h, w)"
    using log by (auto simp: trade_log.simps published_rows_def)
  from flushGaps_log [OF this, of h' w'] rec show ?thesis by (simp add: recordGap_def)
qed

lemma publish_log:
  assumes log: "trade_log io view mc tr G E (h, w)" and pub: "publish io r (th_fhSeqNo h + 1) (th_tp h) w = Some (ok, p, w')"
    and r: "row_seq r = th_fhSeqNo h + 1" "length r = row_width mc"
    and h': "th_tp h' = p" "th_fhSeqNo h' = th_fhSeqNo h + 1" "th_cfg h' = th_cfg h" "th_idTracker h' = th_idTracker h"
      "th_gapEvents h' = th_gapEvents h"
  shows "trade_log io view mc tr (G @ [row_key r]) E (h', w')"
proof -
  obtain H where H: "published_rows view H h w" "map row_key H = G" using log by (auto simp: trade_log.simps)
  have con: "tp_contract io view (p_cfg (th_tp h))" "th_cfg h = mc" "recorded_events E h" "th_idTracker h = tr"
    using log by (simp_all add: trade_log.simps)
  have rdy: "tp_ready view (th_tp h) H w" "th_fhSeqNo h = int (length H)" using H(1) by (simp_all add: published_rows_def)
  have "publish io r (row_seq r) (th_tp h) w = Some (ok, p, w')" using pub r(1) by simp
  from publish_ready [OF con(1) rdy(1) _ this] r(1) rdy(2)
  have "tp_ready view p (H @ [r]) w'" "p_cfg p = p_cfg (th_tp h)" by simp_all
  moreover from this have "published_rows view (H @ [r]) h' w'"
    using H(1) r con(2) h' by (auto simp: published_rows_def)
  ultimately show ?thesis using H(2) con h'
    by (auto simp: trade_log.simps recorded_events_def eventCount_def intro!: exI [of _ "H @ [r]"])
qed

lemma trade_row_facts:
  "row_seq (buildTradeRow t r sy i p q m e x fp su n) = n" "row_key (buildTradeRow t r sy i p q m e x fp su n) = (sy, i)"
  "length (buildTradeRow t r sy i p q m e x fp su n) = TRADE_ROW_WIDTH"
  "row_seq (buildAggTradeRow t r sy i f l p q nq m e x fp su n) = n"
  "row_key (buildAggTradeRow t r sy i f l p q nq m e x fp su n) = (sy, i)"
  "length (buildAggTradeRow t r sy i f l p q nq m e x fp su n) = AGG_TRADE_ROW_WIDTH"
  by (simp_all add: buildTradeRow_def buildAggTradeRow_def row_seq_def row_key_def TRADE_ROW_WIDTH_def AGG_TRADE_ROW_WIDTH_def)

text \<open>Patching the send latency touches neither the key nor the number.\<close>

lemma trade_row_patch:
  "(buildTradeRow t r sy i p q m e x fp su n)[TRADE_ROW_SEND_US_IDX := KLong s] = buildTradeRow t r sy i p q m e x fp s n"
  "(buildAggTradeRow t r sy i f l p q nq m e x fp su n)[AGG_TRADE_ROW_SEND_US_IDX := KLong s] =
     buildAggTradeRow t r sy i f l p q nq m e x fp s n"
  by (simp_all add: buildTradeRow_def buildAggTradeRow_def TRADE_ROW_SEND_US_IDX_def AGG_TRADE_ROW_SEND_US_IDX_def numeral_eq_Suc)

lemma publishBackfilled_log:
  assumes log: "trade_log io view mc tr G E (h, w)" and pub: "publishBackfilled io rd sy t recvNs h w = Some (h', w')"
  shows "trade_log io view mc tr (G @ [(sy, bt_id t)]) E (h', w')"
proof -
  have mc: "th_cfg h = mc" using log by (simp add: trade_log.simps)
  obtain st rc where st: "stamp recvNs 0 (th_rowClock h) = (st, rc)" by force
  define row where "row = (if mc_schema (th_cfg h) = SpotTrade then
       buildTradeRow (st_timeUtcNs st) recvNs sy (bt_id t) (bt_price t) (bt_qty t) (bt_buyerIsMaker t)
         null_long (bt_tradeTimeMs t) 0 0 (th_fhSeqNo h + 1)
     else
       buildAggTradeRow (st_timeUtcNs st) recvNs sy (bt_id t) (bt_firstTradeId t) (bt_lastTradeId t)
         (bt_price t) (bt_qty t) (bt_qtyExRpi t) (bt_buyerIsMaker t) null_long (bt_tradeTimeMs t) 0 0 (th_fhSeqNo h + 1))"
  have row: "row_seq row = th_fhSeqNo h + 1" "length row = row_width mc" "row_key row = (sy, bt_id t)"
    by (simp_all add: row_def trade_row_facts row_width_def mc)
  obtain ok p where p: "publish io row (th_fhSeqNo h + 1) (th_tp h) w = Some (ok, p, w')"
    and h': "th_tp h' = p" "th_fhSeqNo h' = th_fhSeqNo h + 1" "th_cfg h' = th_cfg h" "th_idTracker h' = th_idTracker h"
      "th_gapEvents h' = th_gapEvents h"
    using pub unfolding publishBackfilled_def st prod.case Let_def row_def [symmetric] by (auto split: option.splits)
  from publish_log [OF log p row(1,2) h'] row(3) show ?thesis by simp
qed

text \<open>The handler is a client of the backfill.\<close>

interpretation trade_client: backfill_client "\<lambda>sy t recvNs (h, w). publishBackfilled io rd sy t recvNs h w"
    "\<lambda>g st reason (h, w). recordGap io rd g st reason h w" "trade_log io view mc tr" for io rd view mc tr
proof
  fix G E s sy t r s'
  assume "trade_log io view mc tr G E s" "(case s of (h, w) \<Rightarrow> publishBackfilled io rd sy t r h w) = Some s'"
  then show "trade_log io view mc tr (G @ [(sy, bt_id t)]) E s'"
    by (cases s; cases s') (auto intro: publishBackfilled_log)
next
  fix G E s g st reason
  assume "trade_log io view mc tr G E s"
  then show "trade_log io view mc tr G (E @ [(g, st, reason)]) (case s of (h, w) \<Rightarrow> recordGap io rd g st reason h w)"
    by (cases s; cases "recordGap io rd g st reason (fst s) (snd s)") (auto dest: recordGap_log)
qed

section \<open>Accounting\<close>

text \<open>\<open>X\<close> are the ids the handler has to account for: each was published once, declared lost once, or is still open.\<close>

definition trade_ok ::
    "'w TpIo \<Rightarrow> ('w \<Rightarrow> TpView) \<Rightarrow> MarketConfig \<Rightarrow> trade_key multiset \<Rightarrow> TradeIdTracker \<Rightarrow> TradeHandler \<Rightarrow> 'w \<Rightarrow> bool" where
  "trade_ok io view mc X tr h w \<longleftrightarrow> bf_ok (th_backfill h) \<and>
     (\<exists>G E. trade_log io view mc tr G E (h, w) \<and> X = mset G + lost_ids E + open_ids (th_backfill h))"

lemma pumpBackfill_ok:
  assumes ok: "trade_ok io view mc X tr h w" and pump: "pumpBackfill io rd env now h w = Some (h', w')"
  shows "trade_ok io view mc X tr h' w'"
proof -
  obtain b h1 where p: "pump (\<lambda>sy t recvNs (h, w). publishBackfilled io rd sy t recvNs h w)
             (\<lambda>g st reason (h, w). recordGap io rd g st reason h w) env now (th_backfill h) (h, w) = Some (b, h1, w')"
    and h': "h' = h1\<lparr>th_backfill := b\<rparr>"
    using pump by (auto simp: pumpBackfill_def split: option.splits)
  obtain G E where log: "bf_ok (th_backfill h)" "trade_log io view mc tr G E (h, w)" "X = mset G + lost_ids E + open_ids (th_backfill h)"
    using ok by (auto simp: trade_ok_def)
  from trade_client.pump_step [OF p log(1), unfolded trade_client.step_ok_def, of view mc tr] log(2)
  obtain D L where d: "bf_ok b" "trade_log io view mc tr (G @ D) (E @ L) (h1, w')"
      "open_ids (th_backfill h) = mset D + lost_ids L + open_ids b"
    by blast
  have "th_idTracker h1 = tr" using d(2) by (simp add: trade_log.simps)
  then have "trade_log io view mc tr (G @ D) (E @ L) (h', w')"
    using trade_log_frame [OF d(2) settles_refl, of h'] by (simp add: h')
  moreover have "X = mset (G @ D) + lost_ids (E @ L) + open_ids (th_backfill h')"
    by (simp add: log(3) d(3) h' ac_simps)
  moreover have "bf_ok (th_backfill h')" using d(1) by (simp add: h')
  ultimately show ?thesis unfolding trade_ok_def by blast
qed

lemma trade_ok_frame:
  assumes "trade_ok io view mc X tr h w" "settles (view w) (view w')" "th_tp h' = th_tp h" "th_cfg h' = th_cfg h"
    "th_fhSeqNo h' = th_fhSeqNo h" "th_gapEvents h' = th_gapEvents h" "th_idTracker h' = th_idTracker h"
    "bf_ok (th_backfill h')" "bf_queue (th_backfill h') = bf_queue (th_backfill h)"
  shows "trade_ok io view mc X tr h' w'"
proof -
  obtain G E where log: "trade_log io view mc tr G E (h, w)" "X = mset G + lost_ids E + open_ids (th_backfill h)"
    using assms(1) by (auto simp: trade_ok_def)
  have "th_idTracker h' = tr" using log(1) assms(7) by (simp add: trade_log.simps)
  then have "trade_log io view mc tr G E (h', w')" using trade_log_frame [OF log(1) assms(2-6)] by simp
  moreover have "open_ids (th_backfill h') = open_ids (th_backfill h)" using assms(9) by (simp add: open_ids_def)
  ultimately show ?thesis using log(2) assms(8) by (auto simp: trade_ok_def)
qed

lemma flushGaps_ok:
  assumes "trade_ok io view mc X tr h w" "flushGaps io h w = (h', w')"
  shows "trade_ok io view mc X tr h' w'"
proof -
  obtain G E where log: "bf_ok (th_backfill h)" "trade_log io view mc tr G E (h, w)" "X = mset G + lost_ids E + open_ids (th_backfill h)"
    using assms(1) by (auto simp: trade_ok_def)
  show ?thesis using flushGaps_log [OF log(2) assms(2)] log by (auto simp: trade_ok_def)
qed

text \<open>A live id above the last one: the ids between them become an open gap.\<close>

definition id_from :: "TradeIdTracker \<Rightarrow> string \<Rightarrow> int \<Rightarrow> int" where
  "id_from tr sy i = (case tr sy of None \<Rightarrow> i | Some p \<Rightarrow> p + 1)"

definition id_rises :: "TradeIdTracker \<Rightarrow> trade_key \<Rightarrow> bool" where
  "id_rises tr k \<longleftrightarrow> (case tr (fst k) of None \<Rightarrow> 0 \<le> snd k | Some p \<Rightarrow> 0 \<le> p \<and> p < snd k)"

lemma validateTradeId_ok:
  assumes ok: "trade_ok io view mc X tr h w" and up: "id_rises tr (sy, i)"
    and val: "validateTradeId io rd sy i h w = (h', w')"
  shows "trade_ok io view mc (X + id_range sy (id_from tr sy i) (i - 1)) (tr(sy \<mapsto> i)) h' w'"
proof -
  obtain G E where log: "bf_ok (th_backfill h)" "trade_log io view mc tr G E (h, w)" "X = mset G + lost_ids E + open_ids (th_backfill h)"
    using ok by (auto simp: trade_ok_def)
  have tr: "th_idTracker h = tr" "th_cfg h = mc" using log(2) by (simp_all add: trade_log.simps)
  obtain r tr' where on: "onId sy i tr = (r, tr')" by force
  consider (first) "tr sy = None" | (order) p where "tr sy = Some p" "i = p + 1" | (gap) p where "tr sy = Some p" "0 \<le> p" "p + 1 < i"
    using up by (force simp: id_rises_def split: option.splits)
  then show ?thesis
  proof cases
    case first
    then have h': "h' = h\<lparr>th_idTracker := tr(sy \<mapsto> i), th_seededSyms := th_seededSyms h - {sy}\<rparr>" "w' = w"
      using val by (auto simp: validateTradeId_def tr onId_def emptyIdResult_def Let_def)
    have "trade_log io view mc (tr(sy \<mapsto> i)) G E (h', w')"
      using trade_log_frame [OF log(2) settles_refl, of h'] by (simp add: h')
    then show ?thesis using log first by (auto simp: trade_ok_def h' id_from_def)
  next
    case order
    then have h': "h' = h\<lparr>th_idTracker := tr(sy \<mapsto> i), th_seededSyms := th_seededSyms h - {sy}\<rparr>" "w' = w"
      using val by (auto simp: validateTradeId_def tr onId_def emptyIdResult_def Let_def)
    have "trade_log io view mc (tr(sy \<mapsto> i)) G E (h', w')"
      using trade_log_frame [OF log(2) settles_refl, of h'] by (simp add: h')
    then show ?thesis using log order by (auto simp: trade_ok_def h' id_from_def)
  next
    case gap
    define g where "g = \<lparr>gap_sym = sy, gap_firstId = p + 1, gap_lastId = i - 1, gap_recovered = 0, gap_through = 0\<rparr>"
    define h1 where "h1 = h\<lparr>th_idTracker := tr(sy \<mapsto> i), th_exchGaps := th_exchGaps h + 1, th_exchMissed := th_exchMissed h + missing g\<rparr>"
    obtain rs h2 w2 where rec: "recordGap io rd g Detected rs h1 w = (h2, w2)"
      and h': "h' = h2\<lparr>th_backfill := addGap g (th_backfill h2), th_seededSyms := th_seededSyms h2 - {sy}\<rparr>" "w' = w2"
      using val gap by (auto simp: validateTradeId_def tr onId_def emptyIdResult_def Let_def h1_def g_def split: prod.splits)
    have "trade_log io view mc (tr(sy \<mapsto> i)) G E (h1, w)"
      using trade_log_frame [OF log(2) settles_refl, of h1] by (simp add: h1_def)
    note rec' = recordGap_log [OF this rec]
    have "trade_log io view mc (tr(sy \<mapsto> i)) G (E @ [(g, Detected, rs)]) (h', w')"
      using trade_log_frame [OF conjunct1 [OF rec'] settles_refl, of h'] rec' by (simp add: h')
    moreover have "bf_ok (addGap g (th_backfill h)) \<and> open_ids (addGap g (th_backfill h)) = open_ids (th_backfill h) + id_range sy (p + 1) (i - 1)"
      using addGap_ok [OF log(1), of g] gap by (simp add: g_def gap_ids_def nextNeededId_def)
    moreover have "th_backfill h' = addGap g (th_backfill h)" using rec' by (simp add: h' h1_def)
    moreover have "X + id_range sy (id_from tr sy i) (i - 1) =
        mset G + lost_ids (E @ [(g, Detected, rs)]) + (open_ids (th_backfill h) + id_range sy (p + 1) (i - 1))"
      using gap(1) by (simp add: log(3) id_from_def ac_simps)
    ultimately show ?thesis unfolding trade_ok_def by metis
  qed
qed

lemma handleTrade_ok:
  assumes ok: "trade_ok io view mc X tr h0 w0" and up: "id_rises tr (te_sym e, te_primaryId e)"
    and hd: "handleTrade io rd e recvNs h0 w0 = Some (h', w')"
  shows "trade_ok io view mc (X + id_range (te_sym e) (id_from tr (te_sym e) (te_primaryId e)) (te_primaryId e))
    (tr(te_sym e \<mapsto> te_primaryId e)) h' w'"
proof -
  let ?sy = "te_sym e" and ?i = "te_primaryId e"
  define h1 where "h1 = (if mc_schema (th_cfg h0) \<noteq> SpotTrade \<and> te_nq e = None then h0\<lparr>th_nqMissing := th_nqMissing h0 + 1\<rparr> else h0)"
  have "th_tp h1 = th_tp h0" "th_cfg h1 = th_cfg h0" "th_fhSeqNo h1 = th_fhSeqNo h0" "th_gapEvents h1 = th_gapEvents h0"
    "th_idTracker h1 = th_idTracker h0" "bf_ok (th_backfill h1)" "th_backfill h1 = th_backfill h0"
    using ok by (simp_all add: h1_def trade_ok_def)
  then have ok1: "trade_ok io view mc X tr h1 w0" using trade_ok_frame [OF ok settles_refl] by simp
  have mc0: "th_cfg h0 = mc" using ok by (auto simp: trade_ok_def trade_log.simps)
  obtain h w where v: "validateTradeId io rd ?sy ?i h1 w0 = (h, w)" by force
  note ok2 = validateTradeId_ok [OF ok1 up v]
  obtain G E where log: "bf_ok (th_backfill h)" "trade_log io view mc (tr(?sy \<mapsto> ?i)) G E (h, w)"
      "X + id_range ?sy (id_from tr ?sy ?i) (?i - 1) = mset G + lost_ids E + open_ids (th_backfill h)"
    using ok2 by (auto simp: trade_ok_def)
  obtain st rc where st: "stamp recvNs (te_eventTimeMs e) (th_rowClock h) = (st, rc)" by force
  define row where "row = (if mc_schema mc = SpotTrade then
               buildTradeRow (st_timeUtcNs st) recvNs ?sy ?i (te_price e) (te_qty e) (te_buyerIsMaker e)
                  (te_eventTimeMs e) (te_tradeTimeMs e) (tr_parseUs rd) (tr_sendUs rd) (th_fhSeqNo h + 1)
             else
               buildAggTradeRow (st_timeUtcNs st) recvNs ?sy ?i (te_firstAggId e) (te_lastAggId e)
                  (te_price e) (te_qty e) (case te_nq e of Some nq \<Rightarrow> nq | None \<Rightarrow> NaN) (te_buyerIsMaker e)
                  (te_eventTimeMs e) (te_tradeTimeMs e) (tr_parseUs rd) (tr_sendUs rd) (th_fhSeqNo h + 1))"
  have row: "row_seq row = th_fhSeqNo h + 1" "length row = row_width mc" "row_key row = (?sy, ?i)"
    by (simp_all add: row_def trade_row_facts row_width_def)
  define h2 where "h2 = (\<lambda>p. h\<lparr>th_rowClock := rc, th_fhSeqNo := th_fhSeqNo h + 1, th_tp := p,
                    th_connState := (if connected p then ''connected'' else ''disconnected''),
                    th_lastPubTime := tr_pubNs rd (th_fhSeqNo h + 1), th_msgsPublished := th_msgsPublished h + 1\<rparr>)"
  have eq: "handleTrade io rd e recvNs h0 w0 = (case publish io row (th_fhSeqNo h + 1) (th_tp h) w of None \<Rightarrow> None
      | Some (okk, p, w1) \<Rightarrow> Some (if ge_pending (th_gapEvents (h2 p)) \<noteq> [] then flushGaps io (h2 p) w1 else (h2 p, w1)))"
    using v unfolding handleTrade_def h1_def mc0 row_def h2_def
    by (cases "mc_schema mc = SpotTrade"; cases "te_nq e") (auto simp: Let_def st trade_row_patch split: option.split)
  obtain okk p w1 where p: "publish io row (th_fhSeqNo h + 1) (th_tp h) w = Some (okk, p, w1)"
    and res: "(if ge_pending (th_gapEvents (h2 p)) \<noteq> [] then flushGaps io (h2 p) w1 else (h2 p, w1)) = (h', w')"
    using hd unfolding eq by (auto split: option.splits)
  have "trade_log io view mc (tr(?sy \<mapsto> ?i)) (G @ [(?sy, ?i)]) E (h2 p, w1)"
    using publish_log [OF log(2) p row(1,2), of "h2 p"] row(3) by (simp add: h2_def)
  moreover have "X + id_range ?sy (id_from tr ?sy ?i) ?i = mset (G @ [(?sy, ?i)]) + lost_ids E + open_ids (th_backfill (h2 p))"
  proof -
    have "id_from tr ?sy ?i \<le> ?i" using up by (auto simp: id_from_def id_rises_def split: option.splits)
    then have "id_range ?sy (id_from tr ?sy ?i) ?i = id_range ?sy (id_from tr ?sy ?i) (?i - 1) + {#(?sy, ?i)#}"
      using id_range_snoc [of "id_from tr ?sy ?i" "?i - 1" ?sy] by simp
    then show ?thesis using log(3) by (simp add: h2_def union_assoc [symmetric])
  qed
  moreover have "bf_ok (th_backfill (h2 p))" using log(1) by (simp add: h2_def)
  ultimately have "trade_ok io view mc (X + id_range ?sy (id_from tr ?sy ?i) ?i) (tr(?sy \<mapsto> ?i)) (h2 p) w1"
    unfolding trade_ok_def by blast
  then show ?thesis using res flushGaps_ok [of io view mc _ _ "h2 p" w1 h' w'] by (auto split: if_splits)
qed

section \<open>The ids of a stream\<close>

text \<open>The tracker after the live ids \<open>ks\<close>, whether each of them was above the last one of its symbol, and the ids
  that have to be accounted for: for each symbol all ids from the first one expected to the last one seen.\<close>

definition track :: "trade_key list \<Rightarrow> TradeIdTracker \<Rightarrow> TradeIdTracker" where
  "track ks tr = fold (\<lambda>(sy, i) t. t(sy \<mapsto> i)) ks tr"

fun ids_rise :: "TradeIdTracker \<Rightarrow> trade_key list \<Rightarrow> bool" where
  "ids_rise tr [] = True"
| "ids_rise tr (k # ks) = (id_rises tr k \<and> ids_rise (tr(fst k \<mapsto> snd k)) ks)"

fun expected_ids :: "TradeIdTracker \<Rightarrow> trade_key list \<Rightarrow> trade_key multiset" where
  "expected_ids tr [] = {#}"
| "expected_ids tr (k # ks) =
     id_range (fst k) (id_from tr (fst k) (snd k)) (snd k) + expected_ids (tr(fst k \<mapsto> snd k)) ks"

lemma track_simps [simp]: "track [] tr = tr" "track (k # ks) tr = track ks (tr(fst k \<mapsto> snd k))"
  by (simp_all add: track_def case_prod_beta)

lemma track_snoc: "track (ks @ [k]) tr = (track ks tr)(fst k \<mapsto> snd k)"
  by (simp add: track_def case_prod_beta)

lemma ids_rise_append: "ids_rise tr (ks @ ks') \<longleftrightarrow> ids_rise tr ks \<and> ids_rise (track ks tr) ks'"
  by (induction ks arbitrary: tr) auto

lemma expected_ids_append: "expected_ids tr (ks @ ks') = expected_ids tr ks + expected_ids (track ks tr) ks'"
  by (induction ks arbitrary: tr) (auto simp: ac_simps)

definition live_ids :: "string \<Rightarrow> trade_key list \<Rightarrow> int list" where
  "live_ids sy ks = map snd (filter (\<lambda>k. fst k = sy) ks)"

lemma live_ids_simps [simp]:
  "live_ids sy [] = []" "live_ids sy (k # ks) = (if fst k = sy then snd k # live_ids sy ks else live_ids sy ks)"
  by (simp_all add: live_ids_def)

lemma id_range_filter: "filter_mset (\<lambda>k. fst k = sy) (id_range s a b) = (if s = sy then id_range s a b else {#})"
  unfolding id_range_def mset_filter [symmetric] filter_map by (simp add: comp_def)

lemma id_range_join: "a \<le> b + 1 \<Longrightarrow> b \<le> c \<Longrightarrow> id_range sy a b + id_range sy (b + 1) c = id_range sy a c"
  using id_range_split [of a "b + 1" c sy] by (cases "b < c") (auto simp: not_less order_antisym)

lemma expected_ids_of:
  "ids_rise tr ks \<Longrightarrow> filter_mset (\<lambda>k. fst k = sy) (expected_ids tr ks) =
     (if live_ids sy ks = [] then {#} else id_range sy (id_from tr sy (hd (live_ids sy ks))) (last (live_ids sy ks))) \<and>
     (live_ids sy ks \<noteq> [] \<longrightarrow> id_from tr sy (hd (live_ids sy ks)) \<le> hd (live_ids sy ks) \<and> hd (live_ids sy ks) \<le> last (live_ids sy ks))"
proof (induction ks arbitrary: tr)
  case (Cons k ks)
  define tr' where "tr' = tr(fst k \<mapsto> snd k)"
  have "ids_rise tr' ks" using Cons.prems by (simp add: tr'_def)
  note ih = conjunct1 [OF Cons.IH [OF this]] conjunct2 [OF Cons.IH [OF this]]
  have from': "id_from tr' sy i = (if fst k = sy then snd k + 1 else id_from tr sy i)" for i
    by (auto simp: id_from_def tr'_def)
  have le: "id_from tr (fst k) (snd k) \<le> snd k" using Cons.prems by (auto simp: id_rises_def id_from_def split: option.splits)
  have ex: "filter_mset (\<lambda>k. fst k = sy) (expected_ids tr (k # ks)) =
      (if fst k = sy then id_range sy (id_from tr sy (snd k)) (snd k) else {#}) + filter_mset (\<lambda>k. fst k = sy) (expected_ids tr' ks)"
    by (simp add: id_range_filter tr'_def)
  show ?case
  proof (cases "fst k = sy")
    case True
    show ?thesis
    proof (cases "live_ids sy ks = []")
      case True
      then show ?thesis using \<open>fst k = sy\<close> ih le unfolding ex by simp
    next
      case False
      then show ?thesis using \<open>fst k = sy\<close> ih le id_range_join [of "id_from tr sy (snd k)" "snd k" "last (live_ids sy ks)" sy]
        unfolding ex from' by simp
    qed
  next
    case False
    then show ?thesis using ih unfolding ex from' by simp
  qed
qed simp

section \<open>The life of the handler\<close>

definition message_keys :: "json_parser \<Rightarrow> TradeSchema \<Rightarrow> string \<Rightarrow> trade_key list" where
  "message_keys parse schema msg =
     (case parse (c_str msg) of Inl e \<Rightarrow> []
      | Inr doc \<Rightarrow> (case parseTrade schema doc of None \<Rightarrow> [] | Some e \<Rightarrow> [(te_sym e, te_primaryId e)]))"

text \<open>\<open>trade_run io parse h1 w1 live h w\<close>: from \<open>h1\<close>, connected and seeded, the handler has come to \<open>h\<close>; \<open>live\<close> are the ids
  of the well-formed messages it has read on the way. The pages the fetching thread gets are arbitrary.\<close>

inductive trade_run ::
    "'w TpIo \<Rightarrow> json_parser \<Rightarrow> TradeHandler \<Rightarrow> 'w \<Rightarrow> trade_key list \<Rightarrow> TradeHandler \<Rightarrow> 'w \<Rightarrow> bool"
  for io parse h1 w1 where
  trading_starts: "trade_run io parse h1 w1 [] h1 w1"
| trade_message: "trade_run io parse h1 w1 live h w \<Longrightarrow> onTradeMessage io rd rdP env nowMs parse msg t h w = Some (h', w') \<Longrightarrow>
    trade_run io parse h1 w1 (live @ message_keys parse (mc_schema (th_cfg h)) msg) h' w'"
| trade_thread: "trade_run io parse h1 w1 live h w \<Longrightarrow>
    trade_run io parse h1 w1 live (h\<lparr>th_backfill := bf_thread f (th_backfill h)\<rparr>) w"
| trade_health: "trade_run io parse h1 w1 live h w \<Longrightarrow> publishTradeHealth io now h w = (h', w') \<Longrightarrow>
    trade_run io parse h1 w1 live h' w'"
| trade_flag: "trade_run io parse h1 w1 live h w \<Longrightarrow> running io (th_tp h) w = (run, w') \<Longrightarrow> trade_run io parse h1 w1 live h w'"
| trade_waited: "trade_run io parse h1 w1 live h w \<Longrightarrow>
    trade_run io parse h1 w1 live h (sleep_loop io (th_tp h) delay slept w)"
| trade_left: "trade_run io parse h1 w1 live h w \<Longrightarrow> trade_run io parse h1 w1 live (tradeConnectionLeft h) w"
| trade_connecting: "trade_run io parse h1 w1 live h w \<Longrightarrow> trade_run io parse h1 w1 live (tradeConnecting h) w"
| trade_up: "trade_run io parse h1 w1 live h w \<Longrightarrow> trade_run io parse h1 w1 live (tradeConnectionUp h) w"
| trade_lost: "trade_run io parse h1 w1 live h w \<Longrightarrow> tradeConnectionLost h = (delay, h') \<Longrightarrow>
    trade_run io parse h1 w1 live h' w"

lemma processTradeMessage_ok:
  assumes ok: "trade_ok io view mc X tr h w" and up: "ids_rise tr (message_keys parse (mc_schema mc) msg)"
    and msg: "processTradeMessage io rd parse msg t h w = Some (h', w')"
  shows "trade_ok io view mc (X + expected_ids tr (message_keys parse (mc_schema mc) msg))
    (track (message_keys parse (mc_schema mc) msg) tr) h' w'"
proof -
  let ?h = "h\<lparr>th_lastMsgTime := t, th_msgsReceived := th_msgsReceived h + 1\<rparr>"
  have mc: "th_cfg h = mc" using ok by (auto simp: trade_ok_def trade_log.simps)
  have bf: "bf_ok (th_backfill h)" using ok by (simp add: trade_ok_def)
  have ok1: "trade_ok io view mc X tr ?h w" using bf by (intro trade_ok_frame [OF ok settles_refl]) simp_all
  have ok2: "trade_ok io view mc X tr (?h\<lparr>th_parseFailures := th_parseFailures ?h + 1\<rparr>) w"
    using bf by (intro trade_ok_frame [OF ok settles_refl]) simp_all
  show ?thesis
  proof (cases "parse (c_str msg)")
    case (Inl e)
    then show ?thesis using msg ok2 by (simp add: processTradeMessage_def message_keys_def Let_def)
  next
    case (Inr doc)
    show ?thesis
    proof (cases "parseTrade (mc_schema mc) doc")
      case None
      then show ?thesis using Inr msg ok2 mc by (simp add: processTradeMessage_def message_keys_def Let_def)
    next
      case (Some e)
      then have "handleTrade io rd e t ?h w = Some (h', w')" using Inr msg mc by (simp add: processTradeMessage_def Let_def)
      from handleTrade_ok [OF ok1 _ this] up Some Inr show ?thesis by (simp add: message_keys_def)
    qed
  qed
qed

lemma publishTradeHealth_ok:
  assumes ok: "trade_ok io view mc X tr h0 w0" and hc: "health_contract io view"
    and pub: "publishTradeHealth io now h0 w0 = (h', w')"
  shows "trade_ok io view mc X tr h' w'"
proof -
  obtain h w where f: "(if ge_pending (th_gapEvents h0) \<noteq> [] then flushGaps io h0 w0 else (h0, w0)) = (h, w)" by force
  have ok1: "trade_ok io view mc X tr h w" using f ok flushGaps_ok [OF ok, of h w] by (auto split: if_splits)
  let ?w1 = "snd (io_async io (p_handle (th_tp h)) ''.u.upd'' [KSym ''health_feed_handler'', KMixed (tradeHealthRow now h)] w)"
  have "settles (view w) (view ?w1)" using hc by (simp add: health_contract_def)
  with sendFhStats_settles [OF hc] have "settles (view w) (view (sendFhStats io (p_handle (th_tp h)) (mc_tpTable (th_cfg h)) (tradeStats h) ?w1))"
    by (blast intro: settles_trans)
  moreover have "h' = h \<and> (w' = w \<or> w' = sendFhStats io (p_handle (th_tp h)) (mc_tpTable (th_cfg h)) (tradeStats h) ?w1)"
    using pub unfolding publishTradeHealth_def f by (auto simp: Let_def split: if_splits)
  ultimately show ?thesis using ok1 trade_ok_frame [OF ok1, of w' h] by (auto simp: trade_ok_def)
qed

lemma trade_run_ok:
  assumes run: "trade_run io parse h1 w1 live h w" and start: "trade_ok io view mc X tr h1 w1"
    and hc: "health_contract io view" and up: "ids_rise tr live"
  shows "trade_ok io view mc (X + expected_ids tr live) (track live tr) h w"
  using run up
proof (induction rule: trade_run.induct)
  case trading_starts
  then show ?case using start by simp
next
  case (trade_message live h w rd rdP env nowMs msg t h' w')
  let ?ks = "message_keys parse (mc_schema (th_cfg h)) msg"
  have ok: "trade_ok io view mc (X + expected_ids tr live) (track live tr) h w" using trade_message by (simp add: ids_rise_append)
  then have mc: "th_cfg h = mc" by (auto simp: trade_ok_def trade_log.simps)
  obtain h2 w2 where m: "processTradeMessage io rd parse msg t h w = Some (h2, w2)"
    and p: "pumpBackfill io rdP env nowMs h2 w2 = Some (h', w')"
    using trade_message.hyps(2) by (auto simp: onTradeMessage_def split: option.splits)
  have "ids_rise (track live tr) ?ks" using trade_message.prems by (simp add: ids_rise_append)
  from pumpBackfill_ok [OF processTradeMessage_ok [OF ok this [unfolded mc] m] p]
  show ?case by (simp add: expected_ids_append mc track_def add.assoc)
next
  case (trade_thread live h w f)
  then have ok: "trade_ok io view mc (X + expected_ids tr live) (track live tr) h w" by simp
  then have "bf_ok (th_backfill h)" by (simp add: trade_ok_def)
  from bf_thread_ok [OF this, of f] show ?case by (intro trade_ok_frame [OF ok settles_refl]) simp_all
next
  case (trade_health live h w now h' w')
  then show ?case using publishTradeHealth_ok [OF _ hc] by blast
next
  case (trade_flag live h w run w')
  then have ok: "trade_ok io view mc (X + expected_ids tr live) (track live tr) h w" by simp
  then have "settles (view w) (view w')" using running_view [OF _ trade_flag.hyps(2)] by (auto simp: trade_ok_def trade_log.simps)
  then show ?case using ok by (intro trade_ok_frame [OF ok]) (simp_all add: trade_ok_def)
next
  case (trade_waited live h w delay slept)
  then have ok: "trade_ok io view mc (X + expected_ids tr live) (track live tr) h w" by simp
  then have "settles (view w) (view (sleep_loop io (th_tp h) delay slept w))"
    using sleep_loop_view by (auto simp: trade_ok_def trade_log.simps)
  then show ?case using ok by (intro trade_ok_frame [OF ok]) (simp_all add: trade_ok_def)
next
  case (trade_left live h w)
  then have ok: "trade_ok io view mc (X + expected_ids tr live) (track live tr) h w" by simp
  then show ?case by (intro trade_ok_frame [OF ok settles_refl]) (simp_all add: tradeConnectionLeft_def trade_ok_def)
next
  case (trade_connecting live h w)
  then have ok: "trade_ok io view mc (X + expected_ids tr live) (track live tr) h w" by simp
  then show ?case by (intro trade_ok_frame [OF ok settles_refl]) (simp_all add: tradeConnecting_def trade_ok_def)
next
  case (trade_up live h w)
  then have ok: "trade_ok io view mc (X + expected_ids tr live) (track live tr) h w" by simp
  then show ?case by (intro trade_ok_frame [OF ok settles_refl]) (simp_all add: tradeConnectionUp_def trade_ok_def)
next
  case (trade_lost live h w delay h')
  then have ok: "trade_ok io view mc (X + expected_ids tr live) (track live tr) h w" by simp
  have "h' = snd (tradeConnectionLost h)" using trade_lost.hyps(2) by simp
  then show ?case using ok by (intro trade_ok_frame [OF ok settles_refl]) (simp_all add: tradeConnectionLost_def trade_ok_def)
qed

section \<open>The start\<close>

text \<open>The question about the table's state does not touch the table.\<close>

definition state_contract :: "'w TpIo \<Rightarrow> ('w \<Rightarrow> TpView) \<Rightarrow> TpPublisherConfig \<Rightarrow> bool" where
  "state_contract io view cfg \<longleftrightarrow>
     (\<forall>h w. settles (view w) (view (snd (io_call io h ''.tp.tradeState'' [KSym (tc_table cfg)] w))))"

lemma tradeState_view:
  assumes con: "tp_contract io view (p_cfg p)" "state_contract io view (p_cfg p)" and ready: "tp_ready view p H w"
    and ret: "tradeState io p w = (st, p', w')"
  shows "tp_ready view p' H w' \<and> p_cfg p' = p_cfg p"
proof (cases "p_handle p \<le> 0")
  case True
  with ret ready show ?thesis by (simp add: tradeState_def Let_def)
next
  case False
  then have lv: "tp_live view p H w" using ready by (simp add: tp_ready_def)
  obtain x w1 where c: "io_call io (p_handle p) ''.tp.tradeState'' [KSym (tc_table (p_cfg p))] w = (x, w1)" by fastforce
  have "settles (view w) (view w1)" using con(2) c unfolding state_contract_def by (metis snd_conv)
  then have l1: "tp_live view p H w1" by (rule tp_live_settles [OF lv])
  show ?thesis
  proof (cases x)
    case None
    let ?w2 = "io_kclose io (p_handle p) w1" and ?p = "p\<lparr>p_handle := -1, p_reconnects := p_reconnects p + 1\<rparr>"
    have "tp_idle view p H ?w2" "tv_known (view ?w2)"
      using tp_live_close [OF l1] contract_kclose [OF con(1), of w1 "p_handle p"] l1
      by (auto simp: tp_live_def loses_def)
    then have "tp_ready view ?p H ?w2" by (simp add: tp_ready_def tp_idle_def tp_base_def p_capacity_def)
    moreover have "p' = ?p" "w' = ?w2" using ret False c None by (simp_all add: tradeState_def Let_def)
    ultimately show ?thesis by simp
  next
    case (Some y)
    then have "p' = p" "w' = w1" using ret False c by (auto simp: tradeState_def Let_def split: kobj.splits)
    with l1 False show ?thesis by (simp add: tp_ready_def tp_live_def)
  qed
qed

text \<open>A backfill that has not started.\<close>

definition untouched :: "TradeHandler \<Rightarrow> TradeHandler \<Rightarrow> bool" where
  "untouched h h' \<longleftrightarrow> th_tp h' = th_tp h \<and> th_cfg h' = th_cfg h \<and> th_fhSeqNo h' = th_fhSeqNo h \<and>
     th_gapEvents h' = th_gapEvents h \<and> asked (th_backfill h') = asked (th_backfill h) \<and>
     pages (th_backfill h') = pages (th_backfill h) \<and> bf_inFlight (th_backfill h') = bf_inFlight (th_backfill h) \<and>
     bf_pc (th_backfill h') = bf_pc (th_backfill h)"

lemma untouched_fold: "(\<And>x h. untouched h (f x h)) \<Longrightarrow> untouched h (fold f xs h)"
  by (induction xs arbitrary: h) (auto simp: untouched_def)

lemma seedState_untouched: "untouched h (seedState st h)"
proof -
  have u: "untouched h h2" if "untouched h h1" "untouched h1 h2" for h1 h2 using that by (simp add: untouched_def)
  have 1: "untouched h (fold (\<lambda>(sy, n) h. h\<lparr>th_idTracker := seed sy n (th_idTracker h), th_seededSyms := insert sy (th_seededSyms h)\<rparr>) xs h)"
    for xs by (rule untouched_fold) (simp add: untouched_def split: prod.split)
  have 2: "untouched h1 (fold (\<lambda>g h. h\<lparr>th_backfill := addGap (resumeGap g) (th_backfill h)\<rparr>) gs h1)" for gs h1
    by (rule untouched_fold) (simp add: untouched_def addGap_def asked_def pages_def)
  show ?thesis
  proof (cases "ts_ok st")
    case True
    show ?thesis unfolding seedState_def Let_def if_P [OF True] by (rule u [OF 1 2])
  next
    case False
    then show ?thesis by (simp add: seedState_def untouched_def)
  qed
qed

definition gaps_ok :: "TradeHandler \<Rightarrow> bool" where
  "gaps_ok h \<longleftrightarrow> (\<forall>j \<in> set (bf_queue (th_backfill h)). 0 < gap_firstId (j_gap j))"

lemma startTrading_ok:
  assumes con: "tp_contract io view (p_cfg (th_tp h0))" "state_contract io view (p_cfg (th_tp h0))"
    and new: "h0 = newTradeHandler syms mc host prt t0"
    and view0: "tv_logged (view w0) = []" "tv_flight (view w0) = []" "\<not> tv_known (view w0)"
    and start: "startTrading io h0 w0 = Some (True, h1, w1)" and gaps: "gaps_ok h1"
  shows "trade_ok io view mc (open_ids (th_backfill h1)) (th_idTracker h1) h1 w1"
proof -
  obtain p wa where c: "connect io (th_fhSeqNo h0 + 1) (th_tp h0) w0 = Some (True, p, wa)"
    using start by (auto simp: startTrading_def split: option.splits bool.splits)
  obtain st p' where s: "tradeState io p wa = (st, p', w1)"
    and h1: "h1 = (let h1 = seedState st (h0\<lparr>th_tp := p'\<rparr>) in h1\<lparr>th_backfill := bf_start (th_backfill h1)\<rparr>)"
    using start c by (auto simp: startTrading_def Let_def split: prod.splits)
  have n: "th_fhSeqNo h0 = 0" "p_handle (th_tp h0) \<le> 0" "th_cfg h0 = mc" "th_gapEvents h0 = newGapEventQueue ''trade_gap''"
      "tp_idle view (th_tp h0) [] w0" "asked (th_backfill h0) = []" "pages (th_backfill h0) = 0" "\<not> bf_inFlight (th_backfill h0)"
      "bf_pc (th_backfill h0) = Idle"
    unfolding new
    by (simp_all add: newTradeHandler_def Let_def newTpPublisher_def tp_idle_def tp_base_def view0 ring_of_def last_n_def numbered_def
        newTradeBackfill_def asked_def pages_def newQueue_def)
  have post: "connect_post view [] (th_tp h0) (True, p, wa)"
    using connect_loop_view [OF con(1), of _ 0 "th_tp h0" w0 _ "[]"] c n by (simp add: connect_def)
  then have rdy: "tp_ready view p [] wa" "p_cfg p = p_cfg (th_tp h0)"
    using connect_post_ready [OF post] post by (simp_all add: connect_post_def)
  have r': "tp_ready view p' [] w1" "p_cfg p' = p_cfg p" using tradeState_view [OF _ _ rdy(1) s] con rdy(2) by simp_all
  let ?h = "seedState st (h0\<lparr>th_tp := p'\<rparr>)"
  have u: "untouched (h0\<lparr>th_tp := p'\<rparr>) ?h" by (rule seedState_untouched)
  have h1': "th_tp h1 = p'" "th_cfg h1 = mc" "th_fhSeqNo h1 = 0" "th_gapEvents h1 = newGapEventQueue ''trade_gap''"
    using u n by (simp_all add: h1 Let_def untouched_def)
  have "bf_ok (th_backfill ?h)" using u gaps n by (simp add: bf_ok_def untouched_def gaps_ok_def h1 Let_def bf_start_def split: if_splits)
  then have "bf_ok (th_backfill h1)" using bf_start_ok u n by (simp add: h1 Let_def untouched_def)
  moreover have "trade_log io view mc (th_idTracker h1) [] [] (h1, w1)"
    using con(1) r' rdy(2) h1'
    by (simp add: trade_log.simps published_rows_def recorded_events_def eventCount_def newGapEventQueue_def event_rows_def)
  ultimately show ?thesis by (auto simp: trade_ok_def intro!: exI [of _ "[]"])
qed

end
