(* ===== verification/Trade_Run.thy ===== *)
theory Trade_Run
  imports Trade_Log "HOL-Library.Code_Target_Nat"
begin

text \<open>
  What the trade handler guarantees over its whole life (\<open>trade_run\<close>), and a run that shows it: the tickerplant
  has logged the trades of symbol \<open>B\<close> up to id 5, the first live trade has id 8, so the ids 6 and 7 are a gap. The
  thread fetches them, and after the trade with id 9 the handler publishes them. The tickerplant's connection
  dies after every second row.
\<close>

section \<open>A run\<close>

definition state_reply :: kobj where
  "state_reply = KMixed [KSyms [''B''], KLongs [5], KSyms [], KLongs [], KLongs [], KLongs [], KLongs []]"

definition seeded_io :: "DyingTp TpIo" where
  "seeded_io = dying_io\<lparr>io_call := (\<lambda>h f args w. if f = ''.tp.tradeState'' then (Some state_reply, w) else io_call dying_io h f args w)\<rparr>"

definition run_market :: MarketConfig where
  "run_market = defaultMarketConfig\<lparr>mc_backfillEnabled := True\<rparr>"

definition run_h0 :: TradeHandler where
  "run_h0 = newTradeHandler [''b''] run_market ''h'' 5010 1000"

lemma run_rnd: "rnd64 (1/10) = 3602879701896397/36028797018963968" "rnd64 (1351079888211148875 / 2251799813685248) = 600"
  by (code_simp, code_simp)

lemmas run_h0_explicit = run_h0_def [unfolded newTradeHandler_def run_market_def defaultMarketConfig_def defaultTpConfig_def
  defaultBackfillConfig_def Let_def newTpPublisher_def newTradeBackfill_def newQueue_def newRowClock_def newScheduler_def
  defaultSchedulerConfig_def newGapEventQueue_def, simplified run_rnd, simplified, simplified run_rnd, simplified]

declare run_h0_explicit [code]

definition run_event :: "int \<Rightarrow> TradeEvent" where
  "run_event i = \<lparr>te_sym = ''B'', te_price = Fin 7, te_qty = Fin 7, te_buyerIsMaker = True, te_eventTimeMs = 5, te_tradeTimeMs = 5,
     te_primaryId = i, te_firstAggId = 0, te_lastAggId = 0, te_nq = None\<rparr>"

definition run_doc :: "int \<Rightarrow> Json" where
  "run_doc i = JObject [(''data'', JObject [(''s'', JString ''B''), (''p'', JString ''7''), (''q'', JString ''7''),
     (''m'', JBool True), (''E'', JInt 5), (''T'', JInt 5), (''t'', JInt i)])]"

definition run_parse :: json_parser where
  "run_parse s = (if s = ''1'' then Inr (run_doc 8) else if s = ''2'' then Inr (run_doc 9) else Inl [])"

lemma run_price: "price_of ''7'' = Some (Fin 7)"
proof -
  have d: "decimal ''7''" "ends_number []" by (simp_all add: decimal_def ends_number_def digit_val_def lower_def)
  have v: "digits_val 10 ''7'' = 7" by (simp add: digits_val_def digit_val_def lower_def)
  show ?thesis using price_of_digits [OF d] by (simp add: v)
qed

lemma run_parseTrade: "i = 8 \<or> i = 9 \<Longrightarrow> parseTrade SpotTrade (run_doc i) = Some (run_event i)"
  by (erule disjE) (simp_all add: parseTrade_def run_doc_def newReader_def obj_def rd_string_def rd_int64_def rd_boolean_def
      rd_priceString_def field_def isInt64_def in_i64_def hasError_def run_price run_event_def)

definition run_rd :: TradeReadings where
  "run_rd = \<lparr>tr_eventNs = (\<lambda>_. 0), tr_pubNs = (\<lambda>_. 0), tr_parseUs = 1, tr_sendUs = 2\<rparr>"

definition run_env :: PumpEnv where
  "run_env = \<lparr>pe_thread = (\<lambda>_. []), pe_fetch = (\<lambda>_ _ _ _. emptyBackfillPage), pe_jitter = (\<lambda>_. 0)\<rparr>"

definition run_page :: BackfillPage where
  "run_page = emptyBackfillPage\<lparr>bp_ok := True, bp_httpStatus := 200,
     bp_trades := [emptyBackfillTrade\<lparr>bt_id := 6\<rparr>, emptyBackfillTrade\<lparr>bt_id := 7\<rparr>]\<rparr>"

definition run_msg :: "int \<Rightarrow> string" where
  "run_msg i = (if i = 8 then ''1'' else ''2'')"

text \<open>The same message without the JSON.\<close>

definition run_live :: "int \<Rightarrow> TradeHandler \<Rightarrow> DyingTp \<Rightarrow> (TradeHandler \<times> DyingTp) option" where
  "run_live i h w =
     (case handleTrade seeded_io run_rd (run_event i) 3 (h\<lparr>th_lastMsgTime := 3, th_msgsReceived := th_msgsReceived h + 1\<rparr>) w of
        None \<Rightarrow> None
      | Some (h', w') \<Rightarrow> pumpBackfill seeded_io run_rd run_env 1 h' w')"

lemma run_keys: "i = 8 \<or> i = 9 \<Longrightarrow> message_keys run_parse SpotTrade (run_msg i) = [(''B'', i)]"
proof -
  assume i: "i = 8 \<or> i = 9"
  then have "run_parse (c_str (run_msg i)) = Inr (run_doc i)" by (auto simp: run_parse_def run_msg_def c_str_def)
  then show ?thesis using run_parseTrade [OF i] by (simp add: message_keys_def) (simp add: run_event_def)
qed

lemma run_onTradeMessage:
  assumes i: "i = 8 \<or> i = 9" and s: "mc_schema (th_cfg h) = SpotTrade"
  shows "onTradeMessage seeded_io run_rd run_rd run_env 1 run_parse (run_msg i) 3 h w = run_live i h w"
proof -
  have "run_parse (c_str (run_msg i)) = Inr (run_doc i)" using i by (auto simp: run_parse_def run_msg_def c_str_def)
  then show ?thesis using run_parseTrade [OF i] s by (simp add: onTradeMessage_def processTradeMessage_def run_live_def Let_def)
qed

definition run_bind ::
    "(TradeHandler \<times> DyingTp) option \<Rightarrow> (TradeHandler \<Rightarrow> DyingTp \<Rightarrow> (TradeHandler \<times> DyingTp) option) \<Rightarrow> (TradeHandler \<times> DyingTp) option" where
  "run_bind x f = (case x of None \<Rightarrow> None | Some (h, w) \<Rightarrow> f h w)"

definition run_work :: "TradeHandler \<Rightarrow> DyingTp \<Rightarrow> (TradeHandler \<times> DyingTp) option" where
  "run_work h w = Some (h\<lparr>th_backfill := bf_thread (\<lambda>_. run_page) (th_backfill h)\<rparr>, w)"

definition run_s1 :: "(TradeHandler \<times> DyingTp) option" where
  "run_s1 = (case startTrading seeded_io run_h0 dying_start of Some (True, h, w) \<Rightarrow> Some (h, w) | _ \<Rightarrow> None)"

definition run_s2 :: "(TradeHandler \<times> DyingTp) option" where
  "run_s2 = run_bind run_s1 (run_live 8)"

definition run_s3 :: "(TradeHandler \<times> DyingTp) option" where
  "run_s3 = run_bind (run_bind (run_bind run_s2 run_work) run_work) run_work"

definition run_s4 :: "(TradeHandler \<times> DyingTp) option" where
  "run_s4 = run_bind run_s3 (run_live 9)"

definition bf_enabled_cap :: "TradeHandler \<Rightarrow> bool \<times> int \<times> int" where
  "bf_enabled_cap h = (let c = bf_cfg (th_backfill h) in (bc_enabled c, bc_maxGapIds c, bc_pageLimit c))"

lemma run_val1: "map_option (\<lambda>(h, w). (th_idTracker h ''B'', mc_schema (th_cfg h), bf_queue (th_backfill h))) run_s1 = Some (Some 5, SpotTrade, [])"
  by code_simp

lemma run_val2: "map_option (\<lambda>(h, w). (bf_enabled_cap h, map br_fromId (asked (th_backfill h)))) run_s2 = Some ((True, 500000, 1000), [6])"
  by code_simp

lemma run_val3: "map_option (\<lambda>(h, w). (mc_schema (th_cfg h), pages (th_backfill h))) run_s3 = Some (SpotTrade, 1)"
  by code_simp

lemma run_val4:
  "map_option (\<lambda>(h, w). (bf_queue (th_backfill h), th_fhSeqNo h, connected (th_tp h), p_rowsUnresendable (th_tp h), p_rowsResent (th_tp h))) run_s4 =
     Some ([], 4, True, 0, 4)"
  by code_simp

lemma run_bindE: "run_bind x f = Some y \<Longrightarrow> (\<And>h w. x = Some (h, w) \<Longrightarrow> f h w = Some y \<Longrightarrow> P) \<Longrightarrow> P"
  by (auto simp: run_bind_def split: option.splits)

lemma run_life:
  obtains h1 w1 h2 w2 h w where "startTrading seeded_io run_h0 dying_start = Some (True, h1, w1)" "th_idTracker h1 ''B'' = Some 5"
    "bf_queue (th_backfill h1) = []" "trade_run seeded_io run_parse h1 w1 [(''B'', 8)] h2 w2" "map br_fromId (asked (th_backfill h2)) = [6]"
    "trade_run seeded_io run_parse h1 w1 [(''B'', 8), (''B'', 9)] h w"
    "bf_queue (th_backfill h) = []" "connected (th_tp h)" "p_rowsUnresendable (th_tp h) = 0" "th_fhSeqNo h = 4"
proof -
  obtain h w where 4: "run_s4 = Some (h, w)" "bf_queue (th_backfill h) = []" "connected (th_tp h)"
      "p_rowsUnresendable (th_tp h) = 0" "th_fhSeqNo h = 4"
    using run_val4 by (cases run_s4) auto
  obtain h3 w3 where 3: "run_s3 = Some (h3, w3)" "run_live 9 h3 w3 = Some (h, w)"
    using 4(1) unfolding run_s4_def by (rule run_bindE)
  have sch3: "mc_schema (th_cfg h3) = SpotTrade" using run_val3 unfolding 3(1) by simp
  obtain h2 w2 where 2: "run_s2 = Some (h2, w2)" "h3 = h2\<lparr>th_backfill := ((bf_thread (\<lambda>_. run_page)) ^^ 3) (th_backfill h2)\<rparr>" "w3 = w2"
    using 3(1) by (auto simp: run_s3_def run_bind_def run_work_def numeral_3_eq_3 split: option.splits)
  obtain h1 w1 where 1: "run_s1 = Some (h1, w1)" "run_live 8 h1 w1 = Some (h2, w2)"
    using 2(1) unfolding run_s2_def by (rule run_bindE)
  have v1: "th_idTracker h1 ''B'' = Some 5" "mc_schema (th_cfg h1) = SpotTrade" "bf_queue (th_backfill h1) = []"
    using run_val1 unfolding 1(1) by simp_all
  have start: "startTrading seeded_io run_h0 dying_start = Some (True, h1, w1)"
    using 1(1) by (auto simp: run_s1_def split: option.splits bool.splits)
  let ?run = "trade_run seeded_io run_parse h1 w1"
  have "?run ([] @ message_keys run_parse (mc_schema (th_cfg h1)) (run_msg 8)) h2 w2"
    by (rule trade_message [OF trading_starts, where rd = run_rd and rdP = run_rd and env = run_env and nowMs = 1 and t = 3]) (simp add: run_onTradeMessage v1(2) 1(2))
  then have r2: "?run [(''B'', 8)] h2 w2" by (simp add: v1(2) run_keys)
  have a2: "map br_fromId (asked (th_backfill h2)) = [6]" using run_val2 unfolding 2(1) by simp
  from trade_thread [OF trade_thread [OF trade_thread [OF r2]], of "\<lambda>_. run_page" "\<lambda>_. run_page" "\<lambda>_. run_page"]
  have "?run [(''B'', 8)] h3 w3" by (simp add: 2(2,3) numeral_3_eq_3)
  then have "?run ([(''B'', 8)] @ message_keys run_parse (mc_schema (th_cfg h3)) (run_msg 9)) h w"
    by (rule trade_message [where rd = run_rd and rdP = run_rd and env = run_env and nowMs = 1 and t = 3]) (simp add: run_onTradeMessage sch3 3(2))
  then have "?run [(''B'', 8), (''B'', 9)] h w" by (simp add: sch3 run_keys)
  from that [OF start v1(1,3) r2 a2 this 4(2-5)] show ?thesis .
qed

lemma seeded_contract: "tc_table cfg \<noteq> ''health_feed_handler'' \<Longrightarrow> tp_contract seeded_io dw_view cfg"
  using dying_contract [of cfg] by (simp add: tp_contract_def Let_def seeded_io_def)

lemma seeded_contracts: "state_contract seeded_io dw_view cfg" "health_contract seeded_io dw_view"
  using dying_health by (simp_all add: state_contract_def health_contract_def seeded_io_def)

lemma run_table: "p_cfg (th_tp run_h0) = (defaultTpConfig\<lparr>tc_host := ''h'', tc_port := 5010, tc_table := ''trade_binance'', tc_width := 12, tc_sessionId := 1000\<rparr>)"
  by (simp add: run_h0_def newTradeHandler_def Let_def newTpPublisher_def run_market_def defaultMarketConfig_def TRADE_ROW_WIDTH_def)

lemma run_contract: "tp_contract seeded_io dw_view (p_cfg (th_tp run_h0))"
  by (rule seeded_contract) (simp add: run_table)

lemma run_view0: "tv_logged (dw_view dying_start) = []" "tv_flight (dw_view dying_start) = []" "\<not> tv_known (dw_view dying_start)"
  by (simp_all add: dying_start_def)

section \<open>Properties\<close>

lemma trade_life:
  assumes con: "tp_contract io view (p_cfg (th_tp h0))" "state_contract io view (p_cfg (th_tp h0))" "health_contract io view"
    and new: "h0 = newTradeHandler syms mc host prt t0"
    and view0: "tv_logged (view w0) = []" "tv_flight (view w0) = []" "\<not> tv_known (view w0)"
    and start: "startTrading io h0 w0 = Some (True, h1, w1)" "gaps_ok h1"
    and run: "trade_run io parse h1 w1 live h w" "ids_rise (th_idTracker h1) live"
  obtains H E where "published_rows view H h w" "recorded_events E h" "bf_ok (th_backfill h)" "th_cfg h = mc"
    "open_ids (th_backfill h1) + expected_ids (th_idTracker h1) live = mset (map row_key H) + lost_ids E + open_ids (th_backfill h)"
proof -
  have "trade_ok io view mc (open_ids (th_backfill h1)) (th_idTracker h1) h1 w1"
    by (rule startTrading_ok [OF con(1,2) new view0 start])
  from trade_run_ok [OF run(1) this con(3) run(2)] show ?thesis
    by (auto simp: trade_ok_def trade_log.simps intro: that)
qed



text \<open>C10: The trade handler's rows are numbered 1, 2, 3, ... without a hole, live and backfilled rows alike, each as
  wide as announced, and all of them are in the tickerplant's log or on the way to it, in order, as long as
  the connection is up and the counter of unresendable rows is zero.\<close>

theorem trade_rows_all_logged:
  assumes "tp_contract io view (p_cfg (th_tp h0))" "state_contract io view (p_cfg (th_tp h0))" "health_contract io view"
    and "h0 = newTradeHandler syms mc host prt t0"
    and "tv_logged (view w0) = []" "tv_flight (view w0) = []" "\<not> tv_known (view w0)"
    and "startTrading io h0 w0 = Some (True, h1, w1)" "gaps_ok h1"
    and "trade_run io parse h1 w1 live h w" "ids_rise (th_idTracker h1) live"
  shows "\<exists>H. numbered H \<and> th_fhSeqNo h = int (length H) \<and> (\<forall>r \<in> set H. int (length r) = tc_width (p_cfg (th_tp h0))) \<and>
    (connected (th_tp h) \<and> p_rowsUnresendable (th_tp h) = 0 \<longrightarrow> tv_logged (view w) @ tv_flight (view w) = H)"
proof (rule trade_life [OF assms])
  fix H E
  assume a: "published_rows view H h w" "th_cfg h = mc"
  have w: "tc_width (p_cfg (th_tp h0)) = int (row_width mc)"
    by (simp add: assms(4) newTradeHandler_def Let_def newTpPublisher_def row_width_def)
  have "tp_base view (th_tp h) H w" using a(1) by (auto simp: published_rows_def tp_ready_def tp_live_def tp_idle_def split: if_splits)
  then have "numbered H" by (simp add: tp_base_def)
  then show ?thesis using a by (intro exI [of _ H]) (auto simp: w published_rows_def tp_ready_def tp_live_def connected_def)
qed

lemma trade_rows_all_logged_witness:
  "\<exists>h1 w1 h w. trade_run seeded_io run_parse h1 w1 [(''B'', 8), (''B'', 9)] h w \<and>
     length (tv_logged (dw_view w) @ tv_flight (dw_view w)) = 4 \<and> numbered (tv_logged (dw_view w) @ tv_flight (dw_view w))"
proof -
  obtain h1 w1 h w where r: "startTrading seeded_io run_h0 dying_start = Some (True, h1, w1)" "th_idTracker h1 ''B'' = Some 5"
    "bf_queue (th_backfill h1) = []" "trade_run seeded_io run_parse h1 w1 [(''B'', 8), (''B'', 9)] h w"
    "connected (th_tp h)" "p_rowsUnresendable (th_tp h) = 0" "th_fhSeqNo h = 4"
    by (rule run_life)
  have g: "gaps_ok h1" "ids_rise (th_idTracker h1) [(''B'', 8), (''B'', 9)]"
    using r(2,3) by (simp_all add: gaps_ok_def id_rises_def)
  from trade_rows_all_logged [OF run_contract seeded_contracts run_h0_def run_view0 r(1) g(1) r(4) g(2)] r(5-7)
  have "length (tv_logged (dw_view w) @ tv_flight (dw_view w)) = 4" "numbered (tv_logged (dw_view w) @ tv_flight (dw_view w))"
    by auto
  with r(4) show ?thesis by blast
qed

text \<open>C9: The backfill never asks for more than it may: at any moment there is at most one request or page under way,
  and a request is for the next ids the oldest gap needs, at most a page of them and none beyond the gap, and only if
  backfill is enabled and the gap is not above the configured cap.\<close>

theorem requests_stay_within_cap:
  assumes "tp_contract io view (p_cfg (th_tp h0))" "state_contract io view (p_cfg (th_tp h0))" "health_contract io view"
    and "h0 = newTradeHandler syms mc host prt t0"
    and "tv_logged (view w0) = []" "tv_flight (view w0) = []" "\<not> tv_known (view w0)"
    and "startTrading io h0 w0 = Some (True, h1, w1)" "gaps_ok h1"
    and "trade_run io parse h1 w1 live h w" "ids_rise (th_idTracker h1) live"
  shows "length (asked (th_backfill h)) + pages (th_backfill h) \<le> 1 \<and>
    (\<forall>rq \<in> set (asked (th_backfill h)). \<exists>j js. bf_queue (th_backfill h) = j # js \<and> br_sym rq = gap_sym (j_gap j) \<and>
       br_fromId rq = nextNeededId (j_gap j) \<and> br_fromId rq \<le> gap_lastId (j_gap j) \<and>
       br_fromId rq + br_limit rq - 1 \<le> gap_lastId (j_gap j) \<and> br_limit rq \<le> bc_pageLimit (bf_cfg (th_backfill h)) \<and>
       bc_enabled (bf_cfg (th_backfill h)) \<and> missing (j_gap j) \<le> bc_maxGapIds (bf_cfg (th_backfill h)))"
proof (rule trade_life [OF assms])
  assume ok: "bf_ok (th_backfill h)"
  have le: "length (asked (th_backfill h)) + pages (th_backfill h) \<le> 1" using ok by (simp add: bf_ok_def split: if_splits)
  have both: "head_ok (th_backfill h) \<and> request_ok (th_backfill h) rq" if "rq \<in> set (asked (th_backfill h))" for rq
  proof -
    have "asked (th_backfill h) \<noteq> []" using that by auto
    then have "bf_inFlight (th_backfill h)" using ok by (auto simp: bf_ok_def split: if_splits)
    then show ?thesis using ok that by (simp add: bf_ok_def)
  qed
  show ?thesis
  proof (intro conjI ballI le)
    fix rq
    assume "rq \<in> set (asked (th_backfill h))"
    note b = both [OF this]
    then obtain j js where q: "bf_queue (th_backfill h) = j # js" by (cases "bf_queue (th_backfill h)") (auto simp: head_ok_def)
    show "\<exists>j js. bf_queue (th_backfill h) = j # js \<and> br_sym rq = gap_sym (j_gap j) \<and>
       br_fromId rq = nextNeededId (j_gap j) \<and> br_fromId rq \<le> gap_lastId (j_gap j) \<and>
       br_fromId rq + br_limit rq - 1 \<le> gap_lastId (j_gap j) \<and> br_limit rq \<le> bc_pageLimit (bf_cfg (th_backfill h)) \<and>
       bc_enabled (bf_cfg (th_backfill h)) \<and> missing (j_gap j) \<le> bc_maxGapIds (bf_cfg (th_backfill h))"
      by (intro exI [of _ j] exI [of _ js]) (use b in \<open>simp add: head_ok_def request_ok_def Let_def q\<close>)
  qed
qed

lemma requests_stay_within_cap_witness:
  "\<exists>h1 w1 h w rq. trade_run seeded_io run_parse h1 w1 [(''B'', 8)] h w \<and> asked (th_backfill h) = [rq] \<and>
     br_fromId rq = 6 \<and> br_fromId rq + br_limit rq - 1 \<le> gap_lastId (j_gap (hd (bf_queue (th_backfill h))))"
proof -
  obtain h1 w1 h w where r: "startTrading seeded_io run_h0 dying_start = Some (True, h1, w1)" "th_idTracker h1 ''B'' = Some 5"
    "bf_queue (th_backfill h1) = []" "trade_run seeded_io run_parse h1 w1 [(''B'', 8)] h w" "map br_fromId (asked (th_backfill h)) = [6]"
    by (rule run_life)
  have g: "gaps_ok h1" "ids_rise (th_idTracker h1) [(''B'', 8)]"
    using r(2,3) by (simp_all add: gaps_ok_def id_rises_def)
  obtain rq where rq: "asked (th_backfill h) = [rq]" "br_fromId rq = 6" using r(5) by auto
  from requests_stay_within_cap [OF run_contract seeded_contracts run_h0_def run_view0 r(1) g(1) r(4) g(2)] rq(1)
  have "br_fromId rq + br_limit rq - 1 \<le> gap_lastId (j_gap (hd (bf_queue (th_backfill h))))" by auto
  with rq r(4) show ?thesis by blast
qed

end
