(* ===== verification/Trade_Loop.thy ===== *)
theory Trade_Loop
  imports Trade_Run
begin

text \<open>
  The control flow of \<open>TradeFeedHandler::run\<close> and \<open>runWebSocketLoop\<close> (\<open>trade_feed_handler.cpp\<close>) as a machine, like
  \<open>Quote_Loop\<close> for the quote handler. Every state of the machine is one of the life \<open>trade_run\<close>, with the ids of the
  messages that the loop has read.
\<close>

section \<open>The machine\<close>

text \<open>Before \<open>connect\<close>; at the test of the outer loop; in the set-up of a connection; at the top of the message loop; in
  \<open>ws.read\<close>; after the message loop; in the handler of an exception; joining the fetching thread; at the end.\<close>

datatype trade_pc = TStart | TTest | TSetup | TTop int | TRead int | TLeft | TCaught | TJoin | TEnd

datatype trade_ev =
    TGo
  | THandshakeDone int
  | TSocketThrows
  | TMessageRead TradeReadings TradeReadings PumpEnv int string int int int
  | TThreadActs "BackfillRequest \<Rightarrow> BackfillPage"

definition tradeHealthDue :: "int \<Rightarrow> int \<Rightarrow> bool" where
  "tradeHealthDue nowNs lastHealthPub \<longleftrightarrow> 5 \<le> (nowNs - lastHealthPub) sdiv 1000000000"

definition t_running :: "'w TpIo \<Rightarrow> TradeHandler \<Rightarrow> 'w \<Rightarrow> bool \<times> 'w" where
  "t_running io h w = running io (th_tp h) w"

definition stopBackfill :: "TradeHandler \<Rightarrow> TradeHandler" where
  "stopBackfill h = h\<lparr>th_backfill := bf_stop (th_backfill h)\<rparr>"

definition tradeAfterThrow :: "'w TpIo \<Rightarrow> TradeHandler \<Rightarrow> 'w \<Rightarrow> trade_pc \<times> TradeHandler \<times> 'w" where
  "tradeAfterThrow io h w =
     (case t_running io h w of (run, w1) \<Rightarrow>
        if \<not> run then (TTest, h, w1)
        else case tradeConnectionLost h of (delay, h1) \<Rightarrow>
          (case t_running io h1 (sleep_loop io (th_tp h1) (nat delay) 0 w1) of (go, w2) \<Rightarrow>
             if go then (TTest, h1, w2) else (TJoin, stopBackfill h1, w2)))"

text \<open>A message that was read, the backfill after it, and the health row that may be due.\<close>

definition tradeAfterRead ::
    "'w TpIo \<Rightarrow> json_parser \<Rightarrow> TradeReadings \<Rightarrow> TradeReadings \<Rightarrow> PumpEnv \<Rightarrow> int \<Rightarrow> string \<Rightarrow> int \<Rightarrow> int \<Rightarrow> int \<Rightarrow> int \<Rightarrow>
      TradeHandler \<Rightarrow> 'w \<Rightarrow> (trade_pc \<times> TradeHandler \<times> 'w) option" where
  "tradeAfterRead io parse rd rdP env nowMs msg recvNs steadyNs wallNs lastHealthPub h w =
     (case onTradeMessage io rd rdP env nowMs parse msg recvNs h w of
        None \<Rightarrow> None
      | Some (h1, w1) \<Rightarrow>
          if tradeHealthDue steadyNs lastHealthPub
          then (case publishTradeHealth io wallNs h1 w1 of (h2, w2) \<Rightarrow> Some (TTop steadyNs, h2, w2))
          else Some (TTop lastHealthPub, h1, w1))"

fun trade_step ::
    "'w TpIo \<Rightarrow> json_parser \<Rightarrow> trade_ev \<Rightarrow> trade_pc \<times> TradeHandler \<times> 'w \<Rightarrow> (trade_pc \<times> TradeHandler \<times> 'w) option" where
  "trade_step io parse (TThreadActs f) (pc, h, w) =
     (if pc = TStart \<or> pc = TEnd then None else Some (pc, h\<lparr>th_backfill := bf_thread f (th_backfill h)\<rparr>, w))"
| "trade_step io parse TGo (TStart, h, w) =
     (case startTrading io h w of None \<Rightarrow> None
      | Some (ok, h1, w1) \<Rightarrow> Some (if ok then TTest else TEnd, h1, w1))"
| "trade_step io parse TGo (TTest, h, w) =
     (case t_running io h w of (run, w1) \<Rightarrow>
        Some (if run then (TSetup, tradeConnecting h, w1) else (TJoin, stopBackfill h, w1)))"
| "trade_step io parse (THandshakeDone now) (TSetup, h, w) = Some (TTop now, tradeConnectionUp h, w)"
| "trade_step io parse TSocketThrows (TSetup, h, w) = Some (TCaught, h, w)"
| "trade_step io parse TGo (TTop lh, h, w) =
     (case t_running io h w of (run, w1) \<Rightarrow> Some (if run then TRead lh else TLeft, h, w1))"
| "trade_step io parse (TMessageRead rd rdP env nowMs msg t steady wall) (TRead lh, h, w) =
     (case t_running io h w of (run, w1) \<Rightarrow>
        if run then tradeAfterRead io parse rd rdP env nowMs msg t steady wall lh h w1 else Some (TLeft, h, w1))"
| "trade_step io parse TSocketThrows (TRead lh, h, w) = Some (TCaught, h, w)"
| "trade_step io parse TGo (TLeft, h, w) = Some (TTest, tradeConnectionLeft h, w)"
| "trade_step io parse TGo (TCaught, h, w) = Some (tradeAfterThrow io h w)"
| "trade_step io parse TGo (TJoin, h, w) =
     (if bf_pc (th_backfill h) = Idle \<or> bf_pc (th_backfill h) = Finished
      then (case close io (th_tp h) w of (p, w1) \<Rightarrow> Some (TEnd, h\<lparr>th_tp := p\<rparr>, w1)) else None)"
| "trade_step io parse _ _ = None"

fun trade_steps ::
    "'w TpIo \<Rightarrow> json_parser \<Rightarrow> trade_ev list \<Rightarrow> trade_pc \<times> TradeHandler \<times> 'w \<Rightarrow> (trade_pc \<times> TradeHandler \<times> 'w) option" where
  "trade_steps io parse [] s = Some s"
| "trade_steps io parse (ev # evs) s =
     (case trade_step io parse ev s of None \<Rightarrow> None | Some s1 \<Rightarrow> trade_steps io parse evs s1)"

section \<open>Every state of the machine is one of the handler's life\<close>

text \<open>The ids of the well-formed messages the loop has read and not thrown away because it was stopped.\<close>

fun step_keys :: "'w TpIo \<Rightarrow> json_parser \<Rightarrow> trade_ev \<Rightarrow> trade_pc \<times> TradeHandler \<times> 'w \<Rightarrow> trade_key list" where
  "step_keys io parse (TMessageRead rd rdP env nowMs msg t steady wall) (pc, h, w) =
     (if fst (t_running io h w) then message_keys parse (mc_schema (th_cfg h)) msg else [])"
| "step_keys io parse _ s = []"

fun steps_keys :: "'w TpIo \<Rightarrow> json_parser \<Rightarrow> trade_ev list \<Rightarrow> trade_pc \<times> TradeHandler \<times> 'w \<Rightarrow> trade_key list" where
  "steps_keys io parse [] s = []"
| "steps_keys io parse (ev # evs) s = step_keys io parse ev s @
     (case trade_step io parse ev s of None \<Rightarrow> [] | Some s1 \<Rightarrow> steps_keys io parse evs s1)"

fun trading :: "trade_pc \<Rightarrow> bool" where
  "trading TStart \<longleftrightarrow> False"
| "trading TJoin \<longleftrightarrow> False"
| "trading TEnd \<longleftrightarrow> False"
| "trading _ \<longleftrightarrow> True"

lemma tradeAfterThrow_life:
  assumes l: "trade_run io parse h1 w1 live h w" and s: "tradeAfterThrow io h w = (pc', h', w')" and pc: "trading pc'"
  shows "trade_run io parse h1 w1 live h' w'"
proof -
  obtain run w2 where r: "running io (th_tp h) w = (run, w2)" by fastforce
  note l1 = trade_run.trade_flag [OF l r]
  obtain delay h2 where d: "tradeConnectionLost h = (delay, h2)" by fastforce
  note l2 = trade_run.trade_lost [OF l1 d]
  let ?w = "sleep_loop io (th_tp h2) (nat delay) 0 w2"
  obtain go w3 where g: "running io (th_tp h2) ?w = (go, w3)" by fastforce
  note l3 = trade_run.trade_flag [OF trade_run.trade_waited [OF l2] g]
  from s pc l1 l3 r d g show ?thesis by (auto simp: tradeAfterThrow_def t_running_def split: if_splits)
qed

lemma tradeAfterRead_life:
  assumes l: "trade_run io parse h1 w1 live h w"
    and s: "tradeAfterRead io parse rd rdP env nowMs msg t steady wall lh h w = Some (pc', h', w')"
  shows "trade_run io parse h1 w1 (live @ message_keys parse (mc_schema (th_cfg h)) msg) h' w'"
proof -
  obtain h2 w2 where m: "onTradeMessage io rd rdP env nowMs parse msg t h w = Some (h2, w2)"
    using s by (auto simp: tradeAfterRead_def split: option.splits)
  note l2 = trade_run.trade_message [OF l m]
  obtain h3 w3 where p: "publishTradeHealth io wall h2 w2 = (h3, w3)" by fastforce
  from s m p l2 trade_run.trade_health [OF l2 p] show ?thesis by (auto simp: tradeAfterRead_def split: if_splits)
qed

lemma trade_step_life:
  assumes l: "trade_run io parse h1 w1 live h w" and s: "trade_step io parse ev (pc, h, w) = Some (pc', h', w')"
    and pc: "trading pc" "trading pc'"
  shows "trade_run io parse h1 w1 (live @ step_keys io parse ev (pc, h, w)) h' w'"
proof -
  obtain run w2 where r: "running io (th_tp h) w = (run, w2)" by fastforce
  note l1 = trade_run.trade_flag [OF l r]
  show ?thesis
  proof (cases ev)
    case TGo
    with s pc r l l1 trade_run.trade_connecting [OF l1] trade_run.trade_left [OF l] tradeAfterThrow_life [OF l]
    show ?thesis by (cases pc) (auto simp: t_running_def split: if_splits)
  next
    case (TMessageRead rd rdP env nowMs msg t steady wall)
    with s pc r l1 tradeAfterRead_life [OF l1] show ?thesis by (cases pc) (auto simp: t_running_def split: if_splits)
  next
    case (THandshakeDone now)
    with s pc trade_run.trade_up [OF l] show ?thesis by (cases pc) auto
  next
    case TSocketThrows
    with s pc l show ?thesis by (cases pc) auto
  next
    case (TThreadActs f)
    with s pc trade_run.trade_thread [OF l] show ?thesis by (cases pc) auto
  qed
qed

text \<open>A loop that is left is not entered again.\<close>

lemma trade_step_back: "trade_step io parse ev (pc, h, w) = Some (pc', h', w') \<Longrightarrow> trading pc' \<Longrightarrow> trading pc \<or> pc = TStart"
  by (cases pc; cases ev) (auto split: if_splits prod.splits)

lemma trade_steps_back: "trade_steps io parse evs (pc, h, w) = Some (pc', h', w') \<Longrightarrow> trading pc' \<Longrightarrow> trading pc \<or> pc = TStart"
proof (induction evs arbitrary: pc h w)
  case (Cons ev evs)
  obtain pc1 h1 w1 where 1: "trade_step io parse ev (pc, h, w) = Some (pc1, h1, w1)" "trade_steps io parse evs (pc1, h1, w1) = Some (pc', h', w')"
    using Cons.prems(1) by (auto split: option.splits)
  have "pc1 \<noteq> TStart" using 1(1) by (cases pc; cases ev) (auto simp: tradeAfterThrow_def tradeAfterRead_def split: if_splits prod.splits option.splits)
  with Cons.IH [OF 1(2) Cons.prems(2)] trade_step_back [OF 1(1)] show ?case by blast
qed simp

lemma trade_steps_life:
  assumes "trade_run io parse h1 w1 live h w" "trade_steps io parse evs (pc, h, w) = Some (pc', h', w')" "trading pc" "trading pc'"
  shows "trade_run io parse h1 w1 (live @ steps_keys io parse evs (pc, h, w)) h' w'"
  using assms
proof (induction evs arbitrary: live pc h w)
  case (Cons ev evs)
  obtain pc2 h2 w2 where 1: "trade_step io parse ev (pc, h, w) = Some (pc2, h2, w2)" "trade_steps io parse evs (pc2, h2, w2) = Some (pc', h', w')"
    using Cons.prems(2) by (auto split: option.splits)
  have "pc2 \<noteq> TStart" using 1(1) Cons.prems(3)
    by (cases pc; cases ev) (auto simp: tradeAfterThrow_def tradeAfterRead_def split: if_splits prod.splits option.splits)
  then have "trading pc2" using trade_steps_back [OF 1(2) Cons.prems(4)] by blast
  with Cons.IH [OF trade_step_life [OF Cons.prems(1) 1(1) Cons.prems(3)] 1(2) _ Cons.prems(4)] 1(1) show ?case by simp
qed simp

section \<open>Property\<close>

text \<open>C13: The loops of \<open>TradeFeedHandler::run\<close> and \<open>runWebSocketLoop\<close> as they are written lead a trade handler's life: \<open>startTrading\<close> succeeds,
  and after any sequence of handshakes, messages, exceptions, waits and actions of the fetching thread, with the flag
  \<open>running_\<close> cleared at any moment, the state is one that \<open>trade_run\<close> reaches for the ids of the messages that the loop
  read and kept, in the order it read them; so the accounting of every id holds of the code's control flow.\<close>

theorem trade_loop_is_a_life:
  assumes "trade_steps io parse evs (TStart, h0, w0) = Some (pc, h, w)" "trading pc"
  shows "\<exists>h1 w1. startTrading io h0 w0 = Some (True, h1, w1) \<and>
    trade_run io parse h1 w1 (steps_keys io parse evs (TStart, h0, w0)) h w"
proof (cases evs)
  case Nil
  with assms show ?thesis by auto
next
  case (Cons ev evs')
  from assms(1) obtain pc1 h1 w1 where 1: "trade_step io parse ev (TStart, h0, w0) = Some (pc1, h1, w1)"
    "trade_steps io parse evs' (pc1, h1, w1) = Some (pc, h, w)" by (auto simp: Cons split: option.splits)
  have g: "ev = TGo" "pc1 \<noteq> TStart" using 1(1) by (cases ev; auto split: option.splits if_splits)+
  have t: "trading pc1" using trade_steps_back [OF 1(2) assms(2)] g(2) by blast
  then have s: "startTrading io h0 w0 = Some (True, h1, w1)" using 1(1) g(1) by (auto split: option.splits if_splits)
  from trade_steps_life [OF trading_starts 1(2) t assms(2)] s 1(1) g(1) show ?thesis by (auto simp: Cons)
qed

definition trade_loop_events :: "trade_ev list" where
  "trade_loop_events = [TGo, TGo, THandshakeDone 1, TGo]"

definition trade_loop_mid :: "(trade_pc \<times> TradeHandler \<times> DyingTp) option" where
  "trade_loop_mid = trade_steps seeded_io run_parse trade_loop_events (TStart, run_h0, dying_start)"

definition trade_loop_read :: trade_ev where
  "trade_loop_read = TMessageRead run_rd run_rd run_env 1 (run_msg 8) 3 0 0"

definition trade_loop_live :: "TradeHandler \<Rightarrow> DyingTp \<Rightarrow> bool" where
  "trade_loop_live h w = (case t_running seeded_io h w of (run, w1) \<Rightarrow> run \<and> run_live 8 h w1 \<noteq> None)"

lemma trade_loop_mid_val:
  "map_option (\<lambda>(pc, h, w). (pc, mc_schema (th_cfg h), trade_loop_live h w)) trade_loop_mid = Some (TRead 1, SpotTrade, True)"
  by code_simp

lemma trade_steps_append:
  "trade_steps io parse (xs @ ys) s = (case trade_steps io parse xs s of None \<Rightarrow> None | Some s1 \<Rightarrow> trade_steps io parse ys s1)"
  by (induction xs arbitrary: s) (auto split: option.split)

lemma steps_keys_append:
  "trade_steps io parse xs s = Some s1 \<Longrightarrow> steps_keys io parse (xs @ ys) s = steps_keys io parse xs s @ steps_keys io parse ys s1"
  by (induction xs arbitrary: s) (auto split: option.splits)

lemma trade_loop_is_a_life_witness:
  "\<exists>h1 w1 h w. startTrading seeded_io run_h0 dying_start = Some (True, h1, w1) \<and>
     trade_run seeded_io run_parse h1 w1 [(''B'', 8)] h w"
proof -
  obtain h w where m: "trade_steps seeded_io run_parse trade_loop_events (TStart, run_h0, dying_start) = Some (TRead 1, h, w)"
    and v: "mc_schema (th_cfg h) = SpotTrade" "trade_loop_live h w"
    using trade_loop_mid_val by (auto simp: trade_loop_mid_def)
  obtain w' h2 w2 where r: "t_running seeded_io h w = (True, w')" "run_live 8 h w' = Some (h2, w2)"
    using v(2) by (auto simp: trade_loop_live_def split: prod.splits)
  obtain pc3 h3 w3 where e: "trade_step seeded_io run_parse trade_loop_read (TRead 1, h, w) = Some (pc3, h3, w3)" "trading pc3"
    using r v(1) by (cases "publishTradeHealth seeded_io 0 h2 w2"; cases "tradeHealthDue 0 1")
      (auto simp: trade_loop_read_def tradeAfterRead_def run_onTradeMessage)
  have s: "trade_steps seeded_io run_parse (trade_loop_events @ [trade_loop_read]) (TStart, run_h0, dying_start) = Some (pc3, h3, w3)"
    by (simp add: trade_steps_append m e)
  have "steps_keys seeded_io run_parse trade_loop_events (TStart, run_h0, dying_start) = []"
    by (simp add: trade_loop_events_def split: option.split)
  then have k: "steps_keys seeded_io run_parse (trade_loop_events @ [trade_loop_read]) (TStart, run_h0, dying_start) = [(''B'', 8)]"
    using r v(1) e by (simp add: steps_keys_append [OF m]) (simp add: trade_loop_read_def run_keys)
  from trade_loop_is_a_life [OF s e(2)] k show ?thesis by auto
qed

end
