(* ===== verification/Feed_Config.thy ===== *)
theory Feed_Config
  imports Rest_Client Market_Config
begin

text \<open>
  \<open>cpp/include/config.hpp\<close> (reading the two JSON files), the market wiring of \<open>cpp/include/quote_fh_main_common.hpp\<close>,
  \<open>cpp/src/trade_fh_main.cpp\<close> and \<open>cpp/src/trade_fh_fut_main.cpp\<close>, and what the four programs do with it up to
  the handler they start.

  The file system is an argument: \<open>files p\<close> is the content of file \<open>p\<close>, \<open>None\<close> when it cannot be opened. So is the
  environment variable \<open>T2S_SHARED_CONFIG\<close>. The object under construction is threaded through; a failed load leaves it
  half changed, as in the code. The messages on the console are left out.
\<close>

section \<open>The configuration\<close>

record FeedHandlerConfig =
  fc_symbols :: "string list"
  fc_tpHost :: string
  fc_tpPort :: int
  fc_initialBackoffMs :: int
  fc_maxBackoffMs :: int
  fc_marketHost :: string
  fc_marketPort :: string
  fc_marketStreamSuffix :: string
  fc_marketTpTable :: string
  fc_marketSchema :: string
  fc_hasMarketBlock :: bool
  fc_backfillEnabled :: bool
  fc_backfillRestHost :: string
  fc_backfillRestPath :: string
  fc_backfillWeight :: int
  fc_backfillWeightLimit :: int
  fc_backfillMaxGapIds :: int
  fc_marketPathPrefix :: string
  fc_restHost :: string
  fc_restPort :: string
  fc_restPath :: string
  fc_snapshotLimit :: int
  fc_snapshotWeight :: int
  fc_weightLimitPerMin :: int
  fc_quoteDepth :: int
  fc_sharedConfigPath :: string
  fc_clockLagMs :: int
  fc_logLevel :: string
  fc_logFile :: string

definition defaultFeedConfig :: FeedHandlerConfig where
  "defaultFeedConfig = \<lparr>fc_symbols = [], fc_tpHost = ''localhost'', fc_tpPort = 5010, fc_initialBackoffMs = 1000,
     fc_maxBackoffMs = 8000, fc_marketHost = ''stream.binance.com'', fc_marketPort = ''9443'',
     fc_marketStreamSuffix = ''@trade'', fc_marketTpTable = ''trade_binance'', fc_marketSchema = ''spot_trade'',
     fc_hasMarketBlock = False, fc_backfillEnabled = False, fc_backfillRestHost = [], fc_backfillRestPath = [],
     fc_backfillWeight = 0, fc_backfillWeightLimit = 0, fc_backfillMaxGapIds = 500000, fc_marketPathPrefix = [],
     fc_restHost = [], fc_restPort = ''443'', fc_restPath = [], fc_snapshotLimit = 0, fc_snapshotWeight = 0,
     fc_weightLimitPerMin = 0, fc_quoteDepth = 5, fc_sharedConfigPath = [], fc_clockLagMs = 2000,
     fc_logLevel = ''info'', fc_logFile = []\<rparr>"

definition MIN_CLOCK_LAG_MS :: int where "MIN_CLOCK_LAG_MS = 100"
definition MAX_CLOCK_LAG_MS :: int where "MAX_CLOCK_LAG_MS = 3600000"
definition MIN_QUOTE_DEPTH :: int where "MIN_QUOTE_DEPTH = 1"
definition MAX_QUOTE_DEPTH :: int where "MAX_QUOTE_DEPTH = 50"

section \<open>The shared file\<close>

text \<open>The directory of a path: what is before its last slash.\<close>

definition dir_of :: "string \<Rightarrow> string" where
  "dir_of p = (if CHR ''/'' \<in> set p then rev (tl (dropWhile (\<lambda>c. c \<noteq> CHR ''/'') (rev p))) else ''.'')"

definition sharedPathFor :: "string option \<Rightarrow> string \<Rightarrow> string" where
  "sharedPathFor env handlerConfigPath =
     (case env of
        Some p \<Rightarrow> if p \<noteq> [] then p else dir_of handlerConfigPath @ ''/shared.json''
      | None \<Rightarrow> dir_of handlerConfigPath @ ''/shared.json'')"

text \<open>The loop over \<open>symbols\<close>: false at the first that is not a non-empty string.\<close>

fun loadSymbols :: "Json list \<Rightarrow> FeedHandlerConfig \<Rightarrow> bool \<times> FeedHandlerConfig" where
  "loadSymbols [] c = (True, c)"
| "loadSymbols (v # vs) c =
     (case v of
        JString s \<Rightarrow> if s = [] then (False, c) else loadSymbols vs (c\<lparr>fc_symbols := fc_symbols c @ [map lower (c_str s)]\<rparr>)
      | _ \<Rightarrow> (False, c))"

definition loadDepth :: "(string \<times> Json) list \<Rightarrow> FeedHandlerConfig \<Rightarrow> bool \<times> FeedHandlerConfig" where
  "loadDepth ms c =
     (case map_of ms ''quote_depth'' of
        Some (JInt n) \<Rightarrow>
          if isInt (JInt n) then (MIN_QUOTE_DEPTH \<le> n \<and> n \<le> MAX_QUOTE_DEPTH, c\<lparr>fc_quoteDepth := n\<rparr>) else (False, c)
      | _ \<Rightarrow> (False, c))"

definition loadClockLag :: "(string \<times> Json) list \<Rightarrow> FeedHandlerConfig \<Rightarrow> bool \<times> FeedHandlerConfig" where
  "loadClockLag ms c =
     (case map_of ms ''clock_lag_ms'' of
        None \<Rightarrow> (True, c)
      | Some (JInt n) \<Rightarrow>
          if isInt64 (JInt n) then (MIN_CLOCK_LAG_MS \<le> n \<and> n \<le> MAX_CLOCK_LAG_MS, c\<lparr>fc_clockLagMs := n\<rparr>) else (False, c)
      | Some _ \<Rightarrow> (False, c))"

definition loadShared ::
    "json_parser \<Rightarrow> (string \<Rightarrow> string option) \<Rightarrow> string option \<Rightarrow> string \<Rightarrow> FeedHandlerConfig \<Rightarrow> bool \<times> FeedHandlerConfig" where
  "loadShared parse files env handlerConfigPath c0 =
     (let c = c0\<lparr>fc_sharedConfigPath := sharedPathFor env handlerConfigPath\<rparr>
      in case files (fc_sharedConfigPath c) of None \<Rightarrow> (False, c)
         | Some content \<Rightarrow>
             (case parse (c_str content) of
                Inr (JObject ms) \<Rightarrow>
                  (case map_of ms ''symbols'' of
                     Some (JArray (v # vs)) \<Rightarrow>
                       (case loadSymbols (v # vs) (c\<lparr>fc_symbols := []\<rparr>) of
                          (False, c1) \<Rightarrow> (False, c1)
                        | (True, c1) \<Rightarrow>
                            (case loadDepth ms c1 of (False, c2) \<Rightarrow> (False, c2) | (True, c2) \<Rightarrow> loadClockLag ms c2))
                   | _ \<Rightarrow> (False, c))
              | _ \<Rightarrow> (False, c)))"

section \<open>The handler's own file\<close>

text \<open>An optional field: it is stored when it is there with the right type, and ignored otherwise.\<close>

definition opt_str :: "(string \<times> Json) list \<Rightarrow> string \<Rightarrow> (string \<Rightarrow> 'c \<Rightarrow> 'c) \<Rightarrow> 'c \<Rightarrow> 'c" where
  "opt_str ms k upd c = (case map_of ms k of Some (JString s) \<Rightarrow> upd (c_str s) c | _ \<Rightarrow> c)"

definition opt_int :: "(string \<times> Json) list \<Rightarrow> string \<Rightarrow> (int \<Rightarrow> 'c \<Rightarrow> 'c) \<Rightarrow> 'c \<Rightarrow> 'c" where
  "opt_int ms k upd c = (case map_of ms k of Some (JInt n) \<Rightarrow> if isInt (JInt n) then upd n c else c | _ \<Rightarrow> c)"

definition opt_int64 :: "(string \<times> Json) list \<Rightarrow> string \<Rightarrow> (int \<Rightarrow> 'c \<Rightarrow> 'c) \<Rightarrow> 'c \<Rightarrow> 'c" where
  "opt_int64 ms k upd c = (case map_of ms k of Some (JInt n) \<Rightarrow> if isInt64 (JInt n) then upd n c else c | _ \<Rightarrow> c)"

text \<open>A block: its members when it is an object.\<close>

definition block :: "(string \<times> Json) list \<Rightarrow> string \<Rightarrow> (string \<times> Json) list option" where
  "block doc k = (case map_of doc k of Some (JObject ms) \<Rightarrow> Some ms | _ \<Rightarrow> None)"

definition loadTickerplant :: "(string \<times> Json) list \<Rightarrow> FeedHandlerConfig \<Rightarrow> FeedHandlerConfig" where
  "loadTickerplant doc c = (case block doc ''tickerplant'' of None \<Rightarrow> c
     | Some tp \<Rightarrow> opt_int tp ''port'' (\<lambda>n c. c\<lparr>fc_tpPort := n\<rparr>) (opt_str tp ''host'' (\<lambda>s c. c\<lparr>fc_tpHost := s\<rparr>) c))"

definition loadReconnect :: "(string \<times> Json) list \<Rightarrow> FeedHandlerConfig \<Rightarrow> FeedHandlerConfig" where
  "loadReconnect doc c = (case block doc ''reconnect'' of None \<Rightarrow> c
     | Some rc \<Rightarrow> opt_int rc ''max_backoff_ms'' (\<lambda>n c. c\<lparr>fc_maxBackoffMs := n\<rparr>)
         (opt_int rc ''initial_backoff_ms'' (\<lambda>n c. c\<lparr>fc_initialBackoffMs := n\<rparr>) c))"

definition loadMarket :: "(string \<times> Json) list \<Rightarrow> FeedHandlerConfig \<Rightarrow> FeedHandlerConfig" where
  "loadMarket doc c0 = (case block doc ''market'' of None \<Rightarrow> c0
     | Some m \<Rightarrow>
         (let c1 = c0\<lparr>fc_hasMarketBlock := True\<rparr>;
              c2 = opt_str m ''path_prefix'' (\<lambda>s c. c\<lparr>fc_marketPathPrefix := s\<rparr>) c1;
              c3 = opt_str m ''rest_host'' (\<lambda>s c. c\<lparr>fc_restHost := s\<rparr>) c2;
              c4 = opt_str m ''rest_port'' (\<lambda>s c. c\<lparr>fc_restPort := s\<rparr>) c3;
              c5 = opt_str m ''rest_path'' (\<lambda>s c. c\<lparr>fc_restPath := s\<rparr>) c4;
              c6 = opt_int m ''snapshot_limit'' (\<lambda>n c. c\<lparr>fc_snapshotLimit := n\<rparr>) c5;
              c7 = opt_int m ''snapshot_weight'' (\<lambda>n c. c\<lparr>fc_snapshotWeight := n\<rparr>) c6;
              c8 = opt_int m ''weight_limit_per_min'' (\<lambda>n c. c\<lparr>fc_weightLimitPerMin := n\<rparr>) c7;
              c9 = opt_str m ''host'' (\<lambda>s c. c\<lparr>fc_marketHost := s\<rparr>) c8;
              c10 = opt_str m ''port'' (\<lambda>s c. c\<lparr>fc_marketPort := s\<rparr>) c9;
              c11 = opt_str m ''stream_suffix'' (\<lambda>s c. c\<lparr>fc_marketStreamSuffix := s\<rparr>) c10;
              c12 = opt_str m ''tp_table'' (\<lambda>s c. c\<lparr>fc_marketTpTable := s\<rparr>) c11
          in opt_str m ''schema'' (\<lambda>s c. c\<lparr>fc_marketSchema := s\<rparr>) c12))"

definition loadBackfill :: "(string \<times> Json) list \<Rightarrow> FeedHandlerConfig \<Rightarrow> bool \<times> FeedHandlerConfig" where
  "loadBackfill doc c0 = (case block doc ''backfill'' of None \<Rightarrow> (True, c0)
     | Some b \<Rightarrow>
         (let c1 = c0\<lparr>fc_backfillEnabled := (map_of b ''enabled'' \<noteq> Some (JBool False))\<rparr>;
              c2 = opt_str b ''rest_host'' (\<lambda>s c. c\<lparr>fc_backfillRestHost := s\<rparr>) c1;
              c3 = opt_str b ''rest_path'' (\<lambda>s c. c\<lparr>fc_backfillRestPath := s\<rparr>) c2;
              c4 = opt_int b ''request_weight'' (\<lambda>n c. c\<lparr>fc_backfillWeight := n\<rparr>) c3;
              c5 = opt_int b ''weight_limit_per_min'' (\<lambda>n c. c\<lparr>fc_backfillWeightLimit := n\<rparr>) c4;
              c = opt_int64 b ''max_gap_ids'' (\<lambda>n c. c\<lparr>fc_backfillMaxGapIds := n\<rparr>) c5
          in (\<not> (fc_backfillEnabled c \<and> (fc_backfillRestHost c = [] \<or> fc_backfillRestPath c = [] \<or>
                 fc_backfillWeight c \<le> 0 \<or> fc_backfillWeightLimit c \<le> 0 \<or> fc_backfillMaxGapIds c \<le> 0)), c)))"

definition loadLogging :: "(string \<times> Json) list \<Rightarrow> FeedHandlerConfig \<Rightarrow> FeedHandlerConfig" where
  "loadLogging doc c = (case block doc ''logging'' of None \<Rightarrow> c
     | Some lg \<Rightarrow> opt_str lg ''file'' (\<lambda>s c. c\<lparr>fc_logFile := s\<rparr>) (opt_str lg ''level'' (\<lambda>s c. c\<lparr>fc_logLevel := s\<rparr>) c))"

text \<open>
  \<open>load\<close>. The parsed document is asked for a member before anyone looks whether it is an object: RapidJSON asserts
  there, and the program aborts. That is the result \<open>None\<close>.
\<close>

definition load_config ::
    "json_parser \<Rightarrow> (string \<Rightarrow> string option) \<Rightarrow> string option \<Rightarrow> string \<Rightarrow> FeedHandlerConfig \<Rightarrow> (bool \<times> FeedHandlerConfig) option" where
  "load_config parse files env filepath c =
     (case files filepath of None \<Rightarrow> Some (False, c)
      | Some content \<Rightarrow>
          (case parse (c_str content) of
             Inl e \<Rightarrow> Some (False, c)
           | Inr (JObject doc) \<Rightarrow>
               if map_of doc ''symbols'' \<noteq> None then Some (False, c)
               else (case loadShared parse files env filepath c of
                       (False, c1) \<Rightarrow> Some (False, c1)
                     | (True, c1) \<Rightarrow>
                         (case loadBackfill doc (loadMarket doc (loadReconnect doc (loadTickerplant doc c1))) of
                            (False, c2) \<Rightarrow> Some (False, c2)
                          | (True, c2) \<Rightarrow> Some (True, loadLogging doc c2)))
           | Inr _ \<Rightarrow> None))"

section \<open>The programs\<close>

definition buildTradeMarket :: "FeedHandlerConfig \<Rightarrow> MarketConfig" where
  "buildTradeMarket c =
     (let m = defaultMarketConfig\<lparr>mc_host := fc_marketHost c, mc_port := fc_marketPort c, mc_streamSuffix := fc_marketStreamSuffix c,
            mc_tpTable := fc_marketTpTable c,
            mc_schema := (if fc_marketSchema c = ''futures_agg_trade'' then FuturesAggTrade else SpotTrade),
            mc_clockLagMs := fc_clockLagMs c, mc_backfillEnabled := fc_backfillEnabled c\<rparr>
      in if fc_backfillEnabled c then
           m\<lparr>mc_backfillRestHost := fc_backfillRestHost c, mc_backfillRestPath := fc_backfillRestPath c,
             mc_backfillWeight := fc_backfillWeight c, mc_backfillWeightLimit := fc_backfillWeightLimit c,
             mc_backfillMaxGapIds := fc_backfillMaxGapIds c\<rparr>
         else m)"

text \<open>\<open>None\<close> is a configuration the quote programs refuse.\<close>

definition buildQuoteMarket :: "FeedHandlerConfig \<Rightarrow> QuoteMarketConfig option" where
  "buildQuoteMarket c =
     (if \<not> fc_hasMarketBlock c then None
      else case (if fc_marketSchema c = ''spot_depth'' then Some Spot
                 else if fc_marketSchema c = ''futures_depth'' then Some Futures else None) of
        None \<Rightarrow> None
      | Some sync \<Rightarrow>
          if fc_restHost c = [] \<or> fc_restPath c = [] then None
          else if fc_snapshotLimit c \<le> 0 \<or> fc_snapshotWeight c \<le> 0 \<or> fc_weightLimitPerMin c \<le> 0 then None
          else Some \<lparr>qm_wsHost = fc_marketHost c, qm_wsPort = fc_marketPort c, qm_wsPathPrefix = fc_marketPathPrefix c,
            qm_streamSuffix = fc_marketStreamSuffix c, qm_restHost = fc_restHost c, qm_restPort = fc_restPort c,
            qm_restPath = fc_restPath c, qm_snapshotLimit = fc_snapshotLimit c, qm_snapshotWeight = fc_snapshotWeight c,
            qm_weightLimitPerMin = fc_weightLimitPerMin c, qm_tpTable = fc_marketTpTable c,
            qm_healthName = (if sync = Futures then ''quote_fh_fut'' else ''quote_fh''), qm_sync = sync,
            qm_depth = fc_quoteDepth c, qm_publishTransactTime = (sync = Futures), qm_clockLagMs = fc_clockLagMs c\<rparr>)"

text \<open>What a program does: it aborts on an assertion, exits with a code, or runs a handler with these arguments.\<close>

datatype 'm Outcome = Aborts | Exits int | Runs "string list" 'm string int

definition quote_main ::
    "json_parser \<Rightarrow> (string \<Rightarrow> string option) \<Rightarrow> string option \<Rightarrow> string \<Rightarrow> string option \<Rightarrow> string \<Rightarrow> QuoteMarketConfig Outcome" where
  "quote_main parse files env defaultPath arg requiredSchema =
     (case load_config parse files env (case arg of Some p \<Rightarrow> p | None \<Rightarrow> defaultPath) defaultFeedConfig of
        None \<Rightarrow> Aborts
      | Some (False, c) \<Rightarrow> Exits 1
      | Some (True, c) \<Rightarrow>
          if fc_marketSchema c \<noteq> requiredSchema then Exits 1
          else case buildQuoteMarket c of None \<Rightarrow> Exits 1
            | Some m \<Rightarrow> Runs (fc_symbols c) m (fc_tpHost c) (fc_tpPort c))"

definition trade_main ::
    "json_parser \<Rightarrow> (string \<Rightarrow> string option) \<Rightarrow> string option \<Rightarrow> string \<Rightarrow> string option \<Rightarrow> MarketConfig Outcome" where
  "trade_main parse files env defaultPath arg =
     (case load_config parse files env (case arg of Some p \<Rightarrow> p | None \<Rightarrow> defaultPath) defaultFeedConfig of
        None \<Rightarrow> Aborts
      | Some (False, c) \<Rightarrow> Exits 1
      | Some (True, c) \<Rightarrow>
          if fc_symbols c = [] then Exits 1
          else Runs (fc_symbols c) (buildTradeMarket c) (fc_tpHost c) (fc_tpPort c))"

text \<open>The four programs: their default files, and the market the two quote programs insist on. The futures trade program
  only warns when its file selects another market.\<close>

definition quote_fh_main :: "json_parser \<Rightarrow> (string \<Rightarrow> string option) \<Rightarrow> string option \<Rightarrow> string option \<Rightarrow> QuoteMarketConfig Outcome" where
  "quote_fh_main parse files env arg = quote_main parse files env ''config/quote_feed_handler.json'' arg ''spot_depth''"

definition quote_fh_fut_main :: "json_parser \<Rightarrow> (string \<Rightarrow> string option) \<Rightarrow> string option \<Rightarrow> string option \<Rightarrow> QuoteMarketConfig Outcome" where
  "quote_fh_fut_main parse files env arg = quote_main parse files env ''config/quote_feed_handler_fut.json'' arg ''futures_depth''"

definition trade_fh_main :: "json_parser \<Rightarrow> (string \<Rightarrow> string option) \<Rightarrow> string option \<Rightarrow> string option \<Rightarrow> MarketConfig Outcome" where
  "trade_fh_main parse files env arg = trade_main parse files env ''config/trade_feed_handler.json'' arg"

definition trade_fh_fut_main :: "json_parser \<Rightarrow> (string \<Rightarrow> string option) \<Rightarrow> string option \<Rightarrow> string option \<Rightarrow> MarketConfig Outcome" where
  "trade_fh_fut_main parse files env arg = trade_main parse files env ''config/trade_feed_handler_fut.json'' arg"

text \<open>The exit code once \<open>run\<close> has returned: 2 when the tickerplant refused the handler.\<close>

definition exit_code :: "string \<Rightarrow> int" where
  "exit_code fatalError = (if fatalError \<noteq> [] then 2 else 0)"

section \<open>What a loaded configuration satisfies\<close>

lemma opt_frame:
  "(\<And>s c. f (us s c) = f c) \<Longrightarrow> f (opt_str ms k us c) = f c"
  "(\<And>n c. f (ui n c) = f c) \<Longrightarrow> f (opt_int ms k ui c) = f c"
  "(\<And>n c. f (ui n c) = f c) \<Longrightarrow> f (opt_int64 ms k ui c) = f c"
  by (auto simp: opt_str_def opt_int_def opt_int64_def split: option.split Json.split)

lemmas opt_frames = opt_frame [where f = fc_symbols] opt_frame [where f = fc_quoteDepth] opt_frame [where f = fc_clockLagMs]
  opt_frame [where f = fc_backfillEnabled] opt_frame [where f = fc_backfillRestHost] opt_frame [where f = fc_backfillRestPath]
  opt_frame [where f = fc_backfillWeight] opt_frame [where f = fc_backfillWeightLimit] opt_frame [where f = fc_backfillMaxGapIds]

text \<open>What the shared file fixes, which no other block touches.\<close>

definition shared_ok :: "FeedHandlerConfig \<Rightarrow> bool" where
  "shared_ok c \<longleftrightarrow> fc_symbols c \<noteq> [] \<and> (\<forall>s \<in> set (fc_symbols c). \<forall>ch \<in> set s. lower ch = ch) \<and>
     MIN_QUOTE_DEPTH \<le> fc_quoteDepth c \<and> fc_quoteDepth c \<le> MAX_QUOTE_DEPTH \<and>
     MIN_CLOCK_LAG_MS \<le> fc_clockLagMs c \<and> fc_clockLagMs c \<le> MAX_CLOCK_LAG_MS"

definition backfill_ok :: "FeedHandlerConfig \<Rightarrow> bool" where
  "backfill_ok c \<longleftrightarrow> (fc_backfillEnabled c \<longrightarrow> fc_backfillRestHost c \<noteq> [] \<and> fc_backfillRestPath c \<noteq> [] \<and>
     0 < fc_backfillWeight c \<and> 0 < fc_backfillWeightLimit c \<and> 0 < fc_backfillMaxGapIds c)"

lemma lower_lower [simp]: "lower (lower c) = lower c"
proof -
  have "of_char (char_of (n + 32) :: char) = n + 32" if "n \<le> 90" for n :: nat using that by simp
  then show ?thesis by (simp add: lower_def Let_def)
qed

lemma loadSymbols_ok:
  "loadSymbols vs c = (True, c') \<Longrightarrow> \<exists>ss. c' = c\<lparr>fc_symbols := fc_symbols c @ ss\<rparr> \<and> length ss = length vs \<and>
     (\<forall>s \<in> set ss. \<forall>ch \<in> set s. lower ch = ch)"
proof (induction vs arbitrary: c)
  case Nil
  then show ?case by (intro exI [of _ "[]"]) simp
next
  case (Cons v vs)
  then obtain s where v: "v = JString s" "loadSymbols vs (c\<lparr>fc_symbols := fc_symbols c @ [map lower (c_str s)]\<rparr>) = (True, c')"
    by (auto split: Json.splits if_splits)
  from Cons.IH [OF v(2)] obtain ss where "c' = c\<lparr>fc_symbols := (fc_symbols c @ [map lower (c_str s)]) @ ss\<rparr>"
      "length ss = length vs" "\<forall>s \<in> set ss. \<forall>ch \<in> set s. lower ch = ch" by auto
  then show ?case by (intro exI [of _ "map lower (c_str s) # ss"]) auto
qed

lemma loadShared_ok:
  assumes "loadShared parse files env path c = (True, c')" "MIN_CLOCK_LAG_MS \<le> fc_clockLagMs c" "fc_clockLagMs c \<le> MAX_CLOCK_LAG_MS"
  shows "shared_ok c' \<and> fc_backfillEnabled c' = fc_backfillEnabled c"
proof -
  define c0 where "c0 = c\<lparr>fc_sharedConfigPath := sharedPathFor env path, fc_symbols := []\<rparr>"
  obtain ms v vs c1 c2 where s: "loadSymbols (v # vs) c0 = (True, c1)" and d: "loadDepth ms c1 = (True, c2)"
    and l: "loadClockLag ms c2 = (True, c')"
    using assms(1) by (auto simp: loadShared_def Let_def c0_def simp del: loadSymbols.simps split: option.splits sum.splits Json.splits list.splits prod.splits bool.splits)
  obtain ss where ss: "c1 = c0\<lparr>fc_symbols := ss\<rparr>" "length ss = length (v # vs)" "\<forall>s \<in> set ss. \<forall>ch \<in> set s. lower ch = ch"
    using loadSymbols_ok [OF s] by (auto simp: c0_def)
  obtain n where n: "c2 = c1\<lparr>fc_quoteDepth := n\<rparr>" "MIN_QUOTE_DEPTH \<le> n" "n \<le> MAX_QUOTE_DEPTH"
    using d by (auto simp: loadDepth_def split: option.splits Json.splits if_splits)
  have "ss \<noteq> []" using ss(2) by auto
  moreover have "c' = c2 \<or> (\<exists>m. c' = c2\<lparr>fc_clockLagMs := m\<rparr> \<and> MIN_CLOCK_LAG_MS \<le> m \<and> m \<le> MAX_CLOCK_LAG_MS)"
    using l by (auto simp: loadClockLag_def split: option.splits Json.splits if_splits)
  moreover have "fc_clockLagMs c2 = fc_clockLagMs c" "fc_backfillEnabled c2 = fc_backfillEnabled c"
    by (simp_all add: n(1) ss(1) c0_def)
  moreover have "fc_symbols c2 = ss" "fc_quoteDepth c2 = n" by (simp_all add: n(1) ss(1))
  ultimately show ?thesis using ss(3) n(2,3) assms(2,3) by (auto simp: shared_ok_def)
qed

lemma blocks_keep_shared:
  "shared_ok c \<Longrightarrow> shared_ok (loadTickerplant doc c)" "shared_ok c \<Longrightarrow> shared_ok (loadReconnect doc c)"
  "shared_ok c \<Longrightarrow> shared_ok (loadMarket doc c)" "shared_ok c \<Longrightarrow> shared_ok (snd (loadBackfill doc c))"
  "shared_ok c \<Longrightarrow> shared_ok (loadLogging doc c)"
  unfolding loadTickerplant_def loadReconnect_def loadMarket_def loadBackfill_def loadLogging_def Let_def
  by (simp_all add: shared_ok_def opt_frames split: option.split)

lemma blocks_keep_disabled:
  "\<not> fc_backfillEnabled c \<Longrightarrow> \<not> fc_backfillEnabled (loadTickerplant doc c)"
  "\<not> fc_backfillEnabled c \<Longrightarrow> \<not> fc_backfillEnabled (loadReconnect doc c)"
  "\<not> fc_backfillEnabled c \<Longrightarrow> \<not> fc_backfillEnabled (loadMarket doc c)"
  unfolding loadTickerplant_def loadReconnect_def loadMarket_def Let_def
  by (simp_all add: opt_frames split: option.split)

lemma logging_keeps_backfill: "backfill_ok c \<Longrightarrow> backfill_ok (loadLogging doc c)"
  by (simp add: loadLogging_def backfill_ok_def opt_frames split: option.split)

lemma loadBackfill_ok: "loadBackfill doc c = (True, c') \<Longrightarrow> \<not> fc_backfillEnabled c \<Longrightarrow> backfill_ok c'"
  by (auto simp: loadBackfill_def Let_def backfill_ok_def split: option.splits)

lemma load_config_ok:
  assumes "load_config parse files env path c = Some (True, c')" "MIN_CLOCK_LAG_MS \<le> fc_clockLagMs c" "fc_clockLagMs c \<le> MAX_CLOCK_LAG_MS"
    "\<not> fc_backfillEnabled c"
  shows "shared_ok c' \<and> backfill_ok c'"
proof -
  obtain doc c1 c2 where s: "loadShared parse files env path c = (True, c1)"
    and b: "loadBackfill doc (loadMarket doc (loadReconnect doc (loadTickerplant doc c1))) = (True, c2)" and c': "c' = loadLogging doc c2"
    using assms(1) by (auto simp: load_config_def split: option.splits sum.splits Json.splits if_splits prod.splits bool.splits)
  have "shared_ok (loadMarket doc (loadReconnect doc (loadTickerplant doc c1)))"
    using loadShared_ok [OF s assms(2,3)] by (intro blocks_keep_shared) simp
  from blocks_keep_shared(4) [OF this, of doc] have "shared_ok c2" by (simp add: b)
  moreover have "backfill_ok c2"
    using loadShared_ok [OF s assms(2,3)] assms(4) by (intro loadBackfill_ok [OF b] blocks_keep_disabled) simp
  ultimately show ?thesis by (simp add: c' blocks_keep_shared logging_keeps_backfill)
qed

section \<open>Properties\<close>

definition demo_files :: "string \<Rightarrow> string option" where
  "demo_files p = (if p = ''c/q'' then Some ''1'' else if p = ''c/shared.json'' then Some ''2'' else if p = ''c/t'' then Some ''3'' else None)"

definition demo_config :: Json where
  "demo_config = JObject [(''market'', JObject [(''schema'', JString ''spot_depth''), (''rest_host'', JString ''r''), (''rest_path'', JString ''p''),
     (''snapshot_limit'', JInt 1000), (''snapshot_weight'', JInt 50), (''weight_limit_per_min'', JInt 6000)])]"

definition demo_trade_config :: Json where
  "demo_trade_config = JObject [(''backfill'', JObject [(''rest_host'', JString ''r''), (''rest_path'', JString ''p''),
     (''request_weight'', JInt 25), (''weight_limit_per_min'', JInt 6000)])]"

definition demo_shared :: Json where
  "demo_shared = JObject [(''symbols'', JArray [JString ''BTC'']), (''quote_depth'', JInt 5)]"

definition demo_json :: json_parser where
  "demo_json s = (if s = ''1'' then Inr demo_config else if s = ''2'' then Inr demo_shared else if s = ''3'' then Inr demo_trade_config else Inl [])"

lemma demo_lower: "lower CHR ''B'' = CHR ''b''" "lower CHR ''T'' = CHR ''t''" "lower CHR ''C'' = CHR ''c''"
  by (code_simp, code_simp, code_simp)

lemmas demo_load_defs = load_config_def loadShared_def loadDepth_def loadClockLag_def loadTickerplant_def loadReconnect_def loadMarket_def
  loadBackfill_def loadLogging_def block_def opt_str_def opt_int_def opt_int64_def sharedPathFor_def dir_of_def c_str_def Let_def
  demo_json_def demo_files_def demo_config_def demo_shared_def demo_trade_config_def defaultFeedConfig_def demo_lower
  isInt_def isInt64_def MIN_QUOTE_DEPTH_def MAX_QUOTE_DEPTH_def MIN_CLOCK_LAG_MS_def MAX_CLOCK_LAG_MS_def

text \<open>C20: A configuration that loads is usable: there is a symbol, the symbols are in lower case as the exchange's
  stream names are, the quote depth and the clock lag are within their bounds, and backfill is only enabled with an
  endpoint and positive rate-limit numbers and cap. Whatever the files hold and whichever fields they leave out.\<close>

theorem loaded_config_valid:
  assumes "load_config parse files env path defaultFeedConfig = Some (True, c)"
  shows "fc_symbols c \<noteq> [] \<and> (\<forall>s \<in> set (fc_symbols c). \<forall>ch \<in> set s. lower ch = ch) \<and>
    1 \<le> fc_quoteDepth c \<and> fc_quoteDepth c \<le> 50 \<and> 100 \<le> fc_clockLagMs c \<and> fc_clockLagMs c \<le> 3600000 \<and>
    (fc_backfillEnabled c \<longrightarrow> fc_backfillRestHost c \<noteq> [] \<and> fc_backfillRestPath c \<noteq> [] \<and>
       0 < fc_backfillWeight c \<and> 0 < fc_backfillWeightLimit c \<and> 0 < fc_backfillMaxGapIds c)"
  using load_config_ok [OF assms]
  by (simp add: shared_ok_def backfill_ok_def MIN_QUOTE_DEPTH_def MAX_QUOTE_DEPTH_def MIN_CLOCK_LAG_MS_def MAX_CLOCK_LAG_MS_def
      defaultFeedConfig_def)

lemma loaded_config_valid_witness:
  "\<exists>c. load_config demo_json demo_files None ''c/t'' defaultFeedConfig = Some (True, c) \<and> fc_symbols c = [''btc''] \<and>
     fc_backfillEnabled c \<and> 0 < fc_backfillMaxGapIds c"
proof -
  obtain c where c: "load_config demo_json demo_files None ''c/t'' defaultFeedConfig = Some (True, c)" "fc_symbols c = [''btc'']"
      "fc_backfillEnabled c"
    by (simp add: demo_load_defs)
  with loaded_config_valid [OF c(1)] show ?thesis by blast
qed

lemma quote_main_ok:
  assumes "quote_main parse files env defaultPath arg schema = Runs syms m host port"
  shows "syms \<noteq> [] \<and> 0 < qm_snapshotLimit m \<and> 0 < qm_snapshotWeight m \<and> 0 < qm_weightLimitPerMin m \<and>
    1 \<le> qm_depth m \<and> qm_depth m \<le> 50 \<and> 100 \<le> qm_clockLagMs m \<and> qm_restHost m \<noteq> [] \<and> qm_restPath m \<noteq> [] \<and>
    (schema = ''spot_depth'' \<and> qm_sync m = Spot \<or> schema = ''futures_depth'' \<and> qm_sync m = Futures) \<and>
    (qm_publishTransactTime m \<longleftrightarrow> qm_sync m = Futures)"
proof -
  obtain path c where l: "load_config parse files env path defaultFeedConfig = Some (True, c)" and s: "fc_marketSchema c = schema"
    and m: "buildQuoteMarket c = Some m" and syms: "syms = fc_symbols c"
    using assms by (auto simp: quote_main_def split: option.splits if_splits prod.splits bool.splits)
  have "shared_ok c"
    using load_config_ok [OF l] by (simp add: defaultFeedConfig_def MIN_CLOCK_LAG_MS_def MAX_CLOCK_LAG_MS_def)
  then show ?thesis using m s
    by (auto simp: buildQuoteMarket_def syms shared_ok_def MIN_QUOTE_DEPTH_def MAX_QUOTE_DEPTH_def MIN_CLOCK_LAG_MS_def
        split: if_splits option.splits)
qed

text \<open>A quote program that starts a handler has checked the numbers the handler's guarantees depend on: it
  has a symbol, a depth from 1 to 50, a positive snapshot limit, positive rate-limit numbers, an endpoint, a clock-lag
  threshold in its bounds, and it runs the market it was built for, with the futures columns exactly on futures.\<close>

theorem started_quote_handler_configured:
  assumes "quote_main parse files env defaultPath arg schema = Runs syms m host port"
  shows "syms \<noteq> [] \<and> 0 < qm_snapshotLimit m \<and> 0 < qm_snapshotWeight m \<and> 0 < qm_weightLimitPerMin m \<and>
    1 \<le> qm_depth m \<and> qm_depth m \<le> 50 \<and> 100 \<le> qm_clockLagMs m \<and> qm_restHost m \<noteq> [] \<and> qm_restPath m \<noteq> [] \<and>
    (schema = ''spot_depth'' \<and> qm_sync m = Spot \<or> schema = ''futures_depth'' \<and> qm_sync m = Futures) \<and>
    (qm_publishTransactTime m \<longleftrightarrow> qm_sync m = Futures)"
  using assms by (rule quote_main_ok)

lemma started_quote_handler_configured_witness:
  "\<exists>m. quote_main demo_json demo_files None ''c/q'' None ''spot_depth'' = Runs [''btc''] m ''localhost'' 5010 \<and> qm_sync m = Spot \<and> 1 \<le> qm_depth m"
proof -
  obtain m where m: "quote_main demo_json demo_files None ''c/q'' None ''spot_depth'' = Runs [''btc''] m ''localhost'' 5010"
    by (simp add: quote_main_def demo_load_defs buildQuoteMarket_def)
  with started_quote_handler_configured [OF m] show ?thesis by auto
qed

text \<open>A trade program that starts a handler has a symbol to subscribe to, a usable clock-lag threshold, and either
  no backfill or one with an endpoint, positive rate-limit numbers and a positive cap.\<close>

theorem started_trade_handler_configured:
  assumes "trade_main parse files env defaultPath arg = Runs syms m host port"
  shows "syms \<noteq> [] \<and> 100 \<le> mc_clockLagMs m \<and> mc_clockLagMs m \<le> 3600000 \<and>
    (mc_backfillEnabled m \<longrightarrow> mc_backfillRestHost m \<noteq> [] \<and> mc_backfillRestPath m \<noteq> [] \<and> 0 < mc_backfillWeight m \<and>
       0 < mc_backfillWeightLimit m \<and> 0 < mc_backfillMaxGapIds m)"
proof -
  obtain path c where l: "load_config parse files env path defaultFeedConfig = Some (True, c)"
    and m: "m = buildTradeMarket c" and syms: "syms = fc_symbols c" "fc_symbols c \<noteq> []"
    using assms by (auto simp: trade_main_def split: option.splits if_splits prod.splits bool.splits)
  have "shared_ok c \<and> backfill_ok c"
    using load_config_ok [OF l] by (simp add: defaultFeedConfig_def MIN_CLOCK_LAG_MS_def MAX_CLOCK_LAG_MS_def)
  then show ?thesis using syms
    by (auto simp: m buildTradeMarket_def Let_def shared_ok_def backfill_ok_def MIN_CLOCK_LAG_MS_def MAX_CLOCK_LAG_MS_def)
qed

lemma started_trade_handler_configured_witness:
  "\<exists>m. trade_main demo_json demo_files None ''c/t'' None = Runs [''btc''] m ''localhost'' 5010 \<and> mc_backfillEnabled m \<and>
     0 < mc_backfillMaxGapIds m"
proof -
  obtain m where m: "trade_main demo_json demo_files None ''c/t'' None = Runs [''btc''] m ''localhost'' 5010" "mc_backfillEnabled m"
    by (simp add: trade_main_def demo_load_defs buildTradeMarket_def)
  with started_trade_handler_configured [OF m(1)] show ?thesis by blast
qed

text \<open>C37: A handler configuration whose JSON value is not an object makes the program abort: \<open>load\<close> asks the value for
  a member before it has checked its type. Every other defect of that file is an orderly failure.\<close>

theorem config_aborts_iff_not_object:
  "load_config parse files env path c = None \<longleftrightarrow>
     (\<exists>content v. files path = Some content \<and> parse (c_str content) = Inr v \<and> (\<nexists>ms. v = JObject ms))"
proof (cases "files path")
  case (Some content)
  show ?thesis
  proof (cases "parse (c_str content)")
    case (Inr v)
    show ?thesis using Some Inr
      by (cases v) (auto simp: load_config_def split: prod.split bool.split)
  qed (simp add: load_config_def Some)
qed (simp add: load_config_def)

lemma dir_of_append: "CHR ''/'' \<notin> set name \<Longrightarrow> dir_of (dir @ ''/'' @ name) = dir"
proof -
  assume "CHR ''/'' \<notin> set name"
  then have "dropWhile (\<lambda>c. c \<noteq> CHR ''/'') (rev name @ CHR ''/'' # rev dir) = CHR ''/'' # rev dir"
    by (subst dropWhile_append2) auto
  then show ?thesis by (simp add: dir_of_def)
qed

end
