(* ===== verification/K_Object.thy ===== *)
theory K_Object
  imports K_Rows "HOL-Library.Multiset"
begin

text \<open>
  \<open>cpp/include/k_object.hpp\<close>: who owns a kdb+ object. A \<open>K\<close> is a pointer to a reference-counted object;
  \<open>KOwned\<close> holds one reference and releases it when it is destroyed, \<open>KBorrowed\<close> holds none.

  The kdb+ C API (\<open>k.h\<close> and its library) is a parameter, the record \<open>KMem\<close> of operations on a memory
  of type \<open>'m\<close>: making an object, \<open>r1\<close>, \<open>r0\<close>, reading and writing through a pointer, and what \<open>k\<close> does to
  its arguments. \<open>own m\<close> is the ledger of the program: the references it has to release, or \<open>None\<close>
  once it released one it did not have. \<open>mem_contract\<close> says what the API documents of each operation, and
  only where the program holds what the operation needs: releasing anything else leaves nothing known.
  \<open>mem_contract\<close> has a flag, because the comments of \<open>k_object.hpp\<close> and its callers differ on it: does a sync
  call release its arguments, as an async one does?
\<close>

section \<open>The memory of the C API\<close>

type_synonym kptr = nat

record 'm KMem =
  km_new :: "kobj \<Rightarrow> 'm \<Rightarrow> kptr \<times> 'm"
  km_val :: "'m \<Rightarrow> kptr \<Rightarrow> kobj"
  km_put :: "kptr \<Rightarrow> nat \<Rightarrow> kobj \<Rightarrow> 'm \<Rightarrow> 'm"
  km_r1 :: "kptr \<Rightarrow> 'm \<Rightarrow> 'm"
  km_r0 :: "kptr \<Rightarrow> 'm \<Rightarrow> 'm"
  km_take :: "bool \<Rightarrow> kptr list \<Rightarrow> 'm \<Rightarrow> 'm"

definition same :: "'m KMem \<Rightarrow> kptr multiset \<Rightarrow> 'm \<Rightarrow> 'm \<Rightarrow> bool" where
  "same km R m m' \<longleftrightarrow> (\<forall>a \<in># R. km_val km m' a = km_val km m a)"

definition mem_contract :: "bool \<Rightarrow> 'm KMem \<Rightarrow> ('m \<Rightarrow> kptr multiset option) \<Rightarrow> bool" where
  "mem_contract syncTakes km own \<longleftrightarrow>
     (\<forall>v m R. own m = Some R \<longrightarrow>
        (let (a, m') = km_new km v m
         in a \<notin># R \<and> own m' = Some (add_mset a R) \<and> km_val km m' a = v \<and> same km R m m')) \<and>
     (\<forall>a i v m R xs. own m = Some (add_mset a R) \<longrightarrow> a \<notin># R \<longrightarrow> km_val km m a = KMixed xs \<longrightarrow> i < length xs \<longrightarrow>
        own (km_put km a i v m) = Some (add_mset a R) \<and> km_val km (km_put km a i v m) a = KMixed (xs[i := v]) \<and>
        same km R m (km_put km a i v m)) \<and>
     (\<forall>a m R. own m = Some (add_mset a R) \<longrightarrow>
        own (km_r1 km a m) = Some (add_mset a (add_mset a R)) \<and> same km (add_mset a R) m (km_r1 km a m)) \<and>
     (\<forall>a m R. own m = Some (add_mset a R) \<longrightarrow> own (km_r0 km a m) = Some R \<and> same km R m (km_r0 km a m)) \<and>
     (\<forall>sy as m R. own m = Some (mset as + R) \<longrightarrow>
        own (km_take km sy as m) = Some (if sy \<and> \<not> syncTakes then mset as + R else R) \<and>
        same km R m (km_take km sy as m))"

lemma same_refl [simp]: "same km R m m"
  by (simp add: same_def)

lemma same_trans: "same km R m m1 \<Longrightarrow> same km R m1 m2 \<Longrightarrow> same km R m m2"
  by (simp add: same_def)

lemma same_sub: "same km R m m' \<Longrightarrow> S \<subseteq># R \<Longrightarrow> same km S m m'"
  by (auto simp: same_def dest: mset_subset_eqD)

lemma same_add [simp]: "same km (R + S) m m' \<longleftrightarrow> same km R m m' \<and> same km S m m'"
  "same km (add_mset a R) m m' \<longleftrightarrow> km_val km m' a = km_val km m a \<and> same km R m m'" "same km {#} m m'"
  by (auto simp: same_def)

text \<open>The contract as rules.\<close>

lemmas mem_new = mem_contract_def [THEN iffD1, THEN conjunct1, rule_format]
lemmas mem_put = mem_contract_def [THEN iffD1, THEN conjunct2, THEN conjunct1, rule_format]
lemmas mem_r1 = mem_contract_def [THEN iffD1, THEN conjunct2, THEN conjunct2, THEN conjunct1, rule_format]
lemmas mem_r0 = mem_contract_def [THEN iffD1, THEN conjunct2, THEN conjunct2, THEN conjunct2, THEN conjunct1, rule_format]
lemmas mem_take = mem_contract_def [THEN iffD1, THEN conjunct2, THEN conjunct2, THEN conjunct2, THEN conjunct2, rule_format]

lemma own_new:
  assumes "mem_contract s km own" "own m = Some R" "km_new km v m = (a, m')"
  shows "a \<notin># R" "own m' = Some (add_mset a R)" "km_val km m' a = v" "same km R m m'"
  using mem_new [OF assms(1,2), of v] by (simp_all add: assms(3))

lemma own_put:
  assumes "mem_contract s km own" "own m = Some (add_mset a R)" "a \<notin># R" "km_val km m a = KMixed xs" "i < length xs"
  shows "own (km_put km a i v m) = Some (add_mset a R)" "km_val km (km_put km a i v m) a = KMixed (xs[i := v])"
    "same km R m (km_put km a i v m)"
  using mem_put [OF assms] by auto

lemma own_r1:
  assumes "mem_contract s km own" "own m = Some R" "a \<in># R"
  shows "own (km_r1 km a m) = Some (add_mset a R)" "same km R m (km_r1 km a m)"
proof -
  obtain S where R: "R = add_mset a S" using assms(3) by (metis insert_DiffM)
  with mem_r1 [OF assms(1), of m a S] assms(2)
  show "own (km_r1 km a m) = Some (add_mset a R)" "same km R m (km_r1 km a m)" by simp_all
qed

lemma own_r0:
  assumes "mem_contract s km own" "own m = Some (add_mset a R)"
  shows "own (km_r0 km a m) = Some R" "same km R m (km_r0 km a m)"
  using mem_r0 [OF assms] by simp_all

lemma own_take:
  assumes "mem_contract s km own" "own m = Some (mset as + R)"
  shows "own (km_take km sy as m) = Some (if sy \<and> \<not> s then mset as + R else R)" "same km R m (km_take km sy as m)"
  using mem_take [OF assms, of sy] by simp_all

section \<open>The wrappers\<close>

text \<open>\<open>KOwned\<close> and \<open>KBorrowed\<close> are a nullable pointer; \<open>None\<close> is \<open>nullptr\<close>.\<close>

type_synonym KOwned = "kptr option"
type_synonym KBorrowed = "kptr option"

definition ko_destroy :: "'m KMem \<Rightarrow> KOwned \<Rightarrow> 'm \<Rightarrow> 'm" where
  "ko_destroy km o1 m = (case o1 of None \<Rightarrow> m | Some a \<Rightarrow> km_r0 km a m)"

text \<open>The new object and what is left of the moved-from one.\<close>

definition ko_move :: "KOwned \<Rightarrow> KOwned \<times> KOwned" where
  "ko_move o1 = (o1, None)"

text \<open>Move assignment from another object: the target, the source, the memory.\<close>

definition ko_assign :: "'m KMem \<Rightarrow> KOwned \<Rightarrow> KOwned \<Rightarrow> 'm \<Rightarrow> KOwned \<times> KOwned \<times> 'm" where
  "ko_assign km dst src m = (src, None, ko_destroy km dst m)"

definition ko_release :: "KOwned \<Rightarrow> kptr option \<times> KOwned" where
  "ko_release o1 = (o1, None)"

definition k_share :: "'m KMem \<Rightarrow> KBorrowed \<Rightarrow> 'm \<Rightarrow> KOwned \<times> 'm" where
  "k_share km b m = (case b of None \<Rightarrow> (None, m) | Some a \<Rightarrow> (Some a, km_r1 km a m))"

section \<open>Programs with wrappers\<close>

text \<open>
  What a block of code can do with wrappers that are local variables: declare one (empty, around a new
  object, by a move, or by sharing what another one holds), assign one to another, possibly itself, release
  one, hand a released pointer to a call that consumes it, and leave the scope of the innermost one.
  Variables are numbered from the outermost; \<open>loose\<close> are released pointers not handed on yet. \<open>None\<close> is a
  text that does not compile: it names a variable that does not exist.
\<close>

datatype KStmt = DeclEmpty | DeclNew kobj | DeclMove nat | DeclShare nat | MoveAssign nat nat | Release nat | Consume | EndScope

fun k_stmt :: "'m KMem \<Rightarrow> KStmt \<Rightarrow> KOwned list \<times> kptr list \<times> 'm \<Rightarrow> (KOwned list \<times> kptr list \<times> 'm) option" where
  "k_stmt km DeclEmpty (vs, loose, m) = Some (vs @ [None], loose, m)"
| "k_stmt km (DeclNew v) (vs, loose, m) = (case km_new km v m of (a, m') \<Rightarrow> Some (vs @ [Some a], loose, m'))"
| "k_stmt km (DeclMove i) (vs, loose, m) =
     (if i < length vs then (case ko_move (vs ! i) of (new, old) \<Rightarrow> Some (vs[i := old] @ [new], loose, m)) else None)"
| "k_stmt km (DeclShare i) (vs, loose, m) =
     (if i < length vs then (case k_share km (vs ! i) m of (new, m') \<Rightarrow> Some (vs @ [new], loose, m')) else None)"
| "k_stmt km (MoveAssign i j) (vs, loose, m) =
     (if i < length vs \<and> j < length vs then
        if i \<noteq> j then (case ko_assign km (vs ! i) (vs ! j) m of (dst, src, m') \<Rightarrow> Some (vs[i := dst, j := src], loose, m'))
        else Some (vs, loose, m)
      else None)"
| "k_stmt km (Release i) (vs, loose, m) =
     (if i < length vs then
        (case ko_release (vs ! i) of (None, o1) \<Rightarrow> Some (vs[i := o1], loose, m)
         | (Some a, o1) \<Rightarrow> Some (vs[i := o1], a # loose, m))
      else None)"
| "k_stmt km Consume (vs, loose, m) =
     (case loose of [] \<Rightarrow> None | a # as \<Rightarrow> Some (vs, as, km_take km False [a] m))"
| "k_stmt km EndScope (vs, loose, m) = (if vs = [] then None else Some (butlast vs, loose, ko_destroy km (last vs) m))"

fun k_block :: "'m KMem \<Rightarrow> KStmt list \<Rightarrow> KOwned list \<times> kptr list \<times> 'm \<Rightarrow> (KOwned list \<times> kptr list \<times> 'm) option" where
  "k_block km [] st = Some st"
| "k_block km (s # ss) st = (case k_stmt km s st of None \<Rightarrow> None | Some st' \<Rightarrow> k_block km ss st')"

fun refs_of :: "KOwned list \<Rightarrow> kptr multiset" where
  "refs_of [] = {#}"
| "refs_of (None # vs) = refs_of vs"
| "refs_of (Some a # vs) = add_mset a (refs_of vs)"

lemma refs_append [simp]: "refs_of (xs @ ys) = refs_of xs + refs_of ys"
  by (induction xs rule: refs_of.induct) auto

lemma refs_split: "i < length vs \<Longrightarrow> refs_of vs = refs_of [vs ! i] + refs_of (vs[i := None])"
  by (induction vs arbitrary: i rule: refs_of.induct) (auto simp: nth_Cons split: nat.split)

lemma refs_update: "i < length vs \<Longrightarrow> refs_of (vs[i := x]) = refs_of [x] + refs_of (vs[i := None])"
  using refs_split [of i "vs[i := x]"] by simp

definition balanced :: "('m \<Rightarrow> kptr multiset option) \<Rightarrow> kptr multiset \<Rightarrow> KOwned list \<times> kptr list \<times> 'm \<Rightarrow> bool" where
  "balanced own R st = (case st of (vs, loose, m) \<Rightarrow> own m = Some (refs_of vs + mset loose + R))"

lemma own_destroy:
  assumes "mem_contract s km own" "own m = Some (refs_of [o1] + R)"
  shows "own (ko_destroy km o1 m) = Some R" "same km R m (ko_destroy km o1 m)"
  using assms own_r0 [OF assms(1)] by (cases o1; simp add: ko_destroy_def)+


lemma own_share:
  assumes "mem_contract s km own" "own m = Some R" "refs_of [b] \<subseteq># R" "k_share km b m = (new, m')"
  shows "new = b" "own m' = Some (refs_of [b] + R)" "same km R m m'"
  using assms own_r1 [OF assms(1,2)] by (cases b; auto simp: k_share_def)+

lemma k_stmt_balanced:
  assumes c: "mem_contract s km own" and b: "balanced own R st" and st: "k_stmt km stm st = Some st'"
  shows "balanced own R st' \<and> same km R (snd (snd st)) (snd (snd st'))"
proof -
  obtain vs loose m where st0: "st = (vs, loose, m)" by (cases st)
  have own: "own m = Some (refs_of vs + mset loose + R)" using b by (simp add: balanced_def st0)
  show ?thesis
  proof (cases stm)
    case (DeclNew v)
    obtain a m1 where n: "km_new km v m = (a, m1)" by (cases "km_new km v m")
    from own_new [OF c own n] st DeclNew n show ?thesis by (auto simp: st0 balanced_def)
  next
    case (DeclMove i)
    with st own refs_split [of i vs] show ?thesis by (auto simp: st0 balanced_def ko_move_def add_ac split: if_splits)
  next
    case (DeclShare i)
    then have i: "i < length vs" using st by (auto simp: st0 split: if_splits)
    obtain new m1 where n: "k_share km (vs ! i) m = (new, m1)" by (cases "k_share km (vs ! i) m")
    have "refs_of [vs ! i] \<subseteq># refs_of vs + mset loose + R"
      by (subst refs_split [OF i]) (simp add: add.assoc)
    from own_share [OF c own this n] st DeclShare i n show ?thesis by (auto simp: st0 balanced_def add_ac)
  next
    case (MoveAssign i j)
    show ?thesis
    proof (cases "i = j")
      case True
      with st MoveAssign own show ?thesis by (auto simp: st0 balanced_def split: if_splits)
    next
      case False
      then have ij: "i < length vs" "j < length vs" using st MoveAssign by (auto simp: st0 split: if_splits)
      let ?vs = "vs[i := vs ! j, j := None]"
      have "refs_of vs = refs_of [vs ! i] + refs_of ?vs"
        using refs_split [OF ij(1)] refs_split [of j "vs[i := None]"] refs_update [of i "vs[j := None]" "vs ! j"] ij False
        by (simp add: list_update_swap [of i j])
      then have "own m = Some (refs_of [vs ! i] + (refs_of ?vs + mset loose + R))" using own by (simp add: add_ac)
      from own_destroy [OF c this] st MoveAssign False ij show ?thesis
        by (auto simp: st0 balanced_def ko_assign_def)
    qed
  next
    case (Release i)
    with st own refs_split [of i vs] show ?thesis
      by (auto simp: st0 balanced_def ko_release_def add_ac split: if_splits option.splits)
  next
    case Consume
    then obtain a as where l: "loose = a # as" "st' = (vs, as, km_take km False [a] m)"
      using st by (cases loose) (auto simp: st0)
    have "own m = Some (mset [a] + (refs_of vs + mset as + R))" using own l by simp
    from own_take [OF c this, of False] l show ?thesis by (simp add: st0 balanced_def)
  next
    case EndScope
    then have ne: "vs \<noteq> []" and st': "st' = (butlast vs, loose, ko_destroy km (last vs) m)"
      using st by (auto simp: st0 split: if_splits)
    have "refs_of vs = refs_of (butlast vs @ [last vs])" using ne by simp
    then have "own m = Some (refs_of [last vs] + (refs_of (butlast vs) + mset loose + R))"
      using own by (simp add: add_ac del: append_butlast_last_id)
    from own_destroy [OF c this] st' show ?thesis by (simp add: st0 balanced_def)
  qed (use st own in \<open>auto simp: st0 balanced_def\<close>)
qed

lemma k_block_balanced:
  assumes "mem_contract s km own" "balanced own R st" "k_block km ss st = Some st'"
  shows "balanced own R st' \<and> same km R (snd (snd st)) (snd (snd st'))"
  using assms(2,3)
proof (induction ss arbitrary: st)
  case (Cons x ss)
  then obtain st1 where 1: "k_stmt km x st = Some st1" "k_block km ss st1 = Some st'" by (auto split: option.splits)
  from k_stmt_balanced [OF assms(1) Cons.prems(1) 1(1)] Cons.IH [OF _ 1(2)] show ?case
    by (auto intro: same_trans)
qed simp

lemma end_scopes: "\<exists>m'. k_block km (replicate (length vs) EndScope) (vs, loose, m) = Some ([], loose, m')"
proof (induction vs arbitrary: m rule: rev_induct)
  case (snoc x vs)
  then show ?case by simp
qed simp

section \<open>A memory that counts\<close>

text \<open>A concrete instance of the parameter: a list of the references, a counter of addresses, the objects, and whether
  every release was of a reference held.\<close>

record CountedMem =
  cm_refs :: "kptr list"
  cm_next :: kptr
  cm_obj :: "(kptr \<times> kobj) list"
  cm_ok :: bool

definition cm_read :: "CountedMem \<Rightarrow> kptr \<Rightarrow> kobj" where
  "cm_read m a = (case map_of (cm_obj m) a of None \<Rightarrow> KOther | Some v \<Rightarrow> v)"

definition cm_release :: "kptr \<Rightarrow> CountedMem \<Rightarrow> CountedMem" where
  "cm_release a m = (if a \<in> set (cm_refs m) then m\<lparr>cm_refs := remove1 a (cm_refs m)\<rparr> else m\<lparr>cm_ok := False\<rparr>)"

definition counted_mem :: "bool \<Rightarrow> CountedMem KMem" where
  "counted_mem syncTakes = \<lparr>
     km_new = (\<lambda>v m. (cm_next m, m\<lparr>cm_refs := cm_next m # cm_refs m, cm_obj := (cm_next m, v) # cm_obj m, cm_next := Suc (cm_next m)\<rparr>)),
     km_val = cm_read,
     km_put = (\<lambda>a i v m. case cm_read m a of KMixed xs \<Rightarrow> m\<lparr>cm_obj := (a, KMixed (xs[i := v])) # cm_obj m\<rparr> | _ \<Rightarrow> m),
     km_r1 = (\<lambda>a m. m\<lparr>cm_refs := a # cm_refs m\<rparr>),
     km_r0 = cm_release,
     km_take = (\<lambda>sy as m. if sy \<and> \<not> syncTakes then m else fold cm_release as m)\<rparr>"

definition cm_own :: "CountedMem \<Rightarrow> kptr multiset option" where
  "cm_own m = (if cm_ok m \<and> (\<forall>a \<in> set (cm_refs m). a < cm_next m) then Some (mset (cm_refs m)) else None)"

definition cm_empty :: CountedMem where
  "cm_empty = \<lparr>cm_refs = [], cm_next = 0, cm_obj = [], cm_ok = True\<rparr>"

lemma cm_release_own:
  assumes "cm_own m = Some (add_mset a R)"
  shows "cm_own (cm_release a m) = Some R \<and> cm_obj (cm_release a m) = cm_obj m"
proof -
  have *: "cm_ok m" "\<forall>a \<in> set (cm_refs m). a < cm_next m" "mset (cm_refs m) = add_mset a R"
    using assms by (auto simp: cm_own_def split: if_splits)
  then have "a \<in> set (cm_refs m)" by (metis set_mset_mset union_single_eq_member)
  moreover have "\<forall>b \<in> set (remove1 a (cm_refs m)). b < cm_next m" using *(2) by (meson notin_set_remove1)
  ultimately show ?thesis using * by (simp add: cm_own_def cm_release_def)
qed

lemma cm_releases_own:
  "cm_own m = Some (mset as + R) \<Longrightarrow> cm_own (fold cm_release as m) = Some R \<and> cm_obj (fold cm_release as m) = cm_obj m"
proof (induction as arbitrary: m)
  case (Cons a as)
  with cm_release_own [of m a "mset as + R"] Cons.IH [of "cm_release a m"] show ?case by simp
qed simp

lemma counted_contract: "mem_contract s (counted_mem s) cm_own"
  unfolding mem_contract_def same_def Let_def
proof (intro conjI allI impI)
  show "case km_new (counted_mem s) v m of (a, m') \<Rightarrow> a \<notin># R \<and> cm_own m' = Some (add_mset a R) \<and>
      km_val (counted_mem s) m' a = v \<and> (\<forall>b \<in># R. km_val (counted_mem s) m' b = km_val (counted_mem s) m b)"
    if "cm_own m = Some R" for v m R
    using that by (auto simp: counted_mem_def cm_read_def cm_own_def less_Suc_eq split: if_splits)
  show "cm_own (km_r1 (counted_mem s) a m) = Some (add_mset a (add_mset a R))" if "cm_own m = Some (add_mset a R)" for a m R
  proof -
    have "a \<in> set (cm_refs m)" using that by (metis cm_own_def option.distinct(1) option.inject set_mset_mset union_single_eq_member)
    with that show ?thesis by (auto simp: counted_mem_def cm_read_def cm_own_def split: if_splits)
  qed
  show "cm_own (km_take (counted_mem s) sy as m) = Some (if sy \<and> \<not> s then mset as + R else R)"
    "\<forall>b \<in># R. km_val (counted_mem s) (km_take (counted_mem s) sy as m) b = km_val (counted_mem s) m b"
    if "cm_own m = Some (mset as + R)" for sy as m R
    using cm_releases_own [OF that] that by (simp_all add: counted_mem_def cm_read_def fun_eq_iff)
qed (use cm_release_own in \<open>auto simp: counted_mem_def cm_read_def cm_own_def split: if_splits\<close>)

lemma cm_empty_own: "cm_own cm_empty = Some {#}"
  by (simp add: cm_own_def cm_empty_def)

section \<open>Property\<close>

text \<open>C27: A block of code that handles kdb+ objects only through the wrappers never releases a reference it does not have,
  never loses one, and never touches an object it does not hold: whatever it declares, moves, assigns (to itself as
  well), shares, releases and hands on, its references are at every moment those of its variables and of the pointers it has
  released and not handed on; when the scopes end, exactly the latter are left.\<close>

theorem wrappers_balance:
  assumes "mem_contract s km own" "own m = Some R" "k_block km ss ([], [], m) = Some (vs, loose, m1)"
  shows "own m1 = Some (refs_of vs + mset loose + R) \<and> same km R m m1 \<and>
    (\<exists>m2. k_block km (replicate (length vs) EndScope) (vs, loose, m1) = Some ([], loose, m2) \<and>
       own m2 = Some (mset loose + R) \<and> same km R m m2)"
proof -
  have "balanced own R ([], [], m)" using assms(2) by (simp add: balanced_def)
  from k_block_balanced [OF assms(1) this assms(3)]
  have 1: "balanced own R (vs, loose, m1)" "same km R m m1" by simp_all
  obtain m2 where 2: "k_block km (replicate (length vs) EndScope) (vs, loose, m1) = Some ([], loose, m2)"
    using end_scopes by metis
  from k_block_balanced [OF assms(1) 1(1) 2] 1 2 show ?thesis by (auto simp: balanced_def intro: same_trans)
qed

definition demo_block :: "KStmt list" where
  "demo_block = [DeclNew (KLong 1), DeclShare 0, MoveAssign 1 1, DeclEmpty, MoveAssign 2 0, DeclNew (KLong 2), MoveAssign 1 3,
     Release 2, EndScope]"

lemma wrappers_balance_witness:
  "\<exists>m1. k_block (counted_mem True) demo_block ([], [], cm_empty) = Some ([None, Some 1, None], [0], m1) \<and>
     cm_own m1 = Some {#0, 1#}"
proof -
  obtain m1 where r: "k_block (counted_mem True) demo_block ([], [], cm_empty) = Some ([None, Some 1, None], [0], m1)"
    by (simp add: demo_block_def counted_mem_def cm_empty_def k_share_def ko_assign_def ko_destroy_def ko_release_def
        cm_release_def numeral_3_eq_3 numeral_2_eq_2 nth_append butlast_append)
  from wrappers_balance [OF counted_contract cm_empty_own r] r show ?thesis by (auto simp: add_mset_commute)
qed

end
