(* ===== verification/Tp_Memory.thy ===== *)
theory Tp_Memory
  imports K_Object Trade_Gap Fh_Stats
begin

text \<open>
  \<open>cpp/include/tp_publisher.hpp\<close> and \<open>trade_gap.hpp\<close> once more, now with the pointers of the code: which
  call takes a reference, which keeps one, which releases one. \<open>Tp_Publisher\<close> and \<open>Trade_Gap\<close> model the same methods on
  the values of rows. Here a row is a \<open>kptr\<close>, the ring and the queue of gap events hold pointers, and the memory of
  the kdb+ library is threaded beside the world of the network.

  A method's lemma says three things. The ledger: if the program held \<open>R\<close> and what the method is given, it holds \<open>R\<close> and
  what the method keeps afterwards; as the contract is silent after a wrong release, there is none on the way. The frame:
  the objects in \<open>R\<close> are as they were. The refinement: \<open>pub\<close>, which reads the rows through their
  pointers, maps the step to the step of the method on values, or to its running for ever.
\<close>

section \<open>Calls\<close>

fun k_new_all :: "'m KMem \<Rightarrow> kobj list \<Rightarrow> 'm \<Rightarrow> kptr list \<times> 'm" where
  "k_new_all km [] m = ([], m)"
| "k_new_all km (v # vs) m =
     (case km_new km v m of (a, m1) \<Rightarrow> (case k_new_all km vs m1 of (as, m2) \<Rightarrow> (a # as, m2)))"

text \<open>\<open>k(h, f, as, (K)0)\<close>, sync and async: the reply is a fresh object.\<close>

definition k_call ::
    "'m KMem \<Rightarrow> 'w TpIo \<Rightarrow> int \<Rightarrow> string \<Rightarrow> kptr list \<Rightarrow> 'w \<Rightarrow> 'm \<Rightarrow> kptr option \<times> 'w \<times> 'm" where
  "k_call km io h f as w m =
     (case io_call io h f (map (km_val km m) as) w of
        (None, w1) \<Rightarrow> (None, w1, km_take km True as m)
      | (Some v, w1) \<Rightarrow> (case km_new km v (km_take km True as m) of (r, m1) \<Rightarrow> (Some r, w1, m1)))"

definition k_async ::
    "'m KMem \<Rightarrow> 'w TpIo \<Rightarrow> int \<Rightarrow> string \<Rightarrow> kptr list \<Rightarrow> 'w \<Rightarrow> 'm \<Rightarrow> bool \<times> 'w \<times> 'm" where
  "k_async km io h f as w m =
     (case io_async io h f (map (km_val km m) as) w of (ok, w1) \<Rightarrow> (ok, w1, km_take km False as m))"

section \<open>The ring of pointers\<close>

type_synonym kring = "(int \<times> kptr) list"

definition k_ring_push :: "'m KMem \<Rightarrow> nat \<Rightarrow> int \<Rightarrow> kptr \<Rightarrow> kring \<Rightarrow> 'm \<Rightarrow> kring \<times> 'm" where
  "k_ring_push km cap fhSeqNo row rows m =
     (if cap \<le> length rows then (tl rows @ [(fhSeqNo, row)], km_r0 km (snd (hd rows)) m)
      else (rows @ [(fhSeqNo, row)], m))"

definition k_ring_clear :: "'m KMem \<Rightarrow> kring \<Rightarrow> 'm \<Rightarrow> kring \<times> 'm" where
  "k_ring_clear km rows m = ([], fold (\<lambda>e. km_r0 km (snd e)) rows m)"

section \<open>The publisher\<close>

record KPublisher =
  kp_cfg :: TpPublisherConfig
  kp_running :: bool
  kp_ring :: kring
  kp_handle :: int
  kp_fatalError :: string
  kp_reconnects :: nat
  kp_rowsResent :: nat
  kp_rowsUnresendable :: int
  kp_lastReply :: int

definition newKPublisher :: "TpPublisherConfig \<Rightarrow> KPublisher" where
  "newKPublisher cfg = \<lparr>kp_cfg = cfg, kp_running = True, kp_ring = [], kp_handle = -1, kp_fatalError = [],
     kp_reconnects = 0, kp_rowsResent = 0, kp_rowsUnresendable = 0, kp_lastReply = -1\<rparr>"

text \<open>Reading a row, and the publisher with its rows read.\<close>

definition row_at :: "'m KMem \<Rightarrow> 'm \<Rightarrow> kptr \<Rightarrow> krow" where
  "row_at km m a = (case km_val km m a of KMixed r \<Rightarrow> r | _ \<Rightarrow> [])"

definition is_row_at :: "'m KMem \<Rightarrow> 'm \<Rightarrow> kptr \<Rightarrow> bool" where
  "is_row_at km m a \<longleftrightarrow> km_val km m a = KMixed (row_at km m a)"

definition ring_at :: "'m KMem \<Rightarrow> 'm \<Rightarrow> kring \<Rightarrow> ring" where
  "ring_at km m rows = map (\<lambda>(s, a). (s, row_at km m a)) rows"

definition pub :: "'m KMem \<Rightarrow> 'm \<Rightarrow> KPublisher \<Rightarrow> TpPublisher" where
  "pub km m p = \<lparr>p_cfg = kp_cfg p, p_running = kp_running p, p_ring = ring_at km m (kp_ring p), p_handle = kp_handle p,
     p_fatalError = kp_fatalError p, p_reconnects = kp_reconnects p, p_rowsResent = kp_rowsResent p,
     p_rowsUnresendable = kp_rowsUnresendable p, p_lastReply = kp_lastReply p\<rparr>"

definition k_registerSession ::
    "'m KMem \<Rightarrow> 'w TpIo \<Rightarrow> int \<Rightarrow> int \<Rightarrow> KPublisher \<Rightarrow> 'w \<Rightarrow> 'm \<Rightarrow> int \<times> int \<times> KPublisher \<times> 'w \<times> 'm" where
  "k_registerSession km io h nextFhSeqNo p w m =
     (case k_new_all km [KSym (tc_table (kp_cfg p)), KLong (tc_sessionId (kp_cfg p)), KLong nextFhSeqNo,
             KLong (tc_width (kp_cfg p))] m of (as, m1) \<Rightarrow>
      (case k_call km io h ''.tp.registerSession'' as w m1 of
         (None, w1, m2) \<Rightarrow> (0, -1, p, w1, m2)
       | (Some r, w1, m2) \<Rightarrow>
           (case km_val km m2 r of
              KError e \<Rightarrow> (-1, -1, p\<lparr>kp_fatalError := ''registration rejected for '' @ tc_table (kp_cfg p) @ '': '' @ e\<rparr>,
                w1, km_r0 km r m2)
            | v \<Rightarrow> (let lastLogged = (case v of KLong n \<Rightarrow> n | _ \<Rightarrow> -1)
                    in (1, lastLogged, p\<lparr>kp_lastReply := lastLogged\<rparr>, w1, km_r0 km r m2)))))"

fun k_send_rows :: "'m KMem \<Rightarrow> 'w TpIo \<Rightarrow> int \<Rightarrow> string \<Rightarrow> kptr list \<Rightarrow> 'w \<Rightarrow> 'm \<Rightarrow> bool \<times> 'w \<times> 'm" where
  "k_send_rows km io h table [] w m = (True, w, m)"
| "k_send_rows km io h table (row # rows) w m =
     (case km_new km (KSym table) (km_r1 km row m) of (t, m1) \<Rightarrow>
      (case k_async km io h ''.u.upd'' [t, row] w m1 of
         (False, w2, m2) \<Rightarrow> (False, w2, m2)
       | (True, w2, m2) \<Rightarrow> k_send_rows km io h table rows w2 m2))"

definition k_resend :: "'m KMem \<Rightarrow> 'w TpIo \<Rightarrow> int \<Rightarrow> int \<Rightarrow> KPublisher \<Rightarrow> 'w \<Rightarrow> 'm \<Rightarrow> bool \<times> KPublisher \<times> 'w \<times> 'm" where
  "k_resend km io h lastLogged p w m =
     (if lastLogged < 0 \<or> kp_ring p = [] \<or> fst (last (kp_ring p)) \<le> lastLogged then (True, p, w, m)
      else let gone = (let firstNeeded = lastLogged + 1
                       in if firstNeeded < fst (hd (kp_ring p)) then fst (hd (kp_ring p)) - firstNeeded else 0);
               p1 = (if 0 < gone then p\<lparr>kp_rowsUnresendable := kp_rowsUnresendable p + gone\<rparr> else p);
               rows = map snd (filter (\<lambda>e. lastLogged < fst e) (kp_ring p))
           in case k_send_rows km io h (tc_table (kp_cfg p)) rows w m of
                (False, w1, m1) \<Rightarrow> (False, p1, w1, m1)
              | (True, w1, m1) \<Rightarrow> (True, p1\<lparr>kp_rowsResent := kp_rowsResent p1 + length rows\<rparr>, w1, m1))"

text \<open>The methods that do not touch an object use only the configuration and the flag.\<close>

definition k_running :: "'w TpIo \<Rightarrow> KPublisher \<Rightarrow> 'w \<Rightarrow> bool \<times> 'w" where
  "k_running io p w = (case io_poll io w of (stop, w1) \<Rightarrow> (kp_running p \<and> \<not> stop, w1))"

definition k_connectOnce ::
    "'m KMem \<Rightarrow> 'w TpIo \<Rightarrow> int \<Rightarrow> KPublisher \<Rightarrow> 'w \<Rightarrow> 'm \<Rightarrow> bool option \<times> KPublisher \<times> 'w \<times> 'm" where
  "k_connectOnce km io nextFhSeqNo p w m =
     (case io_khpu io (tc_host (kp_cfg p)) (tc_port (kp_cfg p)) w of (h, w1) \<Rightarrow>
        if 0 < h then
          (case k_registerSession km io h nextFhSeqNo p w1 m of (reg, lastLogged, p1, w2, m2) \<Rightarrow>
             if reg < 0 then (Some False, p1\<lparr>kp_running := False\<rparr>, io_kclose io h w2, m2)
             else if reg = 1 then
               (case k_resend km io h lastLogged p1 w2 m2 of (ok, p2, w3, m3) \<Rightarrow>
                  if ok then (Some True, p2\<lparr>kp_handle := h\<rparr>, w3, m3) else (None, p2, io_kclose io h w3, m3))
             else (None, p1, io_kclose io h w2, m2))
        else (None, p, w1, m))"

partial_function (option) k_connect_loop ::
    "'m KMem \<Rightarrow> 'w TpIo \<Rightarrow> int \<Rightarrow> nat \<Rightarrow> KPublisher \<Rightarrow> 'w \<Rightarrow> 'm \<Rightarrow> (bool \<times> KPublisher \<times> 'w \<times> 'm) option" where
  "k_connect_loop km io nextFhSeqNo attempt p w m =
     (case k_running io p w of (run, w1) \<Rightarrow>
        if \<not> run then Some (False, p, w1, m)
        else case k_connectOnce km io nextFhSeqNo p w1 m of (res, p1, w2, m2) \<Rightarrow>
          (case res of Some b \<Rightarrow> Some (b, p1, w2, m2)
           | None \<Rightarrow> (case sleepWithBackoff io attempt (pub km m2 p1) w2 of (go, w3) \<Rightarrow>
               if go then k_connect_loop km io nextFhSeqNo (Suc attempt) p1 w3 m2 else Some (False, p1, w3, m2))))"

declare k_connect_loop.simps [code]

definition k_connect :: "'m KMem \<Rightarrow> 'w TpIo \<Rightarrow> int \<Rightarrow> KPublisher \<Rightarrow> 'w \<Rightarrow> 'm \<Rightarrow> (bool \<times> KPublisher \<times> 'w \<times> 'm) option" where
  "k_connect km io nextFhSeqNo p w m = k_connect_loop km io nextFhSeqNo 0 p w m"

text \<open>\<open>row\<close> is one reference, which \<open>publish\<close> takes over.\<close>

definition k_publish ::
    "'m KMem \<Rightarrow> 'w TpIo \<Rightarrow> kptr \<Rightarrow> int \<Rightarrow> KPublisher \<Rightarrow> 'w \<Rightarrow> 'm \<Rightarrow> (bool \<times> KPublisher \<times> 'w \<times> 'm) option" where
  "k_publish km io row fhSeqNo p0 w m0 =
     (case k_ring_push km (ring_capacity (tc_ringSize (kp_cfg p0))) fhSeqNo row (kp_ring p0) (km_r1 km row m0) of (rows, m) \<Rightarrow>
      let p = p0\<lparr>kp_ring := rows\<rparr>
      in if 0 < kp_handle p then
           (case km_new km (KSym (tc_table (kp_cfg p))) m of (t, m1) \<Rightarrow>
            (case k_async km io (kp_handle p) ''.u.upd'' [t, row] w m1 of
               (True, w1, m2) \<Rightarrow> Some (True, p, w1, m2)
             | (False, w1, m2) \<Rightarrow>
                 k_connect km io (fhSeqNo + 1) (p\<lparr>kp_handle := -1, kp_reconnects := kp_reconnects p + 1\<rparr>)
                   (io_kclose io (kp_handle p) w1) m2))
         else k_connect km io (fhSeqNo + 1) p w (km_r0 km row m))"

text \<open>\<open>row\<close> stays the caller's.\<close>

definition k_sendEvent ::
    "'m KMem \<Rightarrow> 'w TpIo \<Rightarrow> string \<Rightarrow> kptr \<Rightarrow> KPublisher \<Rightarrow> 'w \<Rightarrow> 'm \<Rightarrow> EventResult \<times> KPublisher \<times> 'w \<times> 'm" where
  "k_sendEvent km io table row p w m =
     (if kp_handle p \<le> 0 then (ConnectionLost, p, w, m)
      else case km_new km (KSym table) (km_r1 km row m) of (t, m1) \<Rightarrow>
        (case k_call km io (kp_handle p) ''.tp.event'' [t, row] w m1 of
           (None, w1, m2) \<Rightarrow>
             (ConnectionLost, p\<lparr>kp_handle := -1, kp_reconnects := kp_reconnects p + 1\<rparr>, io_kclose io (kp_handle p) w1, m2)
         | (Some r, w1, m2) \<Rightarrow>
             (case km_val km m2 r of KError e \<Rightarrow> (Rejected, p, w1, km_r0 km r m2) | _ \<Rightarrow> (Acked, p, w1, km_r0 km r m2))))"

definition k_tradeState :: "'m KMem \<Rightarrow> 'w TpIo \<Rightarrow> KPublisher \<Rightarrow> 'w \<Rightarrow> 'm \<Rightarrow> TradeState \<times> KPublisher \<times> 'w \<times> 'm" where
  "k_tradeState km io p w m =
     (let none = \<lparr>ts_ok = False, ts_lastIds = [], ts_openGaps = []\<rparr>
      in if kp_handle p \<le> 0 then (none, p, w, m)
         else case km_new km (KSym (tc_table (kp_cfg p))) m of (t, m1) \<Rightarrow>
           (case k_call km io (kp_handle p) ''.tp.tradeState'' [t] w m1 of
              (None, w1, m2) \<Rightarrow>
                (none, p\<lparr>kp_handle := -1, kp_reconnects := kp_reconnects p + 1\<rparr>, io_kclose io (kp_handle p) w1, m2)
            | (Some r, w1, m2) \<Rightarrow>
                (case km_val km m2 r of KError e \<Rightarrow> (none, p, w1, km_r0 km r m2)
                 | v \<Rightarrow> (parseTradeState v, p, w1, km_r0 km r m2))))"

definition k_close :: "'w TpIo \<Rightarrow> KPublisher \<Rightarrow> 'w \<Rightarrow> KPublisher \<times> 'w" where
  "k_close io p w =
     (if 0 < kp_handle p then (p\<lparr>kp_handle := -1\<rparr>, io_kclose io (kp_handle p) w) else (p, w))"

text \<open>\<open>~TpPublisher\<close>, and \<open>~ResendRing\<close> of its member.\<close>

definition k_destroyPublisher :: "'m KMem \<Rightarrow> 'w TpIo \<Rightarrow> KPublisher \<Rightarrow> 'w \<Rightarrow> 'm \<Rightarrow> KPublisher \<times> 'w \<times> 'm" where
  "k_destroyPublisher km io p w m =
     (case k_close io p w of (p1, w1) \<Rightarrow> (case k_ring_clear km (kp_ring p1) m of (rows, m1) \<Rightarrow> (p1\<lparr>kp_ring := rows\<rparr>, w1, m1)))"


section \<open>Calls and the ledger\<close>

lemma k_new_all_owned:
  assumes c: "mem_contract s km own"
  shows "own m = Some R \<Longrightarrow> k_new_all km vs m = (as, m') \<Longrightarrow>
    own m' = Some (mset as + R) \<and> same km R m m' \<and> map (km_val km m') as = vs"
proof (induction vs arbitrary: m R as m')
  case (Cons v vs)
  obtain a m1 where n: "km_new km v m = (a, m1)" by fastforce
  obtain as1 m2 where ns: "k_new_all km vs m1 = (as1, m2)" by fastforce
  note 1 = own_new [OF c Cons.prems(1) n]
  from Cons.IH [OF 1(2) ns] 1 n ns Cons.prems(2) show ?case by (auto intro: same_trans)
qed simp

lemma k_call_owned:
  assumes c: "mem_contract True km own" and o: "own m = Some (mset as + R)" and k: "k_call km io h f as w m = (ro, w', m')"
  shows "own m' = Some (mset (map the (filter (\<lambda>r. r \<noteq> None) [ro])) + R) \<and> same km R m m' \<and>
    io_call io h f (map (km_val km m) as) w = (map_option (km_val km m') ro, w')"
proof -
  obtain vo w1 where i: "io_call io h f (map (km_val km m) as) w = (vo, w1)" by fastforce
  note t = own_take [OF c o, of True]
  show ?thesis
  proof (cases vo)
    case None
    with i t k show ?thesis by (simp add: k_call_def)
  next
    case (Some v)
    obtain r m1 where n: "km_new km v (km_take km True as m) = (r, m1)" by fastforce
    have "own (km_take km True as m) = Some R" using t by simp
    from own_new [OF c this n] t n k i Some show ?thesis by (auto simp: k_call_def intro: same_trans)
  qed
qed

lemma k_async_owned:
  assumes c: "mem_contract s km own" and o: "own m = Some (mset as + R)" and k: "k_async km io h f as w m = (ok, w', m')"
  shows "own m' = Some R \<and> same km R m m' \<and> io_async io h f (map (km_val km m) as) w = (ok, w')"
  using own_take [OF c o, of False] k by (auto simp: k_async_def split: prod.splits)

section \<open>Rows read through pointers\<close>

definition ring_refs :: "kring \<Rightarrow> kptr multiset" where
  "ring_refs rows = mset (map snd rows)"

lemma ring_refs_simps [simp]: "ring_refs [] = {#}" "ring_refs (e # rows) = add_mset (snd e) (ring_refs rows)"
  "ring_refs (rows @ rows') = ring_refs rows + ring_refs rows'"
  by (simp_all add: ring_refs_def)

lemma row_at_same: "same km R m m' \<Longrightarrow> a \<in># R \<Longrightarrow> row_at km m' a = row_at km m a"
  "same km R m m' \<Longrightarrow> a \<in># R \<Longrightarrow> is_row_at km m' a = is_row_at km m a"
  by (simp_all add: same_def row_at_def is_row_at_def)

lemma ring_at_same: "same km (ring_refs rows) m m' \<Longrightarrow> ring_at km m' rows = ring_at km m rows"
  by (induction rows) (auto simp: ring_at_def row_at_def)

lemma pub_same: "same km (ring_refs (kp_ring p)) m m' \<Longrightarrow> pub km m' p = pub km m p"
  by (simp add: pub_def ring_at_same)

lemma ring_at_simps [simp]: "ring_at km m rows = [] \<longleftrightarrow> rows = []" "length (ring_at km m rows) = length rows"
  "rows \<noteq> [] \<Longrightarrow> fst (hd (ring_at km m rows)) = fst (hd rows)"
  "rows \<noteq> [] \<Longrightarrow> fst (last (ring_at km m rows)) = fst (last rows)"
  "tl (ring_at km m rows) = ring_at km m (tl rows)"
  "ring_at km m (rows @ rows') = ring_at km m rows @ ring_at km m rows'"
  by (simp_all add: ring_at_def hd_map last_map case_prod_beta map_tl)

lemma rows_after_at: "rows_after n (ring_at km m rows) = map (row_at km m) (map snd (filter (\<lambda>e. n < fst e) rows))"
  by (induction rows) (auto simp: rows_after_def ring_at_def)

lemma pub_simps [simp]: "p_cfg (pub km m p) = kp_cfg p" "p_running (pub km m p) = kp_running p"
  "p_ring (pub km m p) = ring_at km m (kp_ring p)" "p_handle (pub km m p) = kp_handle p"
  "p_fatalError (pub km m p) = kp_fatalError p" "p_reconnects (pub km m p) = kp_reconnects p"
  "p_rowsResent (pub km m p) = kp_rowsResent p" "p_rowsUnresendable (pub km m p) = kp_rowsUnresendable p"
  "p_lastReply (pub km m p) = kp_lastReply p"
  by (simp_all add: pub_def)

lemma pub_upd: "pub km m (p\<lparr>kp_handle := h\<rparr>) = (pub km m p)\<lparr>p_handle := h\<rparr>"
  "pub km m (p\<lparr>kp_reconnects := n\<rparr>) = (pub km m p)\<lparr>p_reconnects := n\<rparr>"
  "pub km m (p\<lparr>kp_running := b\<rparr>) = (pub km m p)\<lparr>p_running := b\<rparr>"
  "pub km m (p\<lparr>kp_fatalError := e\<rparr>) = (pub km m p)\<lparr>p_fatalError := e\<rparr>"
  "pub km m (p\<lparr>kp_lastReply := i\<rparr>) = (pub km m p)\<lparr>p_lastReply := i\<rparr>"
  "pub km m (p\<lparr>kp_rowsResent := n\<rparr>) = (pub km m p)\<lparr>p_rowsResent := n\<rparr>"
  "pub km m (p\<lparr>kp_rowsUnresendable := i\<rparr>) = (pub km m p)\<lparr>p_rowsUnresendable := i\<rparr>"
  "pub km m (p\<lparr>kp_ring := rows\<rparr>) = (pub km m p)\<lparr>p_ring := ring_at km m rows\<rparr>"
  by (simp_all add: pub_def)

text \<open>What the program holds between calls: one reference for each row of the ring, and \<open>R\<close>.\<close>

definition held :: "'m KMem \<Rightarrow> ('m \<Rightarrow> kptr multiset option) \<Rightarrow> kptr multiset \<Rightarrow> KPublisher \<Rightarrow> 'm \<Rightarrow> bool" where
  "held km own R p m \<longleftrightarrow> own m = Some (ring_refs (kp_ring p) + R) \<and> (\<forall>e \<in> set (kp_ring p). is_row_at km m (snd e))"

lemma held_own: "held km own R p m \<Longrightarrow> own m = Some (ring_refs (kp_ring p) + R)"
  by (simp add: held_def)

lemma held_keep:
  assumes "held km own R p m" "own m' = Some (ring_refs (kp_ring p) + R')" "same km (ring_refs (kp_ring p)) m m'"
    and "kp_ring p' = kp_ring p"
  shows "held km own R' p' m'"
  using assms row_at_same(2) [OF assms(3)] by (auto simp: held_def ring_refs_def)

section \<open>The methods\<close>

lemma k_registerSession_pub:
  assumes c: "mem_contract True km own" and o: "own m = Some R"
    and k: "k_registerSession km io h n p w m = (reg, l, p', w', m')"
  shows "own m' = Some R \<and> same km R m m' \<and> kp_ring p' = kp_ring p \<and>
    registerSession io h n (pub km m p) w = (reg, l, pub km m p', w')"
proof -
  let ?vs = "[KSym (tc_table (kp_cfg p)), KLong (tc_sessionId (kp_cfg p)), KLong n, KLong (tc_width (kp_cfg p))]"
  obtain as m1 where n: "k_new_all km ?vs m = (as, m1)" by fastforce
  note 1 = k_new_all_owned [OF c o n]
  obtain ro w1 m2 where kc: "k_call km io h ''.tp.registerSession'' as w m1 = (ro, w1, m2)" by (metis prod_cases3)
  note 2 = k_call_owned [OF c conjunct1 [OF 1] kc]
  show ?thesis
  proof (cases ro)
    case None
    with 1 2 n kc k show ?thesis by (auto simp: k_registerSession_def registerSession_def intro: same_trans)
  next
    case (Some r)
    have "own m2 = Some (add_mset r R)" using 2 Some by simp
    note 3 = own_r0 [OF c this]
    have "same km R m (km_r0 km r m2)" using 1 2 3 by (blast intro: same_trans)
    with 1 2 3 Some n kc k show ?thesis
      by (cases "km_val km m2 r") (auto simp: k_registerSession_def registerSession_def pub_upd Let_def)
  qed
qed

lemma k_send_rows_pub:
  assumes c: "mem_contract True km own"
  shows "own m = Some R \<Longrightarrow> \<forall>a \<in> set as. a \<in># R \<and> is_row_at km m a \<Longrightarrow> k_send_rows km io h table as w m = (ok, w', m') \<Longrightarrow>
    own m' = Some R \<and> same km R m m' \<and> send_rows io h table (map (row_at km m) as) w = (ok, w')"
proof (induction as arbitrary: w m)
  case (Cons a as)
  have a: "a \<in># R" "is_row_at km m a" using Cons.prems(2) by auto
  note 1 = own_r1 [OF c Cons.prems(1) a(1)]
  obtain t m1 where n: "km_new km (KSym table) (km_r1 km a m) = (t, m1)" by fastforce
  note 2 = own_new [OF c 1(1) n]
  have o1: "own m1 = Some (mset [t, a] + R)" using 2(2) by simp
  obtain ok1 w2 m2 where ka: "k_async km io h ''.u.upd'' [t, a] w m1 = (ok1, w2, m2)" by (metis prod_cases3)
  note 3 = k_async_owned [OF c o1 ka]
  have s2: "same km R m m2" using 1 2(4) 3 by (auto intro: same_trans)
  have "km_val km m1 a = KMixed (row_at km m a)" using a 1(2) 2(4) by (auto simp: is_row_at_def same_def)
  then have io: "io_async io h ''.u.upd'' [KSym table, KMixed (row_at km m a)] w = (ok1, w2)" using 3 2(3) by simp
  show ?case
  proof (cases ok1)
    case False
    with Cons.prems(3) n ka 3 s2 io show ?thesis by simp
  next
    case True
    have "\<forall>b \<in> set as. b \<in># R \<and> is_row_at km m2 b" using Cons.prems(2) row_at_same [OF s2] by auto
    moreover have "k_send_rows km io h table as w2 m2 = (ok, w', m')" using Cons.prems(3) n ka True by simp
    ultimately have "own m' = Some R \<and> same km R m2 m' \<and> send_rows io h table (map (row_at km m2) as) w2 = (ok, w')"
      using Cons.IH [of m2 w2] 3 by simp
    moreover have "map (row_at km m2) as = map (row_at km m) as" using Cons.prems(2) row_at_same [OF s2] by auto
    ultimately show ?thesis using io True s2 by (auto intro: same_trans)
  qed
qed simp

lemma k_resend_pub:
  assumes c: "mem_contract True km own" and o: "held km own R p m" and k: "k_resend km io h l p w m = (ok, p', w', m')"
  shows "held km own R p' m' \<and> same km (ring_refs (kp_ring p) + R) m m' \<and> kp_ring p' = kp_ring p \<and>
    resend io h l (pub km m p) w = (ok, pub km m p', w')"
proof (cases "l < 0 \<or> kp_ring p = [] \<or> fst (last (kp_ring p)) \<le> l")
  case True
  with k o show ?thesis by (auto simp: k_resend_def resend_def newestSeq_def)
next
  case False
  let ?as = "map snd (filter (\<lambda>e. l < fst e) (kp_ring p))"
  obtain ok1 w1 m1 where s: "k_send_rows km io h (tc_table (kp_cfg p)) ?as w m = (ok1, w1, m1)" by (metis prod_cases3)
  have "\<forall>a \<in> set ?as. a \<in># ring_refs (kp_ring p) + R \<and> is_row_at km m a"
    using o by (auto simp: held_def ring_refs_def)
  note 1 = k_send_rows_pub [OF c held_own [OF o] this s]
  have h: "held km own R q m1" if "kp_ring q = kp_ring p" for q
    using held_keep [OF o, of m1 R q] 1 that by simp
  from False s k 1 h show ?thesis
    by (cases ok1) (auto simp: k_resend_def resend_def newestSeq_def missingAfter_def rows_after_at pub_upd Let_def)
qed

text \<open>How the result of a step on pointers relates to that of the step on values.\<close>

definition tracks ::
    "'m KMem \<Rightarrow> ('m \<Rightarrow> kptr multiset option) \<Rightarrow> kptr multiset \<Rightarrow> 'm \<Rightarrow>
      'a \<times> TpPublisher \<times> 'w \<Rightarrow> 'a \<times> KPublisher \<times> 'w \<times> 'm \<Rightarrow> bool" where
  "tracks km own R m v kv \<longleftrightarrow> (case v of (x, P, w) \<Rightarrow> (case kv of (x', p', w', m') \<Rightarrow>
     x' = x \<and> w' = w \<and> P = pub km m' p' \<and> held km own R p' m' \<and> same km R m m'))"

lemma k_running_pub: "k_running io p w = running io (pub km m p) w"
  by (simp add: k_running_def running_def)

lemma k_connectOnce_pub:
  assumes c: "mem_contract True km own" and o: "held km own R p m"
  shows "tracks km own R m (connectOnce io n (pub km m p) w) (k_connectOnce km io n p w m)"
proof -
  obtain h w1 where kh: "io_khpu io (tc_host (kp_cfg p)) (tc_port (kp_cfg p)) w = (h, w1)" by fastforce
  obtain reg l p1 w2 m1 where r: "k_registerSession km io h n p w1 m = (reg, l, p1, w2, m1)" by (metis prod_cases5)
  note 1 = k_registerSession_pub [OF c held_own [OF o] r]
  have h1: "held km own R p1 m1" using held_keep [OF o, of m1 R p1] 1 by simp
  have pub1: "pub km m p1 = pub km m1 p1" using 1 pub_same [of km p1 m m1] by simp
  obtain ok p2 w3 m2 where s: "k_resend km io h l p1 w2 m1 = (ok, p2, w3, m2)" by (metis prod_cases4)
  note 2 = k_resend_pub [OF c h1 s]
  have pub2: "pub km m1 p2 = pub km m2 p2" using 2 pub_same [of km p2 m1 m2] by simp
  have s2: "same km R m m2" using 1 2 by (auto intro: same_trans)
  show ?thesis
    using o kh r s 1 2 h1 pub1 pub2 s2
    by (auto simp: k_connectOnce_def connectOnce_def tracks_def held_def pub_upd split: if_splits)
qed

lemma k_connect_loop_pub1:
  assumes c: "mem_contract True km own" and ret: "connect_loop io n att P w = Some v"
  shows "\<forall>p m. P = pub km m p \<longrightarrow> held km own R p m \<longrightarrow> (\<exists>kv. k_connect_loop km io n att p w m = Some kv \<and> tracks km own R m v kv)"
proof (induction arbitrary: rule: connect_loop.raw_induct [OF _ ret])
  fix f and io :: "'b TpIo" and n att P w v
  assume ih: "\<And>io n att P w v. f io n att P w = Some v \<Longrightarrow>
      \<forall>p m. P = pub km m p \<longrightarrow> held km own R p m \<longrightarrow> (\<exists>kv. k_connect_loop km io n att p w m = Some kv \<and> tracks km own R m v kv)"
    and eq: "(case running io P w of (run, w1) \<Rightarrow>
        if \<not> run then Some (False, P, w1)
        else case connectOnce io n P w1 of (res, p1, w2) \<Rightarrow>
          (case res of Some b \<Rightarrow> Some (b, p1, w2)
           | None \<Rightarrow> (case sleepWithBackoff io att p1 w2 of (go, w3) \<Rightarrow>
               if go then f io n (Suc att) p1 w3 else Some (False, p1, w3)))) = Some v"
  show "\<forall>p m. P = pub km m p \<longrightarrow> held km own R p m \<longrightarrow> (\<exists>kv. k_connect_loop km io n att p w m = Some kv \<and> tracks km own R m v kv)"
  proof (intro allI impI)
    fix p m
    assume P: "P = pub km m p" and o: "held km own R p m"
    obtain run w1 where r: "running io (pub km m p) w = (run, w1)" by fastforce
    obtain res p1 w2 m1 where k1: "k_connectOnce km io n p w1 m = (res, p1, w2, m1)" by (metis prod_cases4)
    have t: "connectOnce io n (pub km m p) w1 = (res, pub km m1 p1, w2)" "held km own R p1 m1" "same km R m m1"
      using k_connectOnce_pub [OF c o, of io n w1] k1 by (auto simp: tracks_def split: prod.splits)
    obtain go w3 where g: "sleepWithBackoff io att (pub km m1 p1) w2 = (go, w3)" by fastforce
    note u = k_connect_loop.simps [of km io n att p w m, unfolded k_running_pub [of io p w km m] r prod.case k1]
    show "\<exists>kv. k_connect_loop km io n att p w m = Some kv \<and> tracks km own R m v kv"
    proof (cases "run \<and> res = None \<and> go")
      case True
      then have f: "f io n (Suc att) (pub km m1 p1) w3 = Some v" using eq by (simp add: P r t(1) g)
      obtain kv where kv: "k_connect_loop km io n (Suc att) p1 w3 m1 = Some kv" "tracks km own R m1 v kv"
        using ih [OF f] t(2) by blast
      have "tracks km own R m v kv" using kv(2) t(3) by (auto simp: tracks_def intro: same_trans)
      with True u kv(1) g show ?thesis by simp
    next
      case False
      then show ?thesis using eq u t o by (auto simp: P r g tracks_def split: option.splits if_splits)
    qed
  qed
qed

lemma k_connect_loop_pub2:
  assumes c: "mem_contract True km own" and ret: "k_connect_loop km io n att p w m = Some kv"
  shows "held km own R p m \<longrightarrow> connect_loop io n att (pub km m p) w \<noteq> None"
proof -
  let ?P = "\<lambda>km' io n att p w m kv. km' = km \<longrightarrow> held km own R p m \<longrightarrow> connect_loop io n att (pub km m p) w \<noteq> None"
  have "?P km io n att p w m kv"
  proof (rule k_connect_loop.raw_induct [where P = ?P, OF _ ret])
    fix f km' and io :: "'b TpIo" and n att p w m kv
    assume ih: "\<And>km' io n att p w m kv. f km' io n att p w m = Some kv \<Longrightarrow> ?P km' io n att p w m kv"
      and eq: "(case k_running io p w of (run, w1) \<Rightarrow>
        if \<not> run then Some (False, p, w1, m)
        else case k_connectOnce km' io n p w1 m of (res, p1, w2, m2) \<Rightarrow>
          (case res of Some b \<Rightarrow> Some (b, p1, w2, m2)
           | None \<Rightarrow> (case sleepWithBackoff io att (pub km' m2 p1) w2 of (go, w3) \<Rightarrow>
               if go then f km' io n (Suc att) p1 w3 m2 else Some (False, p1, w3, m2)))) = Some kv"
    show "?P km' io n att p w m kv"
    proof (intro impI)
      assume km: "km' = km" and o: "held km own R p m"
      obtain run w1 where r: "running io (pub km m p) w = (run, w1)" by fastforce
      obtain res p1 w2 m1 where k1: "k_connectOnce km io n p w1 m = (res, p1, w2, m1)" by (metis prod_cases4)
      have t: "connectOnce io n (pub km m p) w1 = (res, pub km m1 p1, w2)" "held km own R p1 m1"
        using k_connectOnce_pub [OF c o, of io n w1] k1 by (auto simp: tracks_def split: prod.splits)
      obtain go w3 where g: "sleepWithBackoff io att (pub km m1 p1) w2 = (go, w3)" by fastforce
      have "connect_loop io n (Suc att) (pub km m1 p1) w3 \<noteq> None" if "run" "res = None" "go"
      proof -
        have "f km io n (Suc att) p1 w3 m1 = Some kv"
          using eq that by (simp add: km k_running_pub [of io p w km m] r k1 g)
        with ih t(2) show ?thesis by blast
      qed
      then show "connect_loop io n att (pub km m p) w \<noteq> None"
        by (subst connect_loop.simps) (auto simp: r t(1) g split: option.split)
    qed
  qed
  then show ?thesis by simp
qed

lemma k_connect_pub:
  assumes "mem_contract True km own" "held km own R p m"
  shows "rel_option (tracks km own R m) (connect io n (pub km m p) w) (k_connect km io n p w m)"
proof (cases "connect io n (pub km m p) w")
  case None
  then have "k_connect km io n p w m = None"
    using k_connect_loop_pub2 [OF assms(1), of io n 0 p w m] assms(2)
    by (cases "k_connect_loop km io n 0 p w m") (auto simp: connect_def k_connect_def)
  with None show ?thesis by simp
next
  case (Some v)
  then obtain kv where "k_connect km io n p w m = Some kv" "tracks km own R m v kv"
    using k_connect_loop_pub1 [OF assms(1) Some [unfolded connect_def], rule_format, OF refl assms(2)]
    unfolding k_connect_def by blast
  with Some show ?thesis by simp
qed

text \<open>A relation established after a first part of a step.\<close>

lemma tracks_after:
  assumes "same km R m m1" "rel_option (tracks km own R m1) v kv"
  shows "rel_option (tracks km own R m) v kv"
proof (rule option.rel_mono_strong [OF assms(2)])
  show "tracks km own R m1 x y \<Longrightarrow> tracks km own R m x y" for x y
    using assms(1) by (auto simp: tracks_def intro: same_trans)
qed

lemma k_ring_push_pub:
  assumes c: "mem_contract s km own" and o: "own m = Some (add_mset row (ring_refs rows + R))"
    and r: "\<forall>e \<in> set rows. is_row_at km m (snd e)" "is_row_at km m row" and cap: "0 < cap"
    and k: "k_ring_push km cap n row rows m = (rows', m')"
  shows "own m' = Some (ring_refs rows' + R) \<and> (\<forall>e \<in> set rows'. is_row_at km m' (snd e)) \<and>
    ring_at km m' rows' = ring_push cap n (row_at km m row) (ring_at km m rows) \<and> same km (add_mset row R) m m'"
proof (cases "cap \<le> length rows")
  case False
  with assms show ?thesis by (auto simp: k_ring_push_def ring_push_def ring_at_def)
next
  case True
  with cap obtain e rs where rows: "rows = e # rs" by (cases rows) auto
  have "own m = Some (add_mset (snd e) (add_mset row (ring_refs rs + R)))" using o rows by (simp add: add_mset_commute)
  note 1 = own_r0 [OF c this]
  have m': "m' = km_r0 km (snd e) m" "rows' = rs @ [(n, row)]" using k True rows by (simp_all add: k_ring_push_def)
  note rs = row_at_same [OF 1(2)]
  have "ring_at km m' rs = ring_at km m rs" using 1(2) m' by (intro ring_at_same) simp
  with True rows m' 1 r rs show ?thesis by (auto simp: ring_push_def ring_at_def ring_refs_def add_ac)
qed

lemma k_publish_pub:
  assumes c: "mem_contract True km own" and o: "held km own (add_mset row R) p m" and row: "is_row_at km m row"
  shows "rel_option (tracks km own R m) (publish io (row_at km m row) n (pub km m p) w) (k_publish km io row n p w m)"
proof -
  let ?cap = "ring_capacity (tc_ringSize (kp_cfg p))"
  have "row \<in># ring_refs (kp_ring p) + add_mset row R" by simp
  note 1 = own_r1 [OF c held_own [OF o] this]
  have rows: "\<forall>e \<in> set (kp_ring p). is_row_at km (km_r1 km row m) (snd e)" "is_row_at km (km_r1 km row m) row"
    "row_at km (km_r1 km row m) row = row_at km m row"
    using o row row_at_same [OF 1(2)] by (auto simp: held_def ring_refs_def)
  have ra: "ring_at km (km_r1 km row m) (kp_ring p) = ring_at km m (kp_ring p)" using 1(2) by (intro ring_at_same) simp
  obtain rs m1 where k1: "k_ring_push km ?cap n row (kp_ring p) (km_r1 km row m) = (rs, m1)" by fastforce
  note 2 = k_ring_push_pub [OF c 1(1) rows(1,2) ring_capacity_pos k1]
  let ?p = "p\<lparr>kp_ring := rs\<rparr>"
  have P: "pub km m1 ?p = (pub km m p)\<lparr>p_ring := ring_push (p_capacity (pub km m p)) n (row_at km m row) (p_ring (pub km m p))\<rparr>"
    using 2 ra rows by (simp add: pub_def p_capacity_def)
  have h1: "held km own (add_mset row R) ?p m1" using 2 by (simp add: held_def)
  have s1: "same km (add_mset row R) m m1" using 1 2 by (auto intro: same_trans)
  have v1: "km_val km m1 row = KMixed (row_at km m row)" using s1 row by (simp add: is_row_at_def)
  have lose: "rel_option (tracks km own R m) (connect io (n + 1) (pub km m2 q) w2) (k_connect km io (n + 1) q w2 m2)"
    if "same km R m m2" "held km own R q m2" for q w2 m2
    by (rule tracks_after [OF that(1) k_connect_pub [OF c that(2)]])
  show ?thesis
  proof (cases "0 < kp_handle p")
    case False
    have "own m1 = Some (add_mset row (ring_refs rs + R))" using h1 by (simp add: held_def)
    note 3 = own_r0 [OF c this]
    have h2: "held km own R ?p (km_r0 km row m1)" by (rule held_keep [OF h1]) (use 3 in simp_all)
    have "pub km (km_r0 km row m1) ?p = pub km m1 ?p" by (rule pub_same) (use 3 in simp)
    moreover have "same km R m (km_r0 km row m1)" using s1 3 by (auto intro: same_trans)
    ultimately show ?thesis using lose [OF _ h2, of w] False P k1 by (simp add: publish_def k_publish_def Let_def)
  next
    case True
    obtain t m2 where n: "km_new km (KSym (tc_table (kp_cfg p))) m1 = (t, m2)" by fastforce
    note 3 = own_new [OF c held_own [OF h1] n]
    have o3: "own m2 = Some (mset [t, row] + (ring_refs rs + R))" using 3(2) by simp
    obtain ok w1 m3 where ka: "k_async km io (kp_handle p) ''.u.upd'' [t, row] w m2 = (ok, w1, m3)" by (metis prod_cases3)
    note 4 = k_async_owned [OF c o3 ka]
    have s3: "same km (ring_refs rs + R) m1 m3" using 3(4) 4 by (auto intro: same_trans)
    have h3: "held km own R q m3" if "kp_ring q = rs" for q
      by (rule held_keep [OF h1]) (use 4 s3 that in simp_all)
    have P3: "pub km m3 q = pub km m1 q" if "kp_ring q = rs" for q by (rule pub_same) (use s3 that in simp)
    have io: "io_async io (kp_handle p) ''.u.upd'' [KSym (tc_table (kp_cfg p)), KMixed (row_at km m row)] w = (ok, w1)"
      using 4 3(3,4) v1 by simp
    have sm: "same km R m m3" using s1 s3 by (auto intro: same_trans)
    let ?q = "?p\<lparr>kp_handle := -1, kp_reconnects := kp_reconnects p + 1\<rparr>"
    have Pq: "pub km m3 ?q = (pub km m1 ?p)\<lparr>p_handle := -1, p_reconnects := kp_reconnects p + 1\<rparr>"
      using P3 [of ?q] by (simp add: pub_upd)
    show ?thesis
    proof (cases ok)
      case True
      have "tracks km own R m (True, pub km m1 ?p, w1) (True, ?p, w1, m3)"
        using h3 [of ?p] P3 [of ?p] sm by (simp add: tracks_def)
      with True \<open>0 < kp_handle p\<close> P k1 n ka io show ?thesis by (simp add: publish_def k_publish_def Let_def)
    next
      case False
      with lose [OF sm h3 [of ?q], of "io_kclose io (kp_handle p) w1"] Pq P \<open>0 < kp_handle p\<close> k1 n ka io
      show ?thesis by (simp add: publish_def k_publish_def Let_def)
    qed
  qed
qed

text \<open>Sending a row that stays owned, and the two ways to end with a reply.\<close>

lemma k_reply_released:
  assumes c: "mem_contract True km own" and h: "held km own R p m0" and o: "own m = Some (add_mset r (ring_refs (kp_ring p) + R))"
    and s: "same km (ring_refs (kp_ring p) + R) m0 m"
  shows "held km own R p (km_r0 km r m)" "pub km (km_r0 km r m) p = pub km m0 p" "same km R m0 (km_r0 km r m)"
proof -
  note 1 = own_r0 [OF c o]
  have s1: "same km (ring_refs (kp_ring p) + R) m0 (km_r0 km r m)" using s 1(2) by (blast intro: same_trans)
  show "held km own R p (km_r0 km r m)" by (rule held_keep [OF h]) (use 1 s1 in simp_all)
  show "pub km (km_r0 km r m) p = pub km m0 p" by (rule pub_same) (use s1 in simp)
  show "same km R m0 (km_r0 km r m)" using s1 by simp
qed

lemma k_sendEvent_pub:
  assumes c: "mem_contract True km own" and o: "held km own R p m" and row: "row \<in># R" "is_row_at km m row"
  shows "tracks km own R m (sendEvent io table (row_at km m row) (pub km m p) w) (k_sendEvent km io table row p w m)"
proof (cases "0 < kp_handle p")
  case False
  with o show ?thesis by (simp add: tracks_def sendEvent_def k_sendEvent_def)
next
  case True
  have "row \<in># ring_refs (kp_ring p) + R" using row by simp
  note 1 = own_r1 [OF c held_own [OF o] this]
  obtain t m1 where n: "km_new km (KSym table) (km_r1 km row m) = (t, m1)" by fastforce
  note 2 = own_new [OF c 1(1) n]
  have o2: "own m1 = Some (mset [t, row] + (ring_refs (kp_ring p) + R))" using 2(2) by simp
  obtain ro w1 m2 where k: "k_call km io (kp_handle p) ''.tp.event'' [t, row] w m1 = (ro, w1, m2)" by (metis prod_cases3)
  note 3 = k_call_owned [OF c o2 k]
  have s2: "same km (ring_refs (kp_ring p) + R) m m2" using 1(2) 2(4) 3 by (auto intro: same_trans)
  have "km_val km m1 row = KMixed (row_at km m row)" using row 1(2) 2(4) by (auto simp: is_row_at_def same_def)
  then have io: "io_call io (kp_handle p) ''.tp.event'' [KSym table, KMixed (row_at km m row)] w = (map_option (km_val km m2) ro, w1)"
    using 3 2(3) by simp
  show ?thesis
  proof (cases ro)
    case None
    let ?q = "p\<lparr>kp_handle := -1, kp_reconnects := kp_reconnects p + 1\<rparr>"
    have "held km own R ?q m2" by (rule held_keep [OF o]) (use 3 None s2 in simp_all)
    moreover have "pub km m2 ?q = pub km m ?q" by (rule pub_same) (use s2 in simp)
    ultimately show ?thesis using True n k io None s2 by (simp add: tracks_def sendEvent_def k_sendEvent_def pub_upd)
  next
    case (Some r)
    have "own m2 = Some (add_mset r (ring_refs (kp_ring p) + R))" using 3 Some by simp
    note k_reply_released [OF c o this s2]
    then show ?thesis using True n k io Some
      by (cases "km_val km m2 r") (simp_all add: tracks_def sendEvent_def k_sendEvent_def)
  qed
qed

lemma k_tradeState_pub:
  assumes c: "mem_contract True km own" and o: "held km own R p m"
  shows "tracks km own R m (tradeState io (pub km m p) w) (k_tradeState km io p w m)"
proof (cases "0 < kp_handle p")
  case False
  with o show ?thesis by (simp add: tracks_def tradeState_def k_tradeState_def)
next
  case True
  obtain t m1 where n: "km_new km (KSym (tc_table (kp_cfg p))) m = (t, m1)" by fastforce
  note 2 = own_new [OF c held_own [OF o] n]
  have o2: "own m1 = Some (mset [t] + (ring_refs (kp_ring p) + R))" using 2(2) by simp
  obtain ro w1 m2 where k: "k_call km io (kp_handle p) ''.tp.tradeState'' [t] w m1 = (ro, w1, m2)" by (metis prod_cases3)
  note 3 = k_call_owned [OF c o2 k]
  have s2: "same km (ring_refs (kp_ring p) + R) m m2" using 2(4) 3 by (auto intro: same_trans)
  have io: "io_call io (kp_handle p) ''.tp.tradeState'' [KSym (tc_table (kp_cfg p))] w = (map_option (km_val km m2) ro, w1)"
    using 3 2(3) by simp
  show ?thesis
  proof (cases ro)
    case None
    let ?q = "p\<lparr>kp_handle := -1, kp_reconnects := kp_reconnects p + 1\<rparr>"
    have "held km own R ?q m2" by (rule held_keep [OF o]) (use 3 None s2 in simp_all)
    moreover have "pub km m2 ?q = pub km m ?q" by (rule pub_same) (use s2 in simp)
    ultimately show ?thesis using True n k io None s2 by (simp add: tracks_def tradeState_def k_tradeState_def pub_upd)
  next
    case (Some r)
    have "own m2 = Some (add_mset r (ring_refs (kp_ring p) + R))" using 3 Some by simp
    note k_reply_released [OF c o this s2]
    then show ?thesis using True n k io Some
      by (cases "km_val km m2 r") (simp_all add: tracks_def tradeState_def k_tradeState_def)
  qed
qed

lemma r0_all_owned:
  assumes c: "mem_contract s km own"
  shows "own m = Some (mset (map f xs) + R) \<Longrightarrow>
    own (fold (\<lambda>e. km_r0 km (f e)) xs m) = Some R \<and> same km R m (fold (\<lambda>e. km_r0 km (f e)) xs m)"
proof (induction xs arbitrary: m)
  case (Cons x xs)
  then have "own m = Some (add_mset (f x) (mset (map f xs) + R))" by simp
  note 1 = own_r0 [OF c this]
  from Cons.IH [OF 1(1)] 1(2) show ?case by (auto intro: same_trans)
qed simp

lemma k_destroyPublisher_owned:
  assumes "mem_contract s km own" "held km own R p m" "k_destroyPublisher km io p w m = (p', w', m')"
  shows "own m' = Some R \<and> same km R m m' \<and> kp_ring p' = []"
proof -
  have "own m = Some (mset (map snd (kp_ring p)) + R)" using assms(2) by (simp add: held_def ring_refs_def)
  from r0_all_owned [OF assms(1) this] assms(3) show ?thesis
    by (auto simp: k_destroyPublisher_def k_close_def k_ring_clear_def split: if_splits)
qed

end
