(* ===== verification/Handler_Memory.thy ===== *)
theory Handler_Memory
  imports Tp_Memory
begin

text \<open>
  The objects of a running handler: the queue of gap events (\<open>trade_gap.hpp\<close>), the rows that
  \<open>publishQuote\<close>, \<open>processMessage\<close> and \<open>publishBackfilled\<close> build, patch and hand to the publisher, and the
  messages of \<open>publishHealth\<close> and \<open>sendFhStats\<close>. A run of them in any order, from a new publisher and queue to their
  destructors, is compared with the run on values, and its ledger is settled at every moment.
\<close>

section \<open>The queue of gap events\<close>

record KGapQueue =
  kg_table :: string
  kg_pending :: "kptr list"
  kg_acked :: nat
  kg_rejected :: nat

definition newKGapQueue :: "string \<Rightarrow> KGapQueue" where
  "newKGapQueue table = \<lparr>kg_table = table, kg_pending = [], kg_acked = 0, kg_rejected = 0\<rparr>"

definition kg_push :: "kptr \<Rightarrow> KGapQueue \<Rightarrow> KGapQueue" where
  "kg_push row q = q\<lparr>kg_pending := kg_pending q @ [row]\<rparr>"

fun k_flush_loop ::
    "'m KMem \<Rightarrow> 'w TpIo \<Rightarrow> kptr list \<Rightarrow> KGapQueue \<Rightarrow> KPublisher \<Rightarrow> 'w \<Rightarrow> 'm \<Rightarrow> bool \<times> KGapQueue \<times> KPublisher \<times> 'w \<times> 'm" where
  "k_flush_loop km io [] q p w m = (True, q\<lparr>kg_pending := []\<rparr>, p, w, m)"
| "k_flush_loop km io (row # rows) q p w m =
     (case k_sendEvent km io (kg_table q) row p w m of
        (ConnectionLost, p', w', m') \<Rightarrow> (False, q\<lparr>kg_pending := row # rows\<rparr>, p', w', m')
      | (Rejected, p', w', m') \<Rightarrow> k_flush_loop km io rows (q\<lparr>kg_rejected := kg_rejected q + 1\<rparr>) p' w' (km_r0 km row m')
      | (Acked, p', w', m') \<Rightarrow> k_flush_loop km io rows (q\<lparr>kg_acked := kg_acked q + 1\<rparr>) p' w' (km_r0 km row m'))"

definition k_flush ::
    "'m KMem \<Rightarrow> 'w TpIo \<Rightarrow> KGapQueue \<Rightarrow> KPublisher \<Rightarrow> 'w \<Rightarrow> 'm \<Rightarrow> bool \<times> KGapQueue \<times> KPublisher \<times> 'w \<times> 'm" where
  "k_flush km io q p w m = k_flush_loop km io (kg_pending q) q p w m"

definition k_destroyQueue :: "'m KMem \<Rightarrow> KGapQueue \<Rightarrow> 'm \<Rightarrow> 'm" where
  "k_destroyQueue km q m = fold (\<lambda>row. km_r0 km row) (kg_pending q) m"

definition gq :: "'m KMem \<Rightarrow> 'm \<Rightarrow> KGapQueue \<Rightarrow> GapEventQueue" where
  "gq km m q = \<lparr>ge_table = kg_table q, ge_pending = map (row_at km m) (kg_pending q), ge_acked = kg_acked q,
     ge_rejected = kg_rejected q\<rparr>"

section \<open>What a handler does with objects\<close>

text \<open>\<open>publishQuote\<close>: the row is built in a wrapper, the send time is written through the list, the row is handed on.\<close>

definition k_publishQuoteRow ::
    "'m KMem \<Rightarrow> 'w TpIo \<Rightarrow> krow \<Rightarrow> nat \<Rightarrow> int \<Rightarrow> int \<Rightarrow> KPublisher \<Rightarrow> 'w \<Rightarrow> 'm \<Rightarrow> (KPublisher \<times> 'w \<times> 'm) option" where
  "k_publishQuoteRow km io vals sendUsIdx sendUs fhSeqNo p w m =
     (case km_new km (KMixed vals) m of (a, m1) \<Rightarrow>
      let m2 = km_put km a sendUsIdx (KLong sendUs) m1
      in case ko_release (Some a) of
           (Some raw, row) \<Rightarrow>
             (case k_publish km io raw fhSeqNo p w m2 of
                None \<Rightarrow> None
              | Some (b, p1, w1, m3) \<Rightarrow> Some (p1, w1, ko_destroy km row m3))
         | (None, row) \<Rightarrow> Some (p, w, m2))"

text \<open>The trade handler: an empty wrapper is assigned the row that the build returned; the send time is written
  through a borrowed element of a live row, and not at all in a backfilled one.\<close>

definition k_publishTradeRow ::
    "'m KMem \<Rightarrow> 'w TpIo \<Rightarrow> krow \<Rightarrow> (nat \<times> int) option \<Rightarrow> int \<Rightarrow> KPublisher \<Rightarrow> 'w \<Rightarrow> 'm \<Rightarrow> (KPublisher \<times> 'w \<times> 'm) option" where
  "k_publishTradeRow km io vals patch fhSeqNo p w m =
     (case km_new km (KMixed vals) m of (a, m1) \<Rightarrow>
      (case ko_assign km None (Some a) m1 of (row, temp, m2) \<Rightarrow>
       let m3 = ko_destroy km temp m2;
           m4 = (case patch of None \<Rightarrow> m3 | Some (i, us) \<Rightarrow> km_put km (the row) i (KLong us) m3)
       in case ko_release row of
            (Some raw, row1) \<Rightarrow>
              (case k_publish km io raw fhSeqNo p w m4 of
                 None \<Rightarrow> None
               | Some (b, p1, w1, m5) \<Rightarrow> Some (p1, w1, ko_destroy km row1 m5))
          | (None, row1) \<Rightarrow> Some (p, w, m4)))"

definition k_sendFhStats ::
    "'m KMem \<Rightarrow> 'w TpIo \<Rightarrow> int \<Rightarrow> string \<Rightarrow> (string \<times> int) list \<Rightarrow> 'w \<Rightarrow> 'm \<Rightarrow> 'w \<times> 'm" where
  "k_sendFhStats km io tpHandle table stats w m =
     (if tpHandle \<le> 0 then (w, m)
      else case k_new_all km [KSym table, KSyms (map fst stats), KLongs (map snd stats)] m of (as, m1) \<Rightarrow>
        (case k_async km io tpHandle ''.tp.fhStats'' as w m1 of (ok, w1, m2) \<Rightarrow> (w1, m2)))"

text \<open>The row of \<open>publishHealth\<close> and the counters after it.\<close>

definition k_publishHealth ::
    "'m KMem \<Rightarrow> 'w TpIo \<Rightarrow> krow \<Rightarrow> (string \<times> int) list \<Rightarrow> KPublisher \<Rightarrow> 'w \<Rightarrow> 'm \<Rightarrow> 'w \<times> 'm" where
  "k_publishHealth km io health stats p w m =
     (if \<not> 0 < kp_handle p then (w, m)
      else case k_new_all km [KSym ''health_feed_handler'', KMixed health] m of (as, m1) \<Rightarrow>
        (case k_async km io (kp_handle p) ''.u.upd'' as w m1 of (ok, w1, m2) \<Rightarrow>
           k_sendFhStats km io (kp_handle p) (tc_table (kp_cfg p)) stats w1 m2))"

section \<open>A run\<close>

datatype k_op =
    OpConnect int
  | OpQuote krow nat int int
  | OpTrade krow "(nat \<times> int) option" int
  | OpGap krow
  | OpFlush
  | OpHealth krow "(string \<times> int) list"
  | OpState
  | OpClose

text \<open>The indices the handlers write to are columns of the row (\<open>quote_row_layout\<close>, \<open>trade_row_layout\<close>).\<close>

fun op_ok :: "k_op \<Rightarrow> bool" where
  "op_ok (OpQuote r i us n) \<longleftrightarrow> i < length r"
| "op_ok (OpTrade r (Some (i, us)) n) \<longleftrightarrow> i < length r"
| "op_ok _ \<longleftrightarrow> True"

fun v_do :: "'w TpIo \<Rightarrow> k_op \<Rightarrow> GapEventQueue \<times> TpPublisher \<times> 'w \<Rightarrow> (GapEventQueue \<times> TpPublisher \<times> 'w) option" where
  "v_do io (OpConnect n) (q, p, w) = map_option (\<lambda>(b, p1, w1). (q, p1, w1)) (connect io n p w)"
| "v_do io (OpQuote r i us n) (q, p, w) = map_option (\<lambda>(b, p1, w1). (q, p1, w1)) (publish io (r[i := KLong us]) n p w)"
| "v_do io (OpTrade r patch n) (q, p, w) =
     map_option (\<lambda>(b, p1, w1). (q, p1, w1)) (publish io (case patch of None \<Rightarrow> r | Some (i, us) \<Rightarrow> r[i := KLong us]) n p w)"
| "v_do io (OpGap r) (q, p, w) = Some (ge_push r q, p, w)"
| "v_do io OpFlush (q, p, w) = (case flush io q p w of (b, q1, p1, w1) \<Rightarrow> Some (q1, p1, w1))"
| "v_do io (OpHealth r st) (q, p, w) =
     Some (q, p, if connected p then sendFhStats io (p_handle p) (tc_table (p_cfg p)) st
       (snd (io_async io (p_handle p) ''.u.upd'' [KSym ''health_feed_handler'', KMixed r] w)) else w)"
| "v_do io OpState (q, p, w) = (case tradeState io p w of (st, p1, w1) \<Rightarrow> Some (q, p1, w1))"
| "v_do io OpClose (q, p, w) = (case close io p w of (p1, w1) \<Rightarrow> Some (q, p1, w1))"

fun k_do :: "'m KMem \<Rightarrow> 'w TpIo \<Rightarrow> k_op \<Rightarrow> KGapQueue \<times> KPublisher \<times> 'w \<times> 'm \<Rightarrow> (KGapQueue \<times> KPublisher \<times> 'w \<times> 'm) option" where
  "k_do km io (OpConnect n) (q, p, w, m) = map_option (\<lambda>(b, p1, w1, m1). (q, p1, w1, m1)) (k_connect km io n p w m)"
| "k_do km io (OpQuote r i us n) (q, p, w, m) = map_option (\<lambda>st. (q, st)) (k_publishQuoteRow km io r i us n p w m)"
| "k_do km io (OpTrade r patch n) (q, p, w, m) = map_option (\<lambda>st. (q, st)) (k_publishTradeRow km io r patch n p w m)"
| "k_do km io (OpGap r) (q, p, w, m) = (case km_new km (KMixed r) m of (a, m1) \<Rightarrow> Some (kg_push a q, p, w, m1))"
| "k_do km io OpFlush (q, p, w, m) = (case k_flush km io q p w m of (b, st) \<Rightarrow> Some st)"
| "k_do km io (OpHealth r st) (q, p, w, m) = (case k_publishHealth km io r st p w m of (w1, m1) \<Rightarrow> Some (q, p, w1, m1))"
| "k_do km io OpState (q, p, w, m) = (case k_tradeState km io p w m of (st, p1, w1, m1) \<Rightarrow> Some (q, p1, w1, m1))"
| "k_do km io OpClose (q, p, w, m) = (case k_close io p w of (p1, w1) \<Rightarrow> Some (q, p1, w1, m))"

fun v_run :: "'w TpIo \<Rightarrow> k_op list \<Rightarrow> GapEventQueue \<times> TpPublisher \<times> 'w \<Rightarrow> (GapEventQueue \<times> TpPublisher \<times> 'w) option" where
  "v_run io [] st = Some st"
| "v_run io (x # xs) st = (case v_do io x st of None \<Rightarrow> None | Some st1 \<Rightarrow> v_run io xs st1)"

fun k_run :: "'m KMem \<Rightarrow> 'w TpIo \<Rightarrow> k_op list \<Rightarrow> KGapQueue \<times> KPublisher \<times> 'w \<times> 'm \<Rightarrow> (KGapQueue \<times> KPublisher \<times> 'w \<times> 'm) option" where
  "k_run km io [] st = Some st"
| "k_run km io (x # xs) st = (case k_do km io x st of None \<Rightarrow> None | Some st1 \<Rightarrow> k_run km io xs st1)"

section \<open>The queue and its rows\<close>

definition linked ::
    "'m KMem \<Rightarrow> ('m \<Rightarrow> kptr multiset option) \<Rightarrow> kptr multiset \<Rightarrow> 'm \<Rightarrow>
      GapEventQueue \<times> TpPublisher \<times> 'w \<Rightarrow> KGapQueue \<times> KPublisher \<times> 'w \<times> 'm \<Rightarrow> bool" where
  "linked km own R m0 v kv \<longleftrightarrow> (case kv of (q, p, w, m) \<Rightarrow>
     v = (gq km m q, pub km m p, w) \<and> held km own (mset (kg_pending q) + R) p m \<and>
     (\<forall>a \<in> set (kg_pending q). is_row_at km m a) \<and> same km R m0 m)"

lemma pending_same:
  assumes "same km (mset as) m m'"
  shows "map (row_at km m') as = map (row_at km m) as" "(\<forall>a \<in> set as. is_row_at km m' a) = (\<forall>a \<in> set as. is_row_at km m a)"
proof -
  have "row_at km m' a = row_at km m a \<and> is_row_at km m' a = is_row_at km m a" if "a \<in> set as" for a
    using row_at_same [OF assms, of a] that by simp
  then show "map (row_at km m') as = map (row_at km m) as" "(\<forall>a \<in> set as. is_row_at km m' a) = (\<forall>a \<in> set as. is_row_at km m a)"
    by (blast intro: map_cong [OF refl])+
qed

lemma gq_same: "same km (mset (kg_pending q)) m m' \<Longrightarrow> gq km m' q = gq km m q"
  by (simp add: gq_def pending_same del: map_eq_conv)

text \<open>A step of the publisher leaves the queue alone.\<close>

lemma linked_publisher:
  fixes w w1 :: 'w
  assumes "linked km own R m0 v (q, p, w, m)"
    and "tracks km own (mset (kg_pending q) + R) m (x, P1, w1) (x, p1, w1, m1)"
  shows "linked km own R m0 (gq km m q, P1, w1) (q, p1, w1, m1)"
  using assms pending_same [of km "kg_pending q" m m1] gq_same [of km q m m1]
  by (auto simp: linked_def tracks_def intro: same_trans)

text \<open>The loop does not read what its queue says is pending.\<close>

lemma flush_loop_pending:
  "q\<lparr>ge_pending := []\<rparr> = q'\<lparr>ge_pending := []\<rparr> \<Longrightarrow> flush_loop io rows q p w = flush_loop io rows q' p w"
proof (induction rows arbitrary: q q' p w)
  case Nil
  then show ?case by (cases q; cases q') simp
next
  case (Cons r rows)
  have t: "ge_table q = ge_table q'" and l: "q\<lparr>ge_pending := r # rows\<rparr> = q'\<lparr>ge_pending := r # rows\<rparr>"
    and a: "(q\<lparr>ge_rejected := ge_rejected q + 1\<rparr>)\<lparr>ge_pending := []\<rparr> = (q'\<lparr>ge_rejected := ge_rejected q' + 1\<rparr>)\<lparr>ge_pending := []\<rparr>"
    "(q\<lparr>ge_acked := ge_acked q + 1\<rparr>)\<lparr>ge_pending := []\<rparr> = (q'\<lparr>ge_acked := ge_acked q' + 1\<rparr>)\<lparr>ge_pending := []\<rparr>"
    using Cons.prems by (cases q; cases q'; simp)+
  obtain e p1 w1 where s: "sendEvent io (ge_table q) r p w = (e, p1, w1)" by (metis prod_cases3)
  show ?case
    by (cases e) (simp_all only: flush_loop.simps s s [unfolded t] l prod.case EventResult.case Cons.IH [OF a(1)] Cons.IH [OF a(2)])
qed

lemma k_flush_loop_pub:
  assumes c: "mem_contract True km own"
  shows "held km own (mset rows + R) p m \<Longrightarrow> \<forall>a \<in> set rows. is_row_at km m a \<Longrightarrow>
    k_flush_loop km io rows q p w m = (b, q', p', w', m') \<Longrightarrow>
    flush_loop io (map (row_at km m) rows) (gq km m q) (pub km m p) w = (b, gq km m' q', pub km m' p', w') \<and>
    held km own (mset (kg_pending q') + R) p' m' \<and> (\<forall>a \<in> set (kg_pending q'). is_row_at km m' a) \<and> same km R m m'"
proof (induction rows arbitrary: q p w m)
  case Nil
  then show ?case by (auto simp: gq_def)
next
  case (Cons a rows)
  obtain e p1 w1 m1 where s: "k_sendEvent km io (kg_table q) a p w m = (e, p1, w1, m1)" by (metis prod_cases4)
  have "tracks km own (mset (a # rows) + R) m (sendEvent io (kg_table q) (row_at km m a) (pub km m p) w) (e, p1, w1, m1)"
    using k_sendEvent_pub [OF c Cons.prems(1), of a io "kg_table q" w] Cons.prems(2) s by simp
  then have 1: "sendEvent io (kg_table q) (row_at km m a) (pub km m p) w = (e, pub km m1 p1, w1)"
    "held km own (mset (a # rows) + R) p1 m1" "same km (mset (a # rows) + R) m m1"
    by (auto simp: tracks_def split: prod.splits)
  let ?m = "km_r0 km a m1"
  have "own m1 = Some (add_mset a (ring_refs (kp_ring p1) + (mset rows + R)))" using 1(2) by (simp add: held_def)
  note 2 = own_r0 [OF c this]
  have h: "held km own (mset rows + R) p1 ?m" by (rule held_keep [OF 1(2)]) (use 2 in simp_all)
  have P: "pub km ?m p1 = pub km m1 p1" by (rule pub_same) (use 2 in simp)
  have sm: "same km (mset rows + R) m ?m" using 1(3) 2(2) by (auto intro: same_trans)
  have rows: "\<forall>b \<in> set rows. is_row_at km ?m b" "map (row_at km ?m) rows = map (row_at km m) rows"
    using Cons.prems(2) pending_same [of km rows m ?m] sm by auto
  show ?case
  proof (cases "e = ConnectionLost")
    case True
    have "map (row_at km m1) (a # rows) = map (row_at km m) (a # rows)" "\<forall>b \<in> set (a # rows). is_row_at km m1 b"
      using Cons.prems(2) pending_same [of km "a # rows" m m1] 1(3) by auto
    with True Cons.prems(3) s 1 show ?thesis by (auto simp: gq_def)
  next
    case False
    let ?q = "if e = Rejected then q\<lparr>kg_rejected := kg_rejected q + 1\<rparr> else q\<lparr>kg_acked := kg_acked q + 1\<rparr>"
    let ?G = "gq km m q"
    let ?Q = "if e = Rejected then ?G\<lparr>ge_rejected := ge_rejected ?G + 1\<rparr> else ?G\<lparr>ge_acked := ge_acked ?G + 1\<rparr>"
    have step: "k_flush_loop km io rows ?q p1 w1 ?m = (b, q', p', w', m')"
      using Cons.prems(3) s False by (cases e) auto
    have "flush_loop io (map (row_at km m) (a # rows)) ?G (pub km m p) w =
        flush_loop io (map (row_at km ?m) rows) ?Q (pub km ?m p1) w1"
      using 1(1) False P rows(2) by (cases e) (simp_all add: gq_def del: map_eq_conv)
    also have "\<dots> = flush_loop io (map (row_at km ?m) rows) (gq km ?m ?q) (pub km ?m p1) w1"
      by (rule flush_loop_pending) (simp add: gq_def)
    finally show ?thesis using Cons.IH [OF h rows(1) step] sm by (auto intro: same_trans)
  qed
qed

section \<open>Each step\<close>

lemma publish_linked:
  fixes w :: 'w
  assumes c: "mem_contract True km own" and l: "linked km own R m0 (Q, P, w) (q, p, w, m)"
    and o: "own m2 = Some (add_mset a (ring_refs (kp_ring p) + (mset (kg_pending q) + R)))"
    and s: "same km (ring_refs (kp_ring p) + (mset (kg_pending q) + R)) m m2" and v: "km_val km m2 a = KMixed r"
  shows "rel_option (linked km own R m0) (map_option (\<lambda>(b, p1, w1). (Q, p1, w1)) (publish io r n P w))
    (map_option (\<lambda>(b, p1, w1, m1). (q, p1, w1, m1)) (k_publish km io a n p w m2))"
proof -
  let ?R = "mset (kg_pending q) + R"
  have l': "Q = gq km m q" "P = pub km m p" "held km own ?R p m" "\<forall>a \<in> set (kg_pending q). is_row_at km m a" "same km R m0 m"
    using l by (simp_all add: linked_def)
  have P2: "P = pub km m2 p" "Q = gq km m2 q" using l'(1,2) pub_same [of km p m m2] gq_same [of km q m m2] s by simp_all
  have h2: "held km own (add_mset a ?R) p m2" by (rule held_keep [OF l'(3)]) (use o s in simp_all)
  have a: "is_row_at km m2 a" "row_at km m2 a = r" using v by (simp_all add: is_row_at_def row_at_def)
  have "linked km own R m0 (gq km m2 q, P1, w1) (q, p1, w1, m1)" if "tracks km own ?R m2 (x, P1, w1) (x, p1, w1, m1)"
    for x :: bool and P1 and w1 :: 'w and p1 m1
  proof -
    have "\<forall>a \<in> set (kg_pending q). is_row_at km m2 a" using l'(4) pending_same(2) [of km "kg_pending q" m m2] s by simp
    with that have "\<forall>a \<in> set (kg_pending q). is_row_at km m1 a" "gq km m1 q = gq km m2 q"
      using pending_same(2) [of km "kg_pending q" m2 m1] gq_same [of km q m2 m1] by (simp_all add: tracks_def)
    with that l'(5) s show ?thesis by (auto simp: linked_def tracks_def intro: same_trans)
  qed
  then have *: "tracks km own ?R m2 v kv \<Longrightarrow> linked km own R m0 (case v of (b, p1, w1) \<Rightarrow> (Q, p1, w1)) (case kv of (b, p1, w1, m1) \<Rightarrow> (q, p1, w1, m1))"
    for v :: "bool \<times> TpPublisher \<times> 'w" and kv by (cases v; cases kv) (auto simp: tracks_def P2(2))
  have "rel_option (tracks km own ?R m2) (publish io r n P w) (k_publish km io a n p w m2)"
    using k_publish_pub [OF c h2 a(1), of io n w] by (simp add: a(2) P2(1))
  then show ?thesis unfolding option.rel_map by (rule option.rel_mono_strong) (rule *)
qed

lemma k_publishQuoteRow_eq:
  assumes "km_new km (KMixed r) m = (a, m1)"
  shows "k_publishQuoteRow km io r i us n p w m =
    map_option (\<lambda>(b, st). st) (k_publish km io a n p w (km_put km a i (KLong us) m1))"
  by (simp add: k_publishQuoteRow_def assms ko_release_def ko_destroy_def Let_def split: option.split)

lemma k_publishTradeRow_eq:
  assumes "km_new km (KMixed r) m = (a, m1)"
  shows "k_publishTradeRow km io r patch n p w m =
    map_option (\<lambda>(b, st). st) (k_publish km io a n p w (case patch of None \<Rightarrow> m1 | Some (i, us) \<Rightarrow> km_put km a i (KLong us) m1))"
  by (simp add: k_publishTradeRow_def assms ko_release_def ko_destroy_def ko_assign_def Let_def split: option.split)

lemma built_row:
  assumes c: "mem_contract s km own" and o: "own m = Some S" and n: "km_new km (KMixed r) m = (a, m1)"
    and p: "case patch of None \<Rightarrow> m2 = m1 \<and> r2 = r
      | Some (i, us) \<Rightarrow> i < length r \<and> m2 = km_put km a i (KLong us) m1 \<and> r2 = r[i := KLong us]"
  shows "own m2 = Some (add_mset a S)" "same km S m m2" "km_val km m2 a = KMixed r2"
proof -
  note 1 = own_new [OF c o n]
  have "own m2 = Some (add_mset a S) \<and> same km S m m2 \<and> km_val km m2 a = KMixed r2"
  proof (cases patch)
    case None
    with 1 p show ?thesis by simp
  next
    case (Some iu)
    with p own_put [OF c 1(2,1,3), of "fst iu" "KLong (snd iu)"] 1(4) show ?thesis by (auto intro: same_trans split: prod.splits)
  qed
  then show "own m2 = Some (add_mset a S)" "same km S m m2" "km_val km m2 a = KMixed r2" by blast+
qed

lemma k_sends_linked:
  assumes c: "mem_contract True km own" and l: "linked km own R m0 (Q, P, w) (q, p, w, m)"
    and n: "k_new_all km vs m = (as, m1)" and k: "k_async km io h f as w m1 = (ok, w1, m2)"
  shows "linked km own R m0 (Q, P, w1) (q, p, w1, m2) \<and> w1 = snd (io_async io h f vs w)"
proof -
  have l': "Q = gq km m q" "P = pub km m p" "held km own (mset (kg_pending q) + R) p m"
    "\<forall>a \<in> set (kg_pending q). is_row_at km m a" "same km R m0 m"
    using l by (simp_all add: linked_def)
  note 1 = k_new_all_owned [OF c held_own [OF l'(3)] n]
  note 2 = k_async_owned [OF c conjunct1 [OF 1] k]
  have s: "same km (ring_refs (kp_ring p) + (mset (kg_pending q) + R)) m m2" using 1 2 by (blast intro: same_trans)
  have "held km own (mset (kg_pending q) + R) p m2" by (rule held_keep [OF l'(3)]) (use 2 s in simp_all)
  moreover have "pub km m2 p = P" "gq km m2 q = Q" using s l'(1,2) pub_same [of km p m m2] gq_same [of km q m m2] by simp_all
  moreover have "\<forall>a \<in> set (kg_pending q). is_row_at km m2 a" using l'(4) pending_same(2) [of km "kg_pending q" m m2] s by simp
  ultimately show ?thesis using l'(5) s 1 2 by (auto simp: linked_def intro: same_trans)
qed

lemma k_publishHealth_linked:
  assumes c: "mem_contract True km own" and l: "linked km own R m0 (Q, P, w) (q, p, w, m)"
    and k: "k_publishHealth km io r st p w m = (w', m')"
  shows "linked km own R m0 (Q, P, w') (q, p, w', m') \<and> w' = (if connected P then sendFhStats io (p_handle P) (tc_table (p_cfg P)) st
       (snd (io_async io (p_handle P) ''.u.upd'' [KSym ''health_feed_handler'', KMixed r] w)) else w)"
proof (cases "0 < kp_handle p")
  case False
  with l k show ?thesis by (auto simp: linked_def k_publishHealth_def connected_def)
next
  case True
  have P: "p_handle P = kp_handle p" "p_cfg P = kp_cfg p" using l by (auto simp: linked_def)
  obtain as m1 where n: "k_new_all km [KSym ''health_feed_handler'', KMixed r] m = (as, m1)" by fastforce
  obtain ok w1 m2 where a: "k_async km io (kp_handle p) ''.u.upd'' as w m1 = (ok, w1, m2)" by (metis prod_cases3)
  note 1 = k_sends_linked [OF c l n a]
  obtain bs m3 where n2: "k_new_all km [KSym (tc_table (kp_cfg p)), KSyms (map fst st), KLongs (map snd st)] m2 = (bs, m3)"
    by fastforce
  obtain ok2 w2 m4 where a2: "k_async km io (kp_handle p) ''.tp.fhStats'' bs w1 m3 = (ok2, w2, m4)" by (metis prod_cases3)
  note 2 = k_sends_linked [OF c conjunct1 [OF 1] n2 a2]
  from True 1 2 k n a n2 a2 P show ?thesis
    by (auto simp: k_publishHealth_def k_sendFhStats_def sendFhStats_def connected_def simp del: k_new_all.simps)
qed

lemma k_do_linked:
  fixes w :: 'w
  assumes c: "mem_contract True km own" and l: "linked km own R m0 (Q, P, w) (q, p, w, m)" and ok: "op_ok x"
  shows "rel_option (linked km own R m0) (v_do io x (Q, P, w)) (k_do km io x (q, p, w, m))"
proof -
  have l': "Q = gq km m q" "P = pub km m p" "held km own (mset (kg_pending q) + R) p m"
    "\<forall>a \<in> set (kg_pending q). is_row_at km m a" "same km R m0 m"
    using l by (simp_all add: linked_def)
  have row: ?thesis if n: "km_new km (KMixed r) m = (a, m1)"
    and p: "case patch of None \<Rightarrow> m2 = m1 \<and> r2 = r
      | Some (i, us) \<Rightarrow> i < length r \<and> m2 = km_put km a i (KLong us) m1 \<and> r2 = r[i := KLong us]"
    and v: "v_do io x (Q, P, w) = map_option (\<lambda>(b, p1, w1). (Q, p1, w1)) (publish io r2 k P w)"
    and d: "k_do km io x (q, p, w, m) = map_option (\<lambda>(b, p1, w1, m1). (q, p1, w1, m1)) (k_publish km io a k p w m2)"
    for r a m1 m2 r2 k patch
    using publish_linked [OF c l built_row [OF c held_own [OF l'(3)] n p], of io k] v d by simp
  show ?thesis
  proof (cases x)
    case (OpQuote r i us n)
    obtain a m1 where nw: "km_new km (KMixed r) m = (a, m1)" by fastforce
    show ?thesis
      by (rule row [OF nw, where patch = "Some (i, us)" and ?m2.0 = "km_put km a i (KLong us) m1" and ?r2.0 = "r[i := KLong us]" and k = n])
        (use ok in \<open>simp_all add: OpQuote k_publishQuoteRow_eq [OF nw] option.map_comp comp_def case_prod_unfold\<close>)
  next
    case (OpTrade r patch n)
    obtain a m1 where nw: "km_new km (KMixed r) m = (a, m1)" by fastforce
    show ?thesis
      by (rule row [OF nw, where patch = patch and ?m2.0 = "case patch of None \<Rightarrow> m1 | Some (i, us) \<Rightarrow> km_put km a i (KLong us) m1"
            and ?r2.0 = "case patch of None \<Rightarrow> r | Some (i, us) \<Rightarrow> r[i := KLong us]" and k = n])
        (use ok in \<open>auto simp: OpTrade k_publishTradeRow_eq [OF nw] option.map_comp comp_def case_prod_unfold split: option.splits\<close>)
  next
    case (OpHealth r st)
    obtain w1 m1 where h: "k_publishHealth km io r st p w m = (w1, m1)" by fastforce
    from k_publishHealth_linked [OF c l h] h OpHealth show ?thesis by (auto split: if_splits)
  next
    case OpFlush
    obtain b q1 p1 w1 m1 where f: "k_flush km io q p w m = (b, q1, p1, w1, m1)" by (metis prod_cases5)
    from k_flush_loop_pub [OF c l'(3,4) f [unfolded k_flush_def]] f l'(1,2,5) OpFlush show ?thesis
      by (auto simp: flush_def gq_def linked_def intro: same_trans)
  next
    case OpState
    from k_tradeState_pub [OF c l'(3), of io w] linked_publisher [OF l [unfolded l'(1)]] l'(1,2) OpState show ?thesis
      by (auto simp: tracks_def split: prod.splits)
  next
    case OpClose
    with l show ?thesis by (auto simp: linked_def k_close_def close_def held_def pub_upd)
  next
    case (OpGap r)
    obtain a m1 where nw: "km_new km (KMixed r) m = (a, m1)" by fastforce
    note 1 = own_new [OF c held_own [OF l'(3)] nw]
    have h: "held km own (mset (kg_pending q @ [a]) + R) p m1" by (rule held_keep [OF l'(3)]) (use 1 in \<open>simp_all add: add_ac\<close>)
    have "pub km m1 p = P" "gq km m1 q = Q" using 1 l'(1,2) pub_same [of km p m m1] gq_same [of km q m m1] by simp_all
    moreover have "\<forall>a \<in> set (kg_pending q). is_row_at km m1 a" using l'(4) pending_same(2) [of km "kg_pending q" m m1] 1 by simp
    ultimately show ?thesis using h 1 l'(5) nw OpGap
      by (auto simp: linked_def kg_push_def ge_push_def gq_def is_row_at_def row_at_def intro: same_trans)
  next
    case (OpConnect n)
    have "rel_option (linked km own R m0) (map_option (\<lambda>(b, p1, w1). (Q, p1, w1)) (connect io n P w))
        (map_option (\<lambda>(b, p1, w1, m1). (q, p1, w1, m1)) (k_connect km io n p w m))"
      unfolding option.rel_map
    proof (rule option.rel_mono_strong [OF k_connect_pub [OF c l'(3), of io n w, folded l'(2)]])
      fix v :: "bool \<times> TpPublisher \<times> 'w" and kv
      assume "tracks km own (mset (kg_pending q) + R) m v kv"
      with linked_publisher [OF l [unfolded l'(1)]] l'(1)
      show "linked km own R m0 (case v of (b, p1, w1) \<Rightarrow> (Q, p1, w1)) (case kv of (b, p1, w1, m1) \<Rightarrow> (q, p1, w1, m1))"
        by (cases v; cases kv) (auto simp: tracks_def)
    qed
    with OpConnect show ?thesis by simp
  qed
qed

lemma k_run_linked:
  assumes c: "mem_contract True km own"
  shows "linked km own R m0 v kv \<Longrightarrow> \<forall>x \<in> set xs. op_ok x \<Longrightarrow> rel_option (linked km own R m0) (v_run io xs v) (k_run km io xs kv)"
proof (induction xs arbitrary: v kv)
  case (Cons x xs)
  obtain Q P w where v: "v = (Q, P, w)" by (metis prod_cases3)
  obtain q p w' m where kv: "kv = (q, p, w', m)" by (metis prod_cases4)
  have w: "w' = w" using Cons.prems(1) by (simp add: v kv linked_def)
  then have "rel_option (linked km own R m0) (v_do io x v) (k_do km io x kv)"
    using k_do_linked [OF c Cons.prems(1) [unfolded v kv w]] Cons.prems(2) by (simp add: v kv)
  then show ?case using Cons.IH Cons.prems(2) by (auto split: option.split simp: option_rel_Some1 option_rel_Some2)
qed simp

lemma new_linked: "own m = Some R \<Longrightarrow> linked km own R m (newGapEventQueue t, newTpPublisher cfg, w) (newKGapQueue t, newKPublisher cfg, w, m)"
  by (simp add: linked_def held_def gq_def pub_def ring_at_def newGapEventQueue_def newTpPublisher_def newKGapQueue_def newKPublisher_def)

section \<open>The ring stays bounded\<close>

definition ring_bounded :: "TpPublisherConfig \<Rightarrow> TpPublisher \<Rightarrow> bool" where
  "ring_bounded cfg p \<longleftrightarrow> p_cfg p = cfg \<and> length (p_ring p) \<le> ring_capacity (tc_ringSize cfg)"

lemma connectOnce_bounded:
  "connectOnce io n p w = (res, p1, w1) \<Longrightarrow> ring_bounded cfg p \<Longrightarrow> ring_bounded cfg p1"
  by (auto simp: connectOnce_def registerSession_def resend_def ring_bounded_def Let_def
      split: prod.splits option.splits kobj.splits bool.splits if_splits)

lemma connect_bounded:
  assumes ret: "connect_loop io n att p w = Some v"
  shows "ring_bounded cfg p \<longrightarrow> ring_bounded cfg (fst (snd v))"
proof (rule connect_loop.raw_induct [where P = "\<lambda>io n att p w v. ring_bounded cfg p \<longrightarrow> ring_bounded cfg (fst (snd v))", OF _ ret])
  fix f and io :: "'a TpIo" and n att p w v
  assume ih: "\<And>io n att p w v. f io n att p w = Some v \<Longrightarrow> ring_bounded cfg p \<longrightarrow> ring_bounded cfg (fst (snd v))"
    and eq: "(case running io p w of (run, w1) \<Rightarrow>
        if \<not> run then Some (False, p, w1)
        else case connectOnce io n p w1 of (res, p1, w2) \<Rightarrow>
          (case res of Some b \<Rightarrow> Some (b, p1, w2)
           | None \<Rightarrow> (case sleepWithBackoff io att p1 w2 of (go, w3) \<Rightarrow>
               if go then f io n (Suc att) p1 w3 else Some (False, p1, w3)))) = Some v"
  show "ring_bounded cfg p \<longrightarrow> ring_bounded cfg (fst (snd v))"
  proof
    assume p: "ring_bounded cfg p"
    obtain run w1 where r: "running io p w = (run, w1)" by fastforce
    obtain res p1 w2 where k: "connectOnce io n p w1 = (res, p1, w2)" by (metis prod_cases3)
    obtain go w3 where g: "sleepWithBackoff io att p1 w2 = (go, w3)" by fastforce
    note p1 = connectOnce_bounded [OF k p]
    show "ring_bounded cfg (fst (snd v))"
    proof (cases "run \<and> res = None \<and> go")
      case True
      with eq r k g have "f io n (Suc att) p1 w3 = Some v" by simp
      with ih p1 show ?thesis by blast
    next
      case False
      with eq p p1 show ?thesis by (auto simp: r k g split: if_splits option.splits)
    qed
  qed
qed

lemma publish_bounded:
  assumes "publish io r n p w = Some v" "ring_bounded cfg p"
  shows "ring_bounded cfg (fst (snd v))"
proof -
  let ?p = "p\<lparr>p_ring := ring_push (p_capacity p) n r (p_ring p)\<rparr>"
  have b: "ring_bounded cfg ?p"
    using assms(2) by (cases "p_ring p") (auto simp: ring_bounded_def p_capacity_def ring_push_def Suc_le_eq)
  then have "ring_bounded cfg (?p\<lparr>p_handle := h, p_reconnects := k\<rparr>)" for h k by (simp add: ring_bounded_def)
  with b connect_bounded [of io "n + 1" 0 _ _ v cfg] assms(1) show ?thesis
    by (auto simp: publish_def connect_def Let_def split: prod.splits bool.splits if_splits)
qed

lemma flush_loop_bounded:
  "flush_loop io rows q p w = (b, q', p', w') \<Longrightarrow> ring_bounded cfg p \<Longrightarrow> ring_bounded cfg p'"
proof (induction rows arbitrary: q p w)
  case (Cons r rows)
  obtain e p1 w1 where s: "sendEvent io (ge_table q) r p w = (e, p1, w1)" by (metis prod_cases3)
  then have "ring_bounded cfg p1" using Cons.prems(2)
    by (auto simp: sendEvent_def ring_bounded_def split: if_splits prod.splits option.splits kobj.splits)
  with Cons s show ?case by (cases e) auto
qed simp

lemma v_do_bounded:
  assumes d: "v_do io x (q, p, w) = Some (q', p', w')" and b: "ring_bounded cfg p"
  shows "ring_bounded cfg p'"
proof (cases x)
  case (OpConnect n)
  with d obtain y where "connect io n p w = Some (y, p', w')" by auto
  with connect_bounded [of io n 0 p w "(y, p', w')" cfg] b show ?thesis by (simp add: connect_def)
next
  case (OpQuote r i us n)
  with d obtain y where "publish io (r[i := KLong us]) n p w = Some (y, p', w')" by auto
  from publish_bounded [OF this b] show ?thesis by simp
next
  case (OpTrade r patch n)
  with d obtain r' y where "publish io r' n p w = Some (y, p', w')" by auto
  from publish_bounded [OF this b] show ?thesis by simp
next
  case OpFlush
  with d obtain y where "flush_loop io (ge_pending q) q p w = (y, q', p', w')" by (auto simp: flush_def split: prod.splits)
  from flush_loop_bounded [OF this b] show ?thesis .
next
  case OpState
  with d b show ?thesis by (auto simp: tradeState_def ring_bounded_def Let_def split: prod.splits option.splits kobj.splits if_splits)
next
  case OpClose
  with d b show ?thesis by (auto simp: close_def ring_bounded_def split: if_splits)
qed (use d b in auto)

lemma v_run_bounded: "v_run io xs (q, p, w) = Some (q', p', w') \<Longrightarrow> ring_bounded cfg p \<Longrightarrow> ring_bounded cfg p'"
proof (induction xs arbitrary: q p w)
  case (Cons x xs)
  then obtain q1 p1 w1 where 1: "v_do io x (q, p, w) = Some (q1, p1, w1)" "v_run io xs (q1, p1, w1) = Some (q', p', w')"
    by (auto split: option.splits)
  from Cons.IH [OF 1(2) v_do_bounded [OF 1(1) Cons.prems(2)]] show ?case .
qed simp

section \<open>Properties\<close>

lemma k_run_start:
  assumes "mem_contract True km own" "own m = Some R" "\<forall>x \<in> set xs. op_ok x"
  shows "rel_option (linked km own R m) (v_run io xs (newGapEventQueue t, newTpPublisher cfg, w))
    (k_run km io xs (newKGapQueue t, newKPublisher cfg, w, m))"
  by (rule k_run_linked [OF assms(1) _ assms(3)]) (rule new_linked, rule assms(2))

text \<open>C5: The pointers do not show. A handler's connects, rows, gap events, health messages and questions, in any order
  and on a network that may fail at any call, have on pointers exactly the effect they have on values: the run with
  pointers ends if and only if the run on values ends, with the same network, and the publisher and queue whose
  rows are read through the pointers are those of the run on values. So what is proved of rows on values
  holds of the rows in the ring, though each is shared with the messages that carry it and is released under them.\<close>

theorem pointers_refine_values:
  assumes "mem_contract True km own" "own m = Some R" "\<forall>x \<in> set xs. op_ok x"
  shows "rel_option (\<lambda>(Q, P, w1) (q, p, w2, m2). Q = gq km m2 q \<and> P = pub km m2 p \<and> w1 = w2)
    (v_run io xs (newGapEventQueue t, newTpPublisher cfg, w)) (k_run km io xs (newKGapQueue t, newKPublisher cfg, w, m))"
  by (rule option.rel_mono_strong [OF k_run_start [OF assms]]) (auto simp: linked_def)

text \<open>C8: Nothing leaks and nothing is released twice. After any such run the handler holds one reference to each row of the
  ring, which has at most \<open>ringSize\<close> rows, and one to each gap event that waits, and no other; its
  destructors release exactly these; and objects of others are as they were.\<close>

theorem references_balance:
  assumes "mem_contract True km own" "own m = Some R" "\<forall>x \<in> set xs. op_ok x"
    and "k_run km io xs (newKGapQueue t, newKPublisher cfg, w, m) = Some (q, p, w1, m1)"
  shows "own m1 = Some (ring_refs (kp_ring p) + mset (kg_pending q) + R) \<and>
    length (kp_ring p) \<le> ring_capacity (tc_ringSize cfg) \<and> same km R m m1 \<and>
    (case k_destroyPublisher km io p w1 m1 of (p2, w2, m2) \<Rightarrow>
       own (k_destroyQueue km q m2) = Some R \<and> same km R m (k_destroyQueue km q m2))"
proof -
  obtain v where v: "v_run io xs (newGapEventQueue t, newTpPublisher cfg, w) = Some v" "linked km own R m v (q, p, w1, m1)"
    using k_run_start [OF assms(1-3), of io t cfg w] assms(4) by (auto simp: option_rel_Some2)
  then have l: "v = (gq km m1 q, pub km m1 p, w1)" "held km own (mset (kg_pending q) + R) p m1" "same km R m m1"
    by (simp_all add: linked_def)
  have "ring_bounded cfg (newTpPublisher cfg)" by (simp add: ring_bounded_def newTpPublisher_def)
  from v_run_bounded [OF v(1) [unfolded l(1)] this] have len: "length (kp_ring p) \<le> ring_capacity (tc_ringSize cfg)"
    by (simp add: ring_bounded_def)
  obtain p2 w2 m2 where d: "k_destroyPublisher km io p w1 m1 = (p2, w2, m2)" by (metis prod_cases3)
  note 1 = k_destroyPublisher_owned [OF assms(1) l(2) d]
  have "own m2 = Some (mset (map (\<lambda>a. a) (kg_pending q)) + R)" using 1 by simp
  note 2 = r0_all_owned [OF assms(1) this]
  have "same km R m (k_destroyQueue km q m2)" using l(3) 1 2 by (auto simp: k_destroyQueue_def intro: same_trans)
  with held_own [OF l(2)] len l(3) 1 2 d show ?thesis by (simp add: k_destroyQueue_def add_ac)
qed

text \<open>A run of three rows and two gap events over the tickerplant that dies, with a ring of two rows.\<close>

definition mem_cfg :: TpPublisherConfig where
  "mem_cfg = defaultTpConfig\<lparr>tc_ringSize := 2\<rparr>"

definition mem_ops :: "k_op list" where
  "mem_ops = [OpConnect 1, OpQuote [KSym ''B'', KLong 0] 1 1 1, OpTrade [KLong 2] None 2, OpGap [KLong 7],
     OpTrade [KSym ''B'', KLong 0] (Some (1, 3)) 3, OpFlush, OpGap [KLong 8]]"

definition mem_run :: "(KGapQueue \<times> KPublisher \<times> DyingTp \<times> CountedMem) option" where
  "mem_run = k_run (counted_mem True) dying_io mem_ops (newKGapQueue ''trade_gap'', newKPublisher mem_cfg, dying_start, cm_empty)"

lemma mem_run_val:
  "map_option (\<lambda>(q, p, w, m). (length (kg_pending q), kg_acked q, map fst (kp_ring p), kp_reconnects p, length (cm_refs m))) mem_run =
     Some (1, 1, [2, 3], 1, 3)"
  by code_simp

lemma mem_ops_ok: "\<forall>x \<in> set mem_ops. op_ok x"
  by (simp add: mem_ops_def)

lemma references_balance_witness:
  "\<exists>q p w m. k_run (counted_mem True) dying_io mem_ops
       (newKGapQueue ''trade_gap'', newKPublisher mem_cfg, dying_start, cm_empty) = Some (q, p, w, m) \<and> kp_reconnects p = 1 \<and>
     cm_own m = Some (ring_refs (kp_ring p) + mset (kg_pending q)) \<and> length (kp_ring p) \<le> 2 \<and>
     (case k_destroyPublisher (counted_mem True) dying_io p w m of (p2, w2, m2) \<Rightarrow>
        cm_own (k_destroyQueue (counted_mem True) q m2) = Some {#})"
proof -
  obtain q p w m where r: "mem_run = Some (q, p, w, m)" "kp_reconnects p = 1"
    using mem_run_val by (cases mem_run) auto
  from references_balance [OF counted_contract cm_empty_own mem_ops_ok r(1) [unfolded mem_run_def]] r show ?thesis
    unfolding mem_run_def by (auto simp: mem_cfg_def ring_capacity_def split: prod.splits)
qed

lemma pointers_refine_values_witness:
  "\<exists>Q P w1 q p m. v_run dying_io mem_ops (newGapEventQueue ''trade_gap'', newTpPublisher mem_cfg, dying_start) = Some (Q, P, w1) \<and>
     P = pub (counted_mem True) m p \<and> Q = gq (counted_mem True) m q \<and> map fst (p_ring P) = [2, 3]"
proof -
  obtain q p w m where r: "mem_run = Some (q, p, w, m)" "map fst (kp_ring p) = [2, 3]"
    using mem_run_val by (cases mem_run) auto
  have "map fst (p_ring (pub (counted_mem True) m p)) = [2, 3]" using r(2) by (simp add: ring_at_def case_prod_unfold comp_def)
  with pointers_refine_values [OF counted_contract cm_empty_own mem_ops_ok, of dying_io "''trade_gap''" mem_cfg dying_start]
    r(1) [unfolded mem_run_def] show ?thesis by (auto simp: option_rel_Some2)
qed

text \<open>What the comments of \<open>k_object.hpp\<close> say of sync calls cannot be true of this code. They say that a sync call does not
  release its arguments; \<open>sendEvent\<close> gives such a call a new symbol and a second reference to the row, and
  releases neither. If the comment were true every gap event sent on a live connection would leave both behind for ever,
  also when the queue drops the event. The code is right only with a library whose calls all release.\<close>

lemma sync_call_must_release:
  assumes "mem_contract False km own" "own m = Some (add_mset row R)" "is_row_at km m row" "0 < kp_handle p"
    and "k_sendEvent km io table row p w m = (e, p', w', m')"
  shows "\<exists>t. own m' = Some (add_mset t (add_mset row (add_mset row R)))"
proof -
  note 1 = own_r1 [OF assms(1,2), of row]
  have 1: "own (km_r1 km row m) = Some (add_mset row (add_mset row R))" using 1 by simp
  obtain t m1 where n: "km_new km (KSym table) (km_r1 km row m) = (t, m1)" by fastforce
  note 2 = own_new [OF assms(1) 1 n]
  have o2: "own m1 = Some (mset [t, row] + add_mset row R)" using 2(2) by simp
  have t: "own (km_take km True [t, row] m1) = Some (add_mset t (add_mset row (add_mset row R)))"
    using own_take [OF assms(1) o2, of True] by simp
  obtain vo w1 where c: "io_call io (kp_handle p) ''.tp.event'' (map (km_val km m1) [t, row]) w = (vo, w1)" by fastforce
  show ?thesis
  proof (cases vo)
    case None
    with assms(4,5) n c t show ?thesis by (auto simp: k_sendEvent_def k_call_def)
  next
    case (Some v)
    obtain r m2 where nr: "km_new km v (km_take km True [t, row] m1) = (r, m2)" by fastforce
    note 3 = own_new [OF assms(1) t nr]
    note 4 = own_r0 [OF assms(1) 3(2)]
    from assms(4,5) n c Some nr 4(1) show ?thesis
      by (cases v) (auto simp: k_sendEvent_def k_call_def 3(3))
  qed
qed

lemma sync_call_must_release_witness:
  "\<exists>e p w m. k_sendEvent (counted_mem False) dying_io ''trade_gap'' 0 ((newKPublisher mem_cfg)\<lparr>kp_handle := 7\<rparr>) dying_start
       (snd (km_new (counted_mem False) (KMixed []) cm_empty)) = (e, p, w, m) \<and> (\<exists>t. cm_own m = Some {#t, 0, 0#})"
proof -
  let ?m = "snd (km_new (counted_mem False) (KMixed []) cm_empty)"
  obtain e p w m where s: "k_sendEvent (counted_mem False) dying_io ''trade_gap'' 0 ((newKPublisher mem_cfg)\<lparr>kp_handle := 7\<rparr>)
      dying_start ?m = (e, p, w, m)" by (metis prod_cases4)
  have o: "cm_own ?m = Some (add_mset 0 {#})" "is_row_at (counted_mem False) ?m 0"
    by (simp_all add: counted_mem_def cm_empty_def cm_own_def is_row_at_def row_at_def cm_read_def)
  from sync_call_must_release [OF counted_contract o _ s] s show ?thesis by auto
qed

end
