(* ===== verification/Sim_Publisher.thy ===== *)
theory Sim_Publisher
  imports Trade_Log "HOL-Library.Code_Target_Nat"
begin

text \<open>
  \<open>cpp/tools/sim_trade_publisher.cpp\<close>: a program that publishes made-up trades through the handlers' own classes, for the
  tests of the tickerplant: the publisher, the id tracker, the gap queue, the backfill and the row clock, with a fake
  exchange behind the backfill.

  The arguments are read by \<open>sim_args\<close>; \<open>sim_run\<close> is the rest of \<open>main\<close>. Clock readings and what the backfill's thread does
  during a call of \<open>pump\<close> are the record \<open>SimReadings\<close>; what that thread gets from the fake exchange is \<open>fakeFetch\<close>. Signals
  are left out: the flag \<open>g_running\<close> is the one the publisher tests. A crash in the middle of a page
  (\<open>std::_Exit\<close>) is a flag after which nothing happens any more.
\<close>

section \<open>Arguments\<close>

text \<open>Numbers as the C library reads them: what cannot be represented is clamped to 64 bits, and \<open>atoi\<close> keeps 32 of them.\<close>

definition atoll :: "string \<Rightarrow> int" where
  "atoll s0 =
     (let s1 = dropWhile is_space (c_str s0);
          neg = (s1 \<noteq> [] \<and> hd s1 = CHR ''-'');
          s = (if s1 \<noteq> [] \<and> (hd s1 = CHR ''-'' \<or> hd s1 = CHR ''+'') then tl s1 else s1);
          n = int (digits_val 10 (takeWhile (\<lambda>c. digit_val c < 10) s))
      in max (- (2 ^ 63)) (min (2 ^ 63 - 1) (if neg then - n else n)))"

definition to_int32 :: "int \<Rightarrow> int" where
  "to_int32 n = (n + 2 ^ 31) mod 2 ^ 32 - 2 ^ 31"

definition atoi :: "string \<Rightarrow> int" where
  "atoi s = to_int32 (atoll s)"

record SimOptions =
  so_port :: int
  so_rows :: int
  so_rate :: int
  so_firstId :: int
  so_session :: int
  so_ring :: nat
  so_sym :: string
  so_gapAt :: int
  so_gapSize :: int
  so_pendFirst :: int
  so_pendLast :: int
  so_seedFromTp :: bool
  so_backfill :: bool
  so_bfPage :: int
  so_bfFail :: int
  so_bfServedFrom :: int
  so_bfMaxGap :: int
  so_dieAfter :: int
  so_lagMs :: int
  so_lagAt :: int
  so_lagRows :: int
  so_lagThresholdMs :: int

definition defaultSimOptions :: "int \<Rightarrow> SimOptions" where
  "defaultSimOptions nowNs = \<lparr>so_port = 0, so_rows = 0, so_rate = 1000, so_firstId = 1, so_session = nowNs, so_ring = 4096,
     so_sym = ''BTCUSDT'', so_gapAt = -1, so_gapSize = 0, so_pendFirst = 0, so_pendLast = 0, so_seedFromTp = False,
     so_backfill = False, so_bfPage = 1000, so_bfFail = 0, so_bfServedFrom = 1, so_bfMaxGap = 500000, so_dieAfter = -1,
     so_lagMs = 0, so_lagAt = 0, so_lagRows = 0, so_lagThresholdMs = DEFAULT_CLOCK_LAG_MS\<rparr>"

text \<open>One option with its value; \<open>None\<close> is the exit with code 1.\<close>

definition sim_option :: "string \<Rightarrow> string \<Rightarrow> SimOptions \<Rightarrow> SimOptions option" where
  "sim_option a v opts =
     (if a = ''--port'' then Some (opts\<lparr>so_port := atoi v\<rparr>)
      else if a = ''--rows'' then Some (opts\<lparr>so_rows := atoll v\<rparr>)
      else if a = ''--rate'' then Some (opts\<lparr>so_rate := atoll v\<rparr>)
      else if a = ''--ring'' then Some (opts\<lparr>so_ring := nat (atoll v mod 2 ^ 64)\<rparr>)
      else if a = ''--session'' then Some (opts\<lparr>so_session := atoll v\<rparr>)
      else if a = ''--first-id'' then Some (opts\<lparr>so_firstId := atoll v\<rparr>)
      else if a = ''--sym'' then Some (opts\<lparr>so_sym := v\<rparr>)
      else if a = ''--seed-from-tp'' then Some (opts\<lparr>so_seedFromTp := (atoll v \<noteq> 0)\<rparr>)
      else if a = ''--backfill'' then Some (opts\<lparr>so_backfill := (atoll v \<noteq> 0)\<rparr>)
      else if a = ''--backfill-page'' then Some (opts\<lparr>so_bfPage := atoll v\<rparr>)
      else if a = ''--backfill-fail'' then Some (opts\<lparr>so_bfFail := atoll v\<rparr>)
      else if a = ''--backfill-served-from'' then Some (opts\<lparr>so_bfServedFrom := atoll v\<rparr>)
      else if a = ''--backfill-max-gap'' then Some (opts\<lparr>so_bfMaxGap := atoll v\<rparr>)
      else if a = ''--die-after-backfilled'' then Some (opts\<lparr>so_dieAfter := atoll v\<rparr>)
      else if a = ''--lag-ms'' then Some (opts\<lparr>so_lagMs := atoll v\<rparr>)
      else if a = ''--lag-at'' then Some (opts\<lparr>so_lagAt := atoll v\<rparr>)
      else if a = ''--lag-rows'' then Some (opts\<lparr>so_lagRows := atoll v\<rparr>)
      else if a = ''--lag-threshold-ms'' then Some (opts\<lparr>so_lagThresholdMs := atoll v\<rparr>)
      else if a = ''--gap-at'' then Some (opts\<lparr>so_gapAt := atoll v\<rparr>)
      else if a = ''--gap-size'' then Some (opts\<lparr>so_gapSize := atoll v\<rparr>)
      else if a = ''--pending-gap'' then
        (if CHR '':'' \<in> set v
         then Some (opts\<lparr>so_pendFirst := atoll v, so_pendLast := atoll (tl (dropWhile (\<lambda>c. c \<noteq> CHR '':'') v))\<rparr>)
         else None)
      else None)"

text \<open>A single argument left at the end is ignored.\<close>

fun sim_options :: "string list \<Rightarrow> SimOptions \<Rightarrow> SimOptions option" where
  "sim_options (a # v # rest) opts =
     (case sim_option a v opts of None \<Rightarrow> None | Some opts' \<Rightarrow> sim_options rest opts')"
| "sim_options _ opts = Some opts"

definition sim_args :: "string list \<Rightarrow> int \<Rightarrow> SimOptions option" where
  "sim_args args nowNs =
     (case sim_options args (defaultSimOptions nowNs) of None \<Rightarrow> None
      | Some opts \<Rightarrow> if so_port opts \<le> 0 \<or> so_rows opts \<le> 0 \<or> so_rate opts \<le> 0 then None else Some opts)"

section \<open>The fake exchange\<close>

record FakeExchange =
  fe_servedFrom :: int
  fe_failFirst :: int

text \<open>\<open>100.0 + 0.01 * (n % 100)\<close> in doubles.\<close>

definition fakePrice :: "int \<Rightarrow> double" where
  "fakePrice n = Fin (rnd64 (100 + rnd64 (rnd64 (1 / 100) * of_int (n smod 100))))"

definition fakeFetch :: "int \<Rightarrow> (int \<Rightarrow> int) \<Rightarrow> int \<Rightarrow> int \<Rightarrow> FakeExchange \<Rightarrow> BackfillPage \<times> FakeExchange" where
  "fakeFetch clockNs nowNs fromId lmt fe =
     (let p = emptyBackfillPage\<lparr>bp_recvTimeUtcNs := clockNs\<rparr>
      in if 0 < fe_failFirst fe then
           (p\<lparr>bp_error := ''simulated REST failure''\<rparr>, fe\<lparr>fe_failFirst := fe_failFirst fe - 1\<rparr>)
         else
           (p\<lparr>bp_ok := True, bp_httpStatus := 200,
              bp_trades := map (\<lambda>k. let i = max fromId (fe_servedFrom fe) + int k
                in emptyBackfillTrade\<lparr>bt_id := i, bt_price := fakePrice i, bt_qty := Fin (1 / 4),
                     bt_tradeTimeMs := nowNs i sdiv 1000000 - 5000, bt_buyerIsMaker := (i smod 2 = 0)\<rparr>) [0..<nat lmt]\<rparr>, fe))"

section \<open>State\<close>

record SimState =
  ss_tp :: TpPublisher
  ss_tracker :: TradeIdTracker
  ss_gapEvents :: GapEventQueue
  ss_gaps :: nat
  ss_backfill :: TradeBackfill
  ss_seq :: int
  ss_backfilled :: int
  ss_rowClock :: RowClock
  ss_seeded :: nat
  ss_openGaps :: nat
  ss_firstAfterSeed :: bool
  ss_sent :: int
  ss_idShift :: int
  ss_died :: bool

text \<open>Readings of the clock, by gap event and by row, and what happens around the calls of \<open>pump\<close>: during the loop by row, and
  in the rounds of the wait at the end, each with the time its condition reads.\<close>

record SimReadings =
  sr_eventNs :: "nat \<Rightarrow> int"
  sr_recvNs :: "int \<Rightarrow> int"
  sr_exchNs :: "int \<Rightarrow> int"
  sr_pump :: "int \<Rightarrow> PumpEnv \<times> int"
  sr_drainStartMs :: int
  sr_drain :: "(int \<times> PumpEnv \<times> int) list"

definition simTpConfig :: "SimOptions \<Rightarrow> TpPublisherConfig" where
  "simTpConfig opts = defaultTpConfig\<lparr>tc_port := so_port opts, tc_table := ''trade_binance'', tc_width := int TRADE_ROW_WIDTH,
     tc_sessionId := so_session opts, tc_ringSize := so_ring opts, tc_initialBackoffMs := 200, tc_maxBackoffMs := 1000\<rparr>"

definition simBackfillConfig :: "SimOptions \<Rightarrow> TradeBackfillConfig" where
  "simBackfillConfig opts = defaultBackfillConfig\<lparr>bc_enabled := True, bc_pageLimit := to_int32 (so_bfPage opts),
     bc_maxGapIds := so_bfMaxGap opts, bc_maxFailures := 4,
     bc_sched := (bc_sched defaultBackfillConfig)\<lparr>sc_weightPerRequest := 1, sc_weightLimitPerMin := 600000,
       sc_initialBackoffMs := 50, sc_maxBackoffMs := 200\<rparr>\<rparr>"

definition newSimState :: "SimOptions \<Rightarrow> SimState" where
  "newSimState opts = \<lparr>ss_tp = newTpPublisher (simTpConfig opts), ss_tracker = Map.empty,
     ss_gapEvents = newGapEventQueue ''trade_gap'', ss_gaps = 0, ss_backfill = newTradeBackfill (simBackfillConfig opts),
     ss_seq = 0, ss_backfilled = 0, ss_rowClock = newRowClock (so_lagThresholdMs opts), ss_seeded = 0, ss_openGaps = 0,
     ss_firstAfterSeed = False, ss_sent = 0, ss_idShift = 0, ss_died = False\<rparr>"

section \<open>Operations\<close>

definition simFlush :: "'w TpIo \<Rightarrow> SimState \<Rightarrow> 'w \<Rightarrow> SimState \<times> 'w" where
  "simFlush io s w =
     (case flush io (ss_gapEvents s) (ss_tp s) w of (b, q, p, w') \<Rightarrow> (s\<lparr>ss_gapEvents := q, ss_tp := p\<rparr>, w'))"

definition simEventCount :: "SimState \<Rightarrow> nat" where
  "simEventCount s = ge_acked (ss_gapEvents s) + ge_rejected (ss_gapEvents s) + length (ge_pending (ss_gapEvents s))"

definition simRecord ::
    "'w TpIo \<Rightarrow> SimReadings \<Rightarrow> TradeGap \<Rightarrow> GapStatus \<Rightarrow> string \<Rightarrow> SimState \<Rightarrow> 'w \<Rightarrow> SimState \<times> 'w" where
  "simRecord io rd gap status reason s w =
     simFlush io (s\<lparr>ss_gapEvents :=
       ge_push (buildGapRow (sr_eventNs rd (simEventCount s)) gap (tc_table (p_cfg (ss_tp s))) status reason) (ss_gapEvents s)\<rparr>) w"

text \<open>The two callbacks of \<open>pump\<close>. The synchronous call before the crash lets the tickerplant read the rows.\<close>

definition simPublishBackfilled ::
    "'w TpIo \<Rightarrow> SimOptions \<Rightarrow> string \<Rightarrow> BackfillTrade \<Rightarrow> int \<Rightarrow> SimState \<times> 'w \<Rightarrow> (SimState \<times> 'w) option" where
  "simPublishBackfilled io opts sy t recvNs = (\<lambda>(s, w).
     if ss_died s then Some (s, w)
     else case stamp recvNs 0 (ss_rowClock s) of (st, rc) \<Rightarrow>
       let n = ss_seq s + 1;
           row = buildTradeRow (st_timeUtcNs st) recvNs sy (bt_id t) (bt_price t) (bt_qty t) (bt_buyerIsMaker t)
             null_long (bt_tradeTimeMs t) 0 0 n
       in case publish io row n (ss_tp s) w of None \<Rightarrow> None
          | Some (ok, p, w') \<Rightarrow>
              let s' = s\<lparr>ss_rowClock := rc, ss_seq := n, ss_tp := p, ss_backfilled := ss_backfilled s + 1\<rparr>
              in if ss_backfilled s' = so_dieAfter opts
                 then Some (s'\<lparr>ss_died := True\<rparr>, if connected p then snd (io_call io (p_handle p) ''1'' [] w') else w')
                 else Some (s', w'))"

definition simRecordEvent ::
    "'w TpIo \<Rightarrow> SimReadings \<Rightarrow> TradeGap \<Rightarrow> GapStatus \<Rightarrow> string \<Rightarrow> SimState \<times> 'w \<Rightarrow> SimState \<times> 'w" where
  "simRecordEvent io rd g st reason = (\<lambda>(s, w). if ss_died s then (s, w) else simRecord io rd g st reason s w)"

definition simPump ::
    "'w TpIo \<Rightarrow> SimReadings \<Rightarrow> SimOptions \<Rightarrow> PumpEnv \<Rightarrow> int \<Rightarrow> SimState \<Rightarrow> 'w \<Rightarrow> (SimState \<times> 'w) option" where
  "simPump io rd opts env steadyMs s w =
     (case pump (simPublishBackfilled io opts) (simRecordEvent io rd) env steadyMs (ss_backfill s) (s, w) of
        None \<Rightarrow> None
      | Some (b, s', w') \<Rightarrow> Some (s'\<lparr>ss_backfill := b\<rparr>, w'))"

text \<open>What the tickerplant knows from an earlier run.\<close>

definition simSeed :: "'w TpIo \<Rightarrow> SimOptions \<Rightarrow> SimState \<Rightarrow> 'w \<Rightarrow> SimState \<times> 'w" where
  "simSeed io opts s w =
     (if \<not> so_seedFromTp opts then (s, w)
      else case tradeState io (ss_tp s) w of (st, p, w') \<Rightarrow>
        let s1 = fold (\<lambda>(sy, n) s. s\<lparr>ss_tracker := seed sy n (ss_tracker s), ss_seeded := ss_seeded s + 1,
                   ss_firstAfterSeed := (ss_firstAfterSeed s \<or> sy = so_sym opts)\<rparr>) (ts_lastIds st) (s\<lparr>ss_tp := p\<rparr>);
            s2 = s1\<lparr>ss_openGaps := length (ts_openGaps st)\<rparr>
        in (if so_backfill opts then fold (\<lambda>g s. s\<lparr>ss_backfill := addGap (resumeGap g) (ss_backfill s)\<rparr>) (ts_openGaps st) s2 else s2, w'))"

text \<open>One row of the loop, up to \<open>publish\<close>: the id goes through the tracker, and a hole is recorded.\<close>

definition simId :: "SimOptions \<Rightarrow> int \<Rightarrow> SimState \<Rightarrow> int" where
  "simId opts i s = so_firstId opts + i + ss_idShift s"

definition simTrack :: "'w TpIo \<Rightarrow> SimReadings \<Rightarrow> SimOptions \<Rightarrow> int \<Rightarrow> SimState \<Rightarrow> 'w \<Rightarrow> SimState \<times> 'w" where
  "simTrack io rd opts i s0 w =
     (let s = (if i = so_gapAt opts then s0\<lparr>ss_idShift := so_gapSize opts\<rparr> else s0)
      in case onId (so_sym opts) (simId opts i s) (ss_tracker s) of (r, tr) \<Rightarrow>
        let s1 = s\<lparr>ss_tracker := tr\<rparr>;
            (s2, w2) = (if ir_kind r = Gap then
               (let g = \<lparr>gap_sym = so_sym opts, gap_firstId = ir_firstMissing r, gap_lastId = ir_lastMissing r,
                      gap_recovered = 0, gap_through = 0\<rparr>
                in case simRecord io rd g Detected (if ss_firstAfterSeed s1 then ''handlerRestart'' else [])
                      (s1\<lparr>ss_gaps := ss_gaps s1 + 1\<rparr>) w of
                     (s', w') \<Rightarrow> (if so_backfill opts then s'\<lparr>ss_backfill := addGap g (ss_backfill s')\<rparr> else s', w'))
               else (s1, w))
        in (s2\<lparr>ss_firstAfterSeed := False\<rparr>, w2))"

definition simLagNs :: "SimOptions \<Rightarrow> int \<Rightarrow> int" where
  "simLagNs opts i =
     (if 0 < so_lagMs opts \<and> so_lagAt opts \<le> i \<and> i < so_lagAt opts + so_lagRows opts then so_lagMs opts * 1000000 else 0)"

text \<open>A row of the loop: false is the break after a \<open>publish\<close> that gave up. The pause after it is in milliseconds here.\<close>

definition simRow :: "'w TpIo \<Rightarrow> SimReadings \<Rightarrow> SimOptions \<Rightarrow> int \<Rightarrow> SimState \<Rightarrow> 'w \<Rightarrow> (bool \<times> SimState \<times> 'w) option" where
  "simRow io rd opts i s0 w0 =
     (let recv = sr_recvNs rd i - simLagNs opts i;
          eventMs = sr_exchNs rd i sdiv 1000000;
          (s, w) = simTrack io rd opts i s0 w0;
          n = ss_seq s + 1;
          (st, rc) = stamp recv eventMs (ss_rowClock s);
          row = buildTradeRow (st_timeUtcNs st) recv (so_sym opts) (simId opts i s) (fakePrice i) (Fin (1 / 2)) (i smod 2 = 0)
            eventMs eventMs 1 1 n
      in case publish io row n (ss_tp s) w of None \<Rightarrow> None
         | Some (ok, p, w1) \<Rightarrow>
             let s1 = s\<lparr>ss_rowClock := rc, ss_seq := n, ss_tp := p\<rparr>
             in if \<not> ok then Some (False, s1, w1)
                else let s2 = s1\<lparr>ss_sent := ss_sent s1 + 1\<rparr>;
                         (s3, w3) = (if ge_pending (ss_gapEvents s2) \<noteq> [] then simFlush io s2 w1 else (s2, w1))
                     in case simPump io rd opts (fst (sr_pump rd i)) (snd (sr_pump rd i)) s3 w3 of None \<Rightarrow> None
                        | Some (s4, w4) \<Rightarrow> Some (True, s4,
                             if ss_died s4 then w4 else io_sleep io (nat (1000000000 sdiv so_rate opts sdiv 1000000)) w4))"

fun simLoop :: "'w TpIo \<Rightarrow> SimReadings \<Rightarrow> SimOptions \<Rightarrow> nat \<Rightarrow> int \<Rightarrow> SimState \<Rightarrow> 'w \<Rightarrow> (SimState \<times> 'w) option" where
  "simLoop io rd opts 0 i s w = Some (s, w)"
| "simLoop io rd opts (Suc n) i s w =
     (case running io (ss_tp s) w of (run, w1) \<Rightarrow>
        if \<not> run then Some (s, w1)
        else case simRow io rd opts i s w1 of None \<Rightarrow> None
          | Some (go, s2, w2) \<Rightarrow> if \<not> go \<or> ss_died s2 then Some (s2, w2) else simLoop io rd opts n (i + 1) s2 w2)"

text \<open>The wait for the backfill at the end, at most 15 seconds; when the readings end, the time has passed.\<close>

fun simDrain ::
    "'w TpIo \<Rightarrow> SimReadings \<Rightarrow> SimOptions \<Rightarrow> (int \<times> PumpEnv \<times> int) list \<Rightarrow> SimState \<Rightarrow> 'w \<Rightarrow> (SimState \<times> 'w) option" where
  "simDrain io rd opts [] s w = Some (s, w)"
| "simDrain io rd opts ((t, env, steadyMs) # rounds) s w =
     (if ss_died s \<or> \<not> (bf_queue (ss_backfill s) \<noteq> [] \<and> t - sr_drainStartMs rd < 15000) then Some (s, w)
      else case running io (ss_tp s) w of (run, w1) \<Rightarrow>
        if \<not> run then Some (s, w1)
        else case simPump io rd opts env steadyMs s w1 of None \<Rightarrow> None
          | Some (s2, w2) \<Rightarrow> simDrain io rd opts rounds s2 (if ss_died s2 then w2 else io_sleep io 2 w2))"

text \<open>The end: the thread is stopped, what is pending is sent, and a synchronous call lets the tickerplant read everything.\<close>

definition simFinish :: "'w TpIo \<Rightarrow> SimState \<Rightarrow> 'w \<Rightarrow> SimState \<times> 'w" where
  "simFinish io s0 w0 =
     (let s1 = s0\<lparr>ss_backfill := bf_stop (ss_backfill s0)\<rparr>;
          (s, w) = (if ge_pending (ss_gapEvents s1) \<noteq> [] then simFlush io s1 w0 else (s1, w0))
      in if connected (ss_tp s) then
           (s, snd (io_call io (p_handle (ss_tp s)) ''1'' []
                 (sendFhStats io (p_handle (ss_tp s)) (tc_table (p_cfg (ss_tp s))) [(''clockLagRows'', int (rc_correctedRows (ss_rowClock s)))] w)))
         else (s, w))"

text \<open>The numbers of the last line of output.\<close>

definition simReport :: "SimState \<Rightarrow> (string \<times> int) list" where
  "simReport s =
     (let p = ss_tp s; b = ss_backfill s
      in [(''rows'', ss_sent s), (''reconnects'', int (p_reconnects p)), (''resent'', int (p_rowsResent p)),
          (''unresendable'', p_rowsUnresendable p), (''gaps'', int (ss_gaps s)), (''gapEventsAcked'', int (ge_acked (ss_gapEvents s))),
          (''gapEventsPending'', int (length (ge_pending (ss_gapEvents s)))), (''seeded'', int (ss_seeded s)),
          (''openGaps'', int (ss_openGaps s)), (''backfilled'', ss_backfilled s), (''gapsRecovered'', int (bf_gapsRecovered b)),
          (''gapsUnrecoverable'', int (bf_gapsUnrecoverable b)), (''gapsStillOpen'', int (length (bf_queue b))),
          (''clockCorrected'', int (rc_correctedRows (ss_rowClock s)))])"

text \<open>\<open>main\<close> after the arguments: the exit code and the state at the exit.\<close>

definition simStart :: "'w TpIo \<Rightarrow> SimReadings \<Rightarrow> SimOptions \<Rightarrow> 'w \<Rightarrow> (bool \<times> SimState \<times> 'w) option" where
  "simStart io rd opts w0 =
     (let s0 = newSimState opts;
          g = \<lparr>gap_sym = so_sym opts, gap_firstId = so_pendFirst opts, gap_lastId = so_pendLast opts, gap_recovered = 0, gap_through = 0\<rparr>;
          (s1, w1) = (if so_pendFirst opts \<le> so_pendLast opts \<and> 0 < so_pendFirst opts
             then simRecord io rd g Detected [] (s0\<lparr>ss_gaps := 1\<rparr>) w0 else (s0, w0))
      in case connect io 1 (ss_tp s1) w1 of None \<Rightarrow> None
         | Some (False, p, w2) \<Rightarrow> Some (False, s1\<lparr>ss_tp := p\<rparr>, w2)
         | Some (True, p, w2) \<Rightarrow>
             (case simSeed io opts (s1\<lparr>ss_tp := p, ss_backfill := bf_start (ss_backfill s1)\<rparr>) w2 of
                (s3, w3) \<Rightarrow> Some (True, s3, w3)))"

definition sim_run :: "'w TpIo \<Rightarrow> SimReadings \<Rightarrow> SimOptions \<Rightarrow> 'w \<Rightarrow> (int \<times> SimState \<times> 'w) option" where
  "sim_run io rd opts w0 =
     (case simStart io rd opts w0 of None \<Rightarrow> None
      | Some (False, s, w) \<Rightarrow> Some (if p_fatalError (ss_tp s) = [] then 1 else 2, s, w)
      | Some (True, s, w) \<Rightarrow>
          (case simLoop io rd opts (nat (so_rows opts)) 0 s w of None \<Rightarrow> None
           | Some (s1, w1) \<Rightarrow>
               (case simDrain io rd opts (sr_drain rd) s1 w1 of None \<Rightarrow> None
                | Some (s2, w2) \<Rightarrow>
                    if ss_died s2 then Some (9, s2, w2)
                    else case simFinish io s2 w2 of (s3, w3) \<Rightarrow>
                      Some (if p_fatalError (ss_tp s3) \<noteq> [] then 2 else if ss_sent s3 = so_rows opts then 0 else 1, s3, w3))))"

definition sim_main :: "'w TpIo \<Rightarrow> SimReadings \<Rightarrow> string list \<Rightarrow> int \<Rightarrow> 'w \<Rightarrow> (int \<times> 'w) option" where
  "sim_main io rd args nowNs w =
     (case sim_args args nowNs of None \<Rightarrow> Some (1, w)
      | Some opts \<Rightarrow> map_option (\<lambda>(code, s, w'). (code, w')) (sim_run io rd opts w))"

section \<open>What has been published and recorded\<close>

definition gap_log :: "gap_event list \<Rightarrow> GapEventQueue \<Rightarrow> bool" where
  "gap_log E q \<longleftrightarrow> ge_acked q + ge_rejected q + length (ge_pending q) = length E \<and>
     (\<exists>ts. length ts = length E \<and> ge_pending q = drop (ge_acked q + ge_rejected q) (event_rows ''trade_binance'' ts E))"

lemma gap_log_push:
  assumes "gap_log E q"
  shows "gap_log (E @ [(g, st, reason)]) (ge_push (buildGapRow t g ''trade_binance'' st reason) q)"
proof -
  obtain ts where ts: "length ts = length E" "ge_pending q = drop (ge_acked q + ge_rejected q) (event_rows ''trade_binance'' ts E)"
    using assms by (auto simp: gap_log_def)
  have "ge_acked q + ge_rejected q \<le> length E" using assms by (simp add: gap_log_def)
  then show ?thesis using assms ts by (auto simp: gap_log_def ge_push_def event_rows_snoc intro!: exI [of _ "ts @ [t]"])
qed

lemma gap_log_flush:
  assumes "gap_log E q" "flush io q p w = (b, q', p', w')"
  shows "gap_log E q'"
proof -
  obtain k where "k \<le> length (ge_pending q)" "ge_pending q' = drop k (ge_pending q)"
      "ge_acked q' + ge_rejected q' = ge_acked q + ge_rejected q + k"
    using flush_loop_conserves [OF assms(2) [unfolded flush_def]] by blast
  with assms(1) show ?thesis by (auto simp: gap_log_def drop_drop add.commute add.left_commute)
qed

text \<open>A publisher without a connection keeps what is pending.\<close>

lemma flush_unconnected: "p_handle p \<le> 0 \<Longrightarrow> flush io q p w = (ge_pending q = [], q, p, w)"
  by (cases "ge_pending q") (simp_all add: flush_def sendEvent_def)

text \<open>A run that has sent \<open>k\<close> rows, with ids shifted by \<open>sh\<close>, published the trades \<open>G\<close> and recorded the events \<open>E\<close>, unless it
  has crashed.\<close>

definition sim_rows :: "'w TpIo \<Rightarrow> ('w \<Rightarrow> TpView) \<Rightarrow> krow list \<Rightarrow> SimState \<Rightarrow> 'w \<Rightarrow> bool" where
  "sim_rows io view H s w \<longleftrightarrow> tp_contract io view (p_cfg (ss_tp s)) \<and> tc_table (p_cfg (ss_tp s)) = ''trade_binance'' \<and>
     tp_ready view (ss_tp s) H w \<and> ss_seq s = int (length H)"

fun sim_log ::
    "'w TpIo \<Rightarrow> ('w \<Rightarrow> TpView) \<Rightarrow> TradeIdTracker \<Rightarrow> int \<Rightarrow> int \<Rightarrow> trade_key list \<Rightarrow> gap_event list \<Rightarrow> SimState \<times> 'w \<Rightarrow> bool" where
  "sim_log io view tr k sh G E (s, w) \<longleftrightarrow> ss_sent s = k \<and> ss_idShift s = sh \<and>
     (ss_died s \<or> ss_tracker s = tr \<and> (\<exists>H. sim_rows io view H s w \<and> map row_key H = G) \<and> gap_log E (ss_gapEvents s))"

declare sim_log.simps [simp del]

lemma sim_log_frame:
  assumes "sim_log io view tr k sh G E (s, w)" "settles (view w) (view w')" "ss_tp s' = ss_tp s" "ss_seq s' = ss_seq s"
    "ss_gapEvents s' = ss_gapEvents s" "ss_died s' = ss_died s" "ss_tracker s' = ss_tracker s" "ss_sent s' = ss_sent s"
    "ss_idShift s' = ss_idShift s"
  shows "sim_log io view tr k sh G E (s', w')"
  using assms by (auto simp: sim_log.simps sim_rows_def intro: tp_ready_settles)

lemma simFlush_log:
  assumes log: "sim_log io view tr k sh G E (s, w)" and d: "\<not> ss_died s" and fl: "simFlush io s w = (s', w')"
  shows "sim_log io view tr k sh G E (s', w') \<and> ss_backfill s' = ss_backfill s \<and> \<not> ss_died s' \<and> ss_tracker s' = ss_tracker s"
proof -
  obtain b q p where f: "flush io (ss_gapEvents s) (ss_tp s) w = (b, q, p, w')" and s': "s' = s\<lparr>ss_gapEvents := q, ss_tp := p\<rparr>"
    using fl by (auto simp: simFlush_def split: prod.splits)
  obtain H where H: "sim_rows io view H s w" "map row_key H = G" "gap_log E (ss_gapEvents s)" using log d by (auto simp: sim_log.simps)
  have "sim_rows io view H s' w'" using flush_loop_view [OF _ _ f [unfolded flush_def], of view H] H(1) by (simp add: sim_rows_def s')
  moreover have "gap_log E q" by (rule gap_log_flush [OF H(3) f])
  ultimately show ?thesis using log d H(2) by (auto simp: sim_log.simps s')
qed

lemma simRecord_log:
  assumes log: "sim_log io view tr k sh G E (s, w)" and d: "\<not> ss_died s" and rec: "simRecord io rd g st reason s w = (s', w')"
  shows "sim_log io view tr k sh G (E @ [(g, st, reason)]) (s', w') \<and> ss_backfill s' = ss_backfill s \<and> \<not> ss_died s' \<and> ss_tracker s' = ss_tracker s"
proof -
  let ?s = "s\<lparr>ss_gapEvents := ge_push (buildGapRow (sr_eventNs rd (simEventCount s)) g (tc_table (p_cfg (ss_tp s))) st reason) (ss_gapEvents s)\<rparr>"
  have "sim_log io view tr k sh G (E @ [(g, st, reason)]) (?s, w)" using log d by (auto simp: sim_log.simps sim_rows_def gap_log_push)
  from simFlush_log [OF this _ rec [unfolded simRecord_def]] d show ?thesis by simp
qed

text \<open>A row that is published, whatever \<open>publish\<close> answers.\<close>

lemma sim_publish:
  assumes "sim_rows io view H s w" "publish io r (ss_seq s + 1) (ss_tp s) w = Some (ok, p, w')" "row_seq r = ss_seq s + 1"
    and "ss_tp s' = p" "ss_seq s' = ss_seq s + 1"
  shows "sim_rows io view (H @ [r]) s' w'"
proof -
  have h: "tp_contract io view (p_cfg (ss_tp s))" "tp_ready view (ss_tp s) H w" "row_seq r = int (length H) + 1"
    using assms(1,3) by (simp_all add: sim_rows_def)
  have "publish io r (row_seq r) (ss_tp s) w = Some (ok, p, w')" using assms(2,3) by simp
  from publish_ready [OF h this] assms show ?thesis by (simp add: sim_rows_def)
qed

lemma simPublishBackfilled_log:
  assumes log: "sim_log io view tr k sh G E (s, w)" and pub: "simPublishBackfilled io opts sy t recvNs (s, w) = Some (s', w')"
  shows "sim_log io view tr k sh (G @ [(sy, bt_id t)]) E (s', w')"
proof (cases "ss_died s")
  case True
  then show ?thesis using log pub by (simp add: simPublishBackfilled_def sim_log.simps)
next
  case False
  obtain st rc where st: "stamp recvNs 0 (ss_rowClock s) = (st, rc)" by force
  define row where "row = buildTradeRow (st_timeUtcNs st) recvNs sy (bt_id t) (bt_price t) (bt_qty t) (bt_buyerIsMaker t)
             null_long (bt_tradeTimeMs t) 0 0 (ss_seq s + 1)"
  obtain H where H: "sim_rows io view H s w" "map row_key H = G" using log False by (auto simp: sim_log.simps)
  obtain ok p w1 where p: "publish io row (ss_seq s + 1) (ss_tp s) w = Some (ok, p, w1)"
    using pub False unfolding simPublishBackfilled_def by (auto simp: st Let_def row_def split: option.splits)
  let ?s = "s\<lparr>ss_rowClock := rc, ss_seq := ss_seq s + 1, ss_tp := p, ss_backfilled := ss_backfilled s + 1\<rparr>"
  have s': "(s', w') = (?s, w1) \<or> ss_died s' \<and> ss_sent s' = ss_sent s \<and> ss_idShift s' = ss_idShift s"
    using pub False p unfolding simPublishBackfilled_def by (auto simp: st Let_def row_def [symmetric] split: if_splits)
  have "row_seq row = ss_seq s + 1" "row_key row = (sy, bt_id t)" by (simp_all add: row_def trade_row_facts)
  with sim_publish [OF H(1) p, of ?s] H(2) have "\<exists>H'. sim_rows io view H' ?s w1 \<and> map row_key H' = G @ [(sy, bt_id t)]"
    by (intro exI [of _ "H @ [row]"]) simp
  then show ?thesis using s' log False by (auto simp: sim_log.simps)
qed

interpretation sim_client: backfill_client "simPublishBackfilled io opts" "simRecordEvent io rd" "sim_log io view tr k sh"
  for io opts rd view tr k sh
proof
  fix G E s sy t r s'
  assume "sim_log io view tr k sh G E s" "simPublishBackfilled io opts sy t r s = Some s'"
  then show "sim_log io view tr k sh (G @ [(sy, bt_id t)]) E s'"
    by (cases s; cases s') (auto intro: simPublishBackfilled_log)
next
  fix G E s g st reason
  assume l: "sim_log io view tr k sh G E s"
  obtain s1 w where s: "s = (s1, w)" by force
  obtain s2 w2 where r: "simRecord io rd g st reason s1 w = (s2, w2)" by force
  show "sim_log io view tr k sh G (E @ [(g, st, reason)]) (simRecordEvent io rd g st reason s)"
  proof (cases "ss_died s1")
    case True
    then show ?thesis using l by (simp add: s simRecordEvent_def sim_log.simps)
  next
    case False
    then show ?thesis using simRecord_log [OF l [unfolded s] False r] r by (simp add: s simRecordEvent_def)
  qed
qed

text \<open>The ids \<open>X\<close> are accounted for.\<close>

definition sim_ok ::
    "'w TpIo \<Rightarrow> ('w \<Rightarrow> TpView) \<Rightarrow> trade_key multiset \<Rightarrow> TradeIdTracker \<Rightarrow> int \<Rightarrow> int \<Rightarrow> SimState \<Rightarrow> 'w \<Rightarrow> bool" where
  "sim_ok io view X tr k sh s w \<longleftrightarrow> bf_ok (ss_backfill s) \<and>
     (\<exists>G E. sim_log io view tr k sh G E (s, w) \<and> (ss_died s \<or> X = mset G + lost_ids E + open_ids (ss_backfill s)))"

lemma sim_okI:
  "bf_ok (ss_backfill s) \<Longrightarrow> sim_log io view tr k sh G E (s, w) \<Longrightarrow> X = mset G + lost_ids E + open_ids (ss_backfill s) \<Longrightarrow>
     sim_ok io view X tr k sh s w"
  unfolding sim_ok_def by blast

lemma sim_ok_frame:
  assumes "sim_ok io view X tr k sh s w" "settles (view w) (view w')"
  shows "sim_ok io view X tr k sh s w'"
proof -
  obtain G E where log: "sim_log io view tr k sh G E (s, w)" "ss_died s \<or> X = mset G + lost_ids E + open_ids (ss_backfill s)"
    using assms(1) by (auto simp: sim_ok_def)
  have "sim_log io view tr k sh G E (s, w')" by (rule sim_log_frame [OF log(1) assms(2)]) simp_all
  with log(2) assms(1) show ?thesis unfolding sim_ok_def by blast
qed

lemma simPump_ok:
  assumes ok: "sim_ok io view X tr k sh s w" and d: "\<not> ss_died s" and p: "simPump io rd opts env now s w = Some (s', w')"
  shows "sim_ok io view X tr k sh s' w'"
proof -
  obtain b s1 where p: "pump (simPublishBackfilled io opts) (simRecordEvent io rd) env now (ss_backfill s) (s, w) = Some (b, s1, w')"
    and s': "s' = s1\<lparr>ss_backfill := b\<rparr>"
    using p by (auto simp: simPump_def split: option.splits)
  obtain G E where log: "bf_ok (ss_backfill s)" "sim_log io view tr k sh G E (s, w)" "X = mset G + lost_ids E + open_ids (ss_backfill s)"
    using ok d by (auto simp: sim_ok_def)
  from sim_client.pump_step [OF p log(1), unfolded sim_client.step_ok_def, of view tr k sh] log(2)
  obtain D L where d: "bf_ok b" "sim_log io view tr k sh (G @ D) (E @ L) (s1, w')"
      "open_ids (ss_backfill s) = mset D + lost_ids L + open_ids b"
    by blast
  have "sim_log io view tr k sh (G @ D) (E @ L) (s', w')" using d(2) by (auto simp: s' sim_log.simps sim_rows_def)
  moreover have "X = mset (G @ D) + lost_ids (E @ L) + open_ids (ss_backfill s')" by (simp add: log(3) d(3) s' ac_simps)
  moreover have "bf_ok (ss_backfill s')" using d(1) by (simp add: s')
  ultimately show ?thesis unfolding sim_ok_def by blast
qed

lemma simFlush_ok:
  assumes "sim_ok io view X tr k sh s w" "\<not> ss_died s" "simFlush io s w = (s', w')"
  shows "sim_ok io view X tr k sh s' w' \<and> \<not> ss_died s'"
  using assms simFlush_log [OF _ assms(2,3), of view tr k sh] by (fastforce simp: sim_ok_def)

section \<open>The rows of the loop\<close>

text \<open>The id of row \<open>i\<close>, and what the loop has done before it: the ids accounted for, the tracker, the shift.\<close>

definition sim_id :: "SimOptions \<Rightarrow> int \<Rightarrow> int" where
  "sim_id opts i = so_firstId opts + i + (if 0 \<le> so_gapAt opts \<and> so_gapAt opts \<le> i then so_gapSize opts else 0)"

definition sim_shift :: "SimOptions \<Rightarrow> int \<Rightarrow> int" where
  "sim_shift opts i = (if 0 \<le> so_gapAt opts \<and> so_gapAt opts < i then so_gapSize opts else 0)"

definition sim_tracker :: "SimOptions \<Rightarrow> int \<Rightarrow> TradeIdTracker" where
  "sim_tracker opts i = (if i = 0 then Map.empty else [so_sym opts \<mapsto> sim_id opts (i - 1)])"

definition sim_ids :: "SimOptions \<Rightarrow> int \<Rightarrow> trade_key multiset" where
  "sim_ids opts i = id_range (so_sym opts) (sim_id opts 0) (sim_id opts (i - 1))"

definition sim_at :: "'w TpIo \<Rightarrow> ('w \<Rightarrow> TpView) \<Rightarrow> SimOptions \<Rightarrow> int \<Rightarrow> SimState \<Rightarrow> 'w \<Rightarrow> bool" where
  "sim_at io view opts i s w \<longleftrightarrow> sim_ok io view (sim_ids opts i) (sim_tracker opts i) i (sim_shift opts i) s w"

definition plain_options :: "SimOptions \<Rightarrow> bool" where
  "plain_options opts \<longleftrightarrow> so_backfill opts \<and> \<not> so_seedFromTp opts \<and> 0 \<le> so_firstId opts \<and> 0 \<le> so_gapSize opts"

lemma sim_id_mono: "plain_options opts \<Longrightarrow> i < j \<Longrightarrow> sim_id opts i < sim_id opts j"
  by (auto simp: sim_id_def plain_options_def)

lemma simId_is: "ss_idShift s = sim_shift opts (i + 1) \<Longrightarrow> simId opts i s = sim_id opts i"
  by (auto simp: simId_def sim_id_def sim_shift_def)

lemma simTrack_ok:
  assumes at: "sim_at io view opts i s0 w" and d: "\<not> ss_died s0" and o: "plain_options opts" and i: "0 \<le> i"
    and tr: "simTrack io rd opts i s0 w = (s', w')"
  shows "sim_ok io view (id_range (so_sym opts) (sim_id opts 0) (sim_id opts i - 1)) [so_sym opts \<mapsto> sim_id opts i] i (sim_shift opts (i + 1)) s' w' \<and>
    \<not> ss_died s'"
proof -
  let ?sy = "so_sym opts" and ?id = "sim_id opts i"
  define s where "s = (if i = so_gapAt opts then s0\<lparr>ss_idShift := so_gapSize opts\<rparr> else s0)"
  obtain G E where log: "bf_ok (ss_backfill s0)" "sim_log io view (sim_tracker opts i) i (sim_shift opts i) G E (s0, w)"
      "sim_ids opts i = mset G + lost_ids E + open_ids (ss_backfill s0)"
    using at d by (auto simp: sim_at_def sim_ok_def)
  have s: "ss_tracker s = sim_tracker opts i" "ss_idShift s = sim_shift opts (i + 1)" "ss_backfill s = ss_backfill s0" "\<not> ss_died s"
    using log(2) d i by (auto simp: s_def sim_log.simps sim_shift_def)
  note id = simId_is [OF s(2)]
  have l: "sim_log io view (sim_tracker opts i) i (sim_shift opts (i + 1)) G E (s, w)"
    using log(2) d i by (auto simp: s_def sim_log.simps sim_rows_def sim_shift_def)
  obtain r t where on: "onId ?sy ?id (sim_tracker opts i) = (r, t)" by force
  define s1 where "s1 = s\<lparr>ss_tracker := t\<rparr>"
  have l1: "sim_log io view t i (sim_shift opts (i + 1)) G E (s1, w)"
    using l s(4) by (auto simp: s1_def sim_log.simps sim_rows_def)
  consider (first) "i = 0" | (order) "0 < i" "?id = sim_id opts (i - 1) + 1" | (gap) "0 < i" "sim_id opts (i - 1) + 1 < ?id"
    using i sim_id_mono [OF o, of "i - 1" i] by fastforce
  then show ?thesis
  proof cases
    case first
    have ot: "r = emptyIdResult" "t = [?sy \<mapsto> ?id]" using on first by (auto simp: onId_def sim_tracker_def)
    have s': "s' = s1\<lparr>ss_firstAfterSeed := False\<rparr>" "w' = w"
      using tr by (simp_all add: simTrack_def Let_def s_def [symmetric] id s(1) on s1_def ot emptyIdResult_def)
    have "sim_log io view [?sy \<mapsto> ?id] i (sim_shift opts (i + 1)) G E (s', w')" using l1 by (auto simp: s' ot sim_log.simps sim_rows_def)
    moreover have "sim_ids opts i = id_range ?sy (sim_id opts 0) (?id - 1)"
      using first sim_id_mono [OF o, of "-1" 0] by (simp add: sim_ids_def)
    ultimately show ?thesis using log(1,3) s by (intro conjI sim_okI [of _ _ _ _ _ _ G E]) (simp_all add: s' s1_def)
  next
    case order
    have ot: "ir_kind r = InOrder" "t = [?sy \<mapsto> ?id]" using on order by (auto simp: onId_def sim_tracker_def emptyIdResult_def)
    have s': "s' = s1\<lparr>ss_firstAfterSeed := False\<rparr>" "w' = w"
      using tr by (simp_all add: simTrack_def Let_def s_def [symmetric] id s(1) on s1_def ot)
    have "sim_log io view [?sy \<mapsto> ?id] i (sim_shift opts (i + 1)) G E (s', w')" using l1 by (auto simp: s' ot sim_log.simps sim_rows_def)
    moreover have "sim_ids opts i = id_range ?sy (sim_id opts 0) (?id - 1)" using order by (simp add: sim_ids_def)
    ultimately show ?thesis using log(1,3) s by (intro conjI sim_okI [of _ _ _ _ _ _ G E]) (simp_all add: s' s1_def)
  next
    case gap
    define g where "g = \<lparr>gap_sym = ?sy, gap_firstId = sim_id opts (i - 1) + 1, gap_lastId = ?id - 1, gap_recovered = 0, gap_through = 0\<rparr>"
    have ot: "ir_kind r = Gap" "ir_firstMissing r = sim_id opts (i - 1) + 1" "ir_lastMissing r = ?id - 1" "t = [?sy \<mapsto> ?id]"
      using on gap by (auto simp: onId_def sim_tracker_def emptyIdResult_def)
    obtain rs s2 w2 where rec: "simRecord io rd g Detected rs (s1\<lparr>ss_gaps := ss_gaps s1 + 1\<rparr>) w = (s2, w2)"
      and s': "s' = s2\<lparr>ss_backfill := addGap g (ss_backfill s2), ss_firstAfterSeed := False\<rparr>" "w' = w2"
      using tr o by (auto simp: simTrack_def Let_def s_def [symmetric] id s(1) on s1_def ot g_def plain_options_def split: prod.splits)
    have "sim_log io view t i (sim_shift opts (i + 1)) G E (s1\<lparr>ss_gaps := ss_gaps s1 + 1\<rparr>, w)"
      using l1 by (auto simp: sim_log.simps sim_rows_def)
    from simRecord_log [OF this _ rec] s(4)
    have rec': "sim_log io view t i (sim_shift opts (i + 1)) G (E @ [(g, Detected, rs)]) (s2, w2)" "ss_backfill s2 = ss_backfill s0" "\<not> ss_died s2"
      by (simp_all add: s1_def s(3))
    have "0 \<le> so_firstId opts" "0 \<le> so_gapSize opts" using o by (simp_all add: plain_options_def)
    then have pos: "0 < gap_firstId g" using gap(1) by (simp add: g_def sim_id_def)
    note ag = addGap_ok [OF log(1) pos]
    have "sim_log io view t i (sim_shift opts (i + 1)) G (E @ [(g, Detected, rs)]) (s', w')"
      using rec'(1) by (auto simp: s' sim_log.simps sim_rows_def)
    moreover have "id_range ?sy (sim_id opts 0) (?id - 1) = mset G + lost_ids (E @ [(g, Detected, rs)]) + open_ids (ss_backfill s')"
    proof -
      have "sim_id opts 0 \<le> sim_id opts (i - 1)" using gap(1) sim_id_mono [OF o, of 0 "i - 1"] by (cases "i = 1") auto
      then have "id_range ?sy (sim_id opts 0) (?id - 1) = sim_ids opts i + gap_ids g"
        using id_range_join [of "sim_id opts 0" "sim_id opts (i - 1)" "?id - 1" ?sy] gap(2)
        by (simp add: sim_ids_def gap_ids_def nextNeededId_def g_def)
      then show ?thesis using log(3) ag by (simp add: s' rec'(2) lost_ids_def ac_simps)
    qed
    ultimately show ?thesis using ag rec' ot(4) by (intro conjI sim_okI [of _ _ _ _ _ _ G "E @ [(g, Detected, rs)]"]) (simp_all add: s')
  qed
qed

lemma sim_ids_step:
  assumes "plain_options opts" "0 \<le> i"
  shows "sim_ids opts (i + 1) = id_range (so_sym opts) (sim_id opts 0) (sim_id opts i - 1) + {#(so_sym opts, sim_id opts i)#}"
proof -
  have "sim_id opts 0 \<le> sim_id opts i" using assms sim_id_mono [OF assms(1), of 0 i] by (cases "i = 0") auto
  then show ?thesis using id_range_snoc [of "sim_id opts 0" "sim_id opts i - 1" "so_sym opts"] by (simp add: sim_ids_def)
qed

lemma sim_ok_contract: "sim_ok io view X tr k sh s w \<Longrightarrow> \<not> ss_died s \<Longrightarrow> tp_contract io view (p_cfg (ss_tp s))"
  by (auto simp: sim_ok_def sim_log.simps sim_rows_def)

lemma sim_ok_sleep:
  "sim_ok io view X tr k sh s w \<Longrightarrow> sim_ok io view X tr k sh s (if ss_died s then w else io_sleep io n w)"
  using sim_ok_contract [of io view X tr k sh s w] sim_ok_frame [of io view X tr k sh s w "io_sleep io n w"]
  by (auto simp: tp_contract_def)

lemma sim_ok_running: "sim_ok io view X tr k sh s w \<Longrightarrow> \<not> ss_died s \<Longrightarrow> running io (ss_tp s) w = (run, w1) \<Longrightarrow> sim_ok io view X tr k sh s w1"
  using sim_ok_contract [of io view X tr k sh s w] sim_ok_frame [of io view X tr k sh s w w1] running_view [of io view] by blast

lemma simRow_ok:
  assumes at: "sim_at io view opts i s0 w0" and d: "\<not> ss_died s0" and o: "plain_options opts" and i: "0 \<le> i"
    and row: "simRow io rd opts i s0 w0 = Some (go, s', w')"
  shows "if go then sim_at io view opts (i + 1) s' w' else \<exists>X tr sh. sim_ok io view X tr i sh s' w'"
proof -
  let ?sy = "so_sym opts" and ?id = "sim_id opts i" and ?sh = "sim_shift opts (i + 1)"
  obtain s w where tr: "simTrack io rd opts i s0 w0 = (s, w)" by force
  from simTrack_ok [OF at d o i tr]
  have ok: "sim_ok io view (id_range ?sy (sim_id opts 0) (?id - 1)) [?sy \<mapsto> ?id] i ?sh s w" and ds: "\<not> ss_died s" by simp_all
  obtain G E where log: "bf_ok (ss_backfill s)" "sim_log io view [?sy \<mapsto> ?id] i ?sh G E (s, w)"
      "id_range ?sy (sim_id opts 0) (?id - 1) = mset G + lost_ids E + open_ids (ss_backfill s)"
    using ok ds by (auto simp: sim_ok_def)
  obtain H where H: "sim_rows io view H s w" "map row_key H = G" "gap_log E (ss_gapEvents s)" "ss_sent s = i" "ss_tracker s = [?sy \<mapsto> ?id]"
      "ss_idShift s = ?sh"
    using log(2) ds by (auto simp: sim_log.simps)
  define recv where "recv = sr_recvNs rd i - simLagNs opts i"
  define ms where "ms = sr_exchNs rd i sdiv 1000000"
  obtain st rc where st: "stamp recv ms (ss_rowClock s) = (st, rc)" by force
  define r where "r = buildTradeRow (st_timeUtcNs st) recv ?sy ?id (fakePrice i) (Fin (1 / 2)) (i smod 2 = 0) ms ms 1 1 (ss_seq s + 1)"
  have rf: "row_seq r = ss_seq s + 1" "row_key r = (?sy, ?id)" by (simp_all add: r_def trade_row_facts)
  obtain b p w1 where p: "publish io r (ss_seq s + 1) (ss_tp s) w = Some (b, p, w1)"
    using row by (auto simp: simRow_def tr st simId_is [OF H(6)] Let_def recv_def [symmetric] ms_def [symmetric] r_def [symmetric] split: option.splits)
  define s1 where "s1 = s\<lparr>ss_rowClock := rc, ss_seq := ss_seq s + 1, ss_tp := p\<rparr>"
  define s2 where "s2 = s1\<lparr>ss_sent := ss_sent s1 + 1\<rparr>"
  note eq = row [unfolded simRow_def Let_def, folded recv_def ms_def, unfolded tr prod.case st simId_is [OF H(6)], folded r_def,
      unfolded p option.case prod.case, folded s1_def, folded s2_def]
  show ?thesis
  proof (cases b)
    case False
    then have s': "s' = s1" "w' = w1" "\<not> go" using eq by auto
    have "sim_rows io view (H @ [r]) s1 w1" using sim_publish [OF H(1) p rf(1), of s1] by (simp add: s1_def)
    then have "sim_log io view [?sy \<mapsto> ?id] i ?sh (G @ [(?sy, ?id)]) E (s1, w1)"
      using H(2-6) ds rf(2) by (auto simp: sim_log.simps s1_def intro!: exI [of _ "H @ [r]"])
    from sim_okI [OF _ this refl] log(1) have "\<exists>X. sim_ok io view X [?sy \<mapsto> ?id] i ?sh s1 w1" by (auto simp: s1_def)
    then show ?thesis using s' by auto
  next
    case True
    have "sim_rows io view (H @ [r]) s2 w1" using sim_publish [OF H(1) p rf(1), of s2] by (simp add: s2_def s1_def)
    then have l2: "sim_log io view [?sy \<mapsto> ?id] (i + 1) ?sh (G @ [(?sy, ?id)]) E (s2, w1)"
      using H(2-6) ds rf(2) by (auto simp: sim_log.simps s2_def s1_def intro!: exI [of _ "H @ [r]"])
    have "sim_tracker opts (i + 1) = [?sy \<mapsto> ?id]" using i by (simp add: sim_tracker_def)
    then have at2: "sim_at io view opts (i + 1) s2 w1" unfolding sim_at_def
      by (intro sim_okI [OF _ l2 [folded \<open>sim_tracker opts (i + 1) = _\<close>]])
        (use log(1,3) in \<open>simp_all add: s2_def s1_def sim_ids_step [OF o i]\<close>)
    obtain s3 w3 where f: "(if ge_pending (ss_gapEvents s2) \<noteq> [] then simFlush io s2 w1 else (s2, w1)) = (s3, w3)" by force
    have d2: "\<not> ss_died s2" using ds by (simp add: s2_def s1_def)
    have at3: "sim_at io view opts (i + 1) s3 w3" "\<not> ss_died s3"
      using f at2 simFlush_ok [OF at2 [unfolded sim_at_def] d2, of s3 w3] d2 by (auto simp: sim_at_def split: if_splits)
    obtain s4 w4 where q: "simPump io rd opts (fst (sr_pump rd i)) (snd (sr_pump rd i)) s3 w3 = Some (s4, w4)"
      and res: "go" "s' = s4" "w' = (if ss_died s4 then w4 else io_sleep io (nat (1000000000 sdiv so_rate opts sdiv 1000000)) w4)"
      using eq True f by (auto split: option.splits)
    from simPump_ok [OF at3(1) [unfolded sim_at_def] at3(2) q] show ?thesis
      using res sim_ok_sleep by (simp only: sim_at_def if_True)
  qed
qed

lemma simLoop_ok:
  assumes "sim_at io view opts i s w" "\<not> ss_died s" "plain_options opts" "0 \<le> i" "simLoop io rd opts n i s w = Some (s', w')"
  shows "ss_died s' \<or> sim_at io view opts (i + int n) s' w' \<or> (\<exists>X tr k sh. sim_ok io view X tr k sh s' w' \<and> k < i + int n)"
  using assms
proof (induction n arbitrary: i s w)
  case (Suc n)
  obtain run w1 where r: "running io (ss_tp s) w = (run, w1)" by force
  have at1: "sim_at io view opts i s w1"
    using sim_ok_running [OF Suc.prems(1) [unfolded sim_at_def] Suc.prems(2) r] by (simp add: sim_at_def)
  show ?case
  proof (cases run)
    case False
    then have "s' = s" "w' = w1" using Suc.prems(5) r by auto
    moreover have "i < i + int (Suc n)" by simp
    ultimately show ?thesis using at1 unfolding sim_at_def by blast
  next
    case True
    then obtain go s2 w2 where row: "simRow io rd opts i s w1 = Some (go, s2, w2)"
      and rest: "(if \<not> go \<or> ss_died s2 then Some (s2, w2) else simLoop io rd opts n (i + 1) s2 w2) = Some (s', w')"
      using Suc.prems(5) r by (auto split: option.splits)
    note ok = simRow_ok [OF at1 Suc.prems(2-4) row]
    show ?thesis
    proof (cases "\<not> go \<or> ss_died s2")
      case True
      then have "s' = s2" "w' = w2" "go \<Longrightarrow> ss_died s2" using rest by auto
      moreover have "i < i + int (Suc n)" by simp
      ultimately show ?thesis using ok by (cases go) (simp_all only: if_True if_False, blast+)
    next
      case False
      then show ?thesis using Suc.IH [of "i + 1" s2 w2] ok rest Suc.prems(3,4) by (simp add: add.assoc)
    qed
  qed
qed simp

lemma simDrain_ok:
  assumes "ss_died s \<or> sim_ok io view X tr k sh s w" "simDrain io rd opts rounds s w = Some (s', w')"
  shows "ss_died s' \<or> sim_ok io view X tr k sh s' w'"
  using assms
proof (induction rounds arbitrary: s w)
  case (Cons x rounds)
  obtain t env ms where x: "x = (t, env, ms)" by (metis prod_cases3)
  show ?case
  proof (cases "ss_died s \<or> \<not> (bf_queue (ss_backfill s) \<noteq> [] \<and> t - sr_drainStartMs rd < 15000)")
    case True
    then show ?thesis using Cons.prems by (auto simp: x)
  next
    case False
    obtain run w1 where r: "running io (ss_tp s) w = (run, w1)" by force
    have ok1: "sim_ok io view X tr k sh s w1" using sim_ok_running [of io view X tr k sh s w run w1] Cons.prems(1) False r by blast
    show ?thesis
    proof (cases run)
      case run: False
      then show ?thesis using Cons.prems(2) r ok1 False by (auto simp: x)
    next
      case True
      then obtain s2 w2 where p: "simPump io rd opts env ms s w1 = Some (s2, w2)"
        and rest: "simDrain io rd opts rounds s2 (if ss_died s2 then w2 else io_sleep io 2 w2) = Some (s', w')"
        using Cons.prems(2) r False by (auto simp: x split: option.splits)
      have "sim_ok io view X tr k sh s2 w2" using simPump_ok [OF ok1 _ p] False by simp
      from sim_ok_sleep [OF this, of 2] show ?thesis by (intro Cons.IH [OF _ rest] disjI2)
    qed
  qed
qed simp

section \<open>The start and the end\<close>

lemma simStart_ok:
  assumes con: "tp_contract io view (simTpConfig opts)" and o: "plain_options opts"
    and view0: "tv_logged (view w0) = []" "tv_flight (view w0) = []" "\<not> tv_known (view w0)"
    and st: "simStart io rd opts w0 = Some (True, s, w)"
  shows "sim_at io view opts 0 s w \<and> \<not> ss_died s"
proof -
  define g where "g = \<lparr>gap_sym = so_sym opts, gap_firstId = so_pendFirst opts, gap_lastId = so_pendLast opts, gap_recovered = 0, gap_through = 0\<rparr>"
  define E :: "gap_event list" where "E = (if so_pendFirst opts \<le> so_pendLast opts \<and> 0 < so_pendFirst opts then [(g, Detected, [])] else [])"
  obtain s1 w1 where 1: "(if so_pendFirst opts \<le> so_pendLast opts \<and> 0 < so_pendFirst opts
      then simRecord io rd g Detected [] ((newSimState opts)\<lparr>ss_gaps := 1\<rparr>) w0 else (newSimState opts, w0)) = (s1, w1)" by force
  have e0: "gap_log [] (newGapEventQueue ''trade_gap'')" by (simp add: gap_log_def newGapEventQueue_def event_rows_def)
  have s1: "w1 = w0" "ss_tp s1 = newTpPublisher (simTpConfig opts)" "ss_seq s1 = 0" "gap_log E (ss_gapEvents s1)"
    "ss_backfill s1 = newTradeBackfill (simBackfillConfig opts)" "ss_tracker s1 = Map.empty" "ss_sent s1 = 0" "ss_idShift s1 = 0" "\<not> ss_died s1"
    using 1 e0 gap_log_push [OF e0, of g Detected "[]"]
    by (auto simp: E_def simRecord_def simFlush_def flush_unconnected newTpPublisher_def newSimState_def simTpConfig_def split: if_splits)
  obtain p w2 where c: "connect io 1 (ss_tp s1) w0 = Some (True, p, w2)"
    and s: "s = s1\<lparr>ss_tp := p, ss_backfill := bf_start (ss_backfill s1)\<rparr>" "w = w2"
    using st o unfolding simStart_def Let_def g_def [symmetric] 1 s1(1)
    by (auto simp: s1(1) simSeed_def plain_options_def split: option.splits bool.splits)
  have idle: "tp_idle view (ss_tp s1) [] w0" "p_cfg (ss_tp s1) = simTpConfig opts" "p_handle (ss_tp s1) \<le> 0"
    by (simp_all add: s1(2) newTpPublisher_def tp_idle_def tp_base_def view0 ring_of_def last_n_def numbered_def)
  have post: "connect_post view [] (ss_tp s1) (True, p, w2)"
    using connect_loop_view [OF con, of _ 0 "ss_tp s1" w0 _ "[]"] c idle by (simp add: connect_def)
  then have rdy: "tp_ready view p [] w2" "p_cfg p = simTpConfig opts"
    using connect_post_ready [OF post] post idle(2) by (simp_all add: connect_post_def)
  have "sim_rows io view [] s w" using rdy con by (simp add: sim_rows_def s s1(3)) (simp add: simTpConfig_def)
  then have "sim_log io view Map.empty 0 0 [] E (s, w)" using s1 by (auto simp: sim_log.simps s)
  moreover have "bf_ok (ss_backfill s)" using bf_start_ok [OF newTradeBackfill_ok] by (simp add: s s1(5)) (simp add: newTradeBackfill_def)
  moreover have "lost_ids E = {#}" "open_ids (ss_backfill s) = {#}"
    by (simp_all add: E_def lost_ids_def s s1(5) bf_start_def open_ids_def newTradeBackfill_def)
  moreover have "sim_ids opts 0 = {#}" using sim_id_mono [OF o, of "-1" 0] by (simp add: sim_ids_def)
  moreover have "sim_tracker opts 0 = Map.empty" "sim_shift opts 0 = 0" by (auto simp: sim_tracker_def sim_shift_def)
  ultimately show ?thesis unfolding sim_at_def using s1(9) by (auto intro!: sim_okI [of _ _ _ _ _ _ "[]" E] simp: s)
qed

text \<open>What is assumed of the empty synchronous query: it changes nothing but the time.\<close>

definition ping_contract :: "'w TpIo \<Rightarrow> ('w \<Rightarrow> TpView) \<Rightarrow> bool" where
  "ping_contract io view \<longleftrightarrow> (\<forall>h w. settles (view w) (view (snd (io_call io h ''1'' [] w))))"

lemma simFinish_ok:
  assumes ok: "sim_ok io view X tr k sh s w" and d: "\<not> ss_died s" and con: "health_contract io view" "ping_contract io view"
    and fin: "simFinish io s w = (s', w')"
  shows "sim_ok io view X tr k sh s' w' \<and> \<not> ss_died s'"
proof -
  let ?s = "s\<lparr>ss_backfill := bf_stop (ss_backfill s)\<rparr>"
  obtain G E where log: "bf_ok (ss_backfill s)" "sim_log io view tr k sh G E (s, w)" "X = mset G + lost_ids E + open_ids (ss_backfill s)"
    using ok d by (auto simp: sim_ok_def)
  have "sim_log io view tr k sh G E (?s, w)" using log(2) by (auto simp: sim_log.simps sim_rows_def)
  moreover have "open_ids (bf_stop b) = open_ids b" for b by (simp add: bf_stop_def open_ids_def)
  ultimately have ok1: "sim_ok io view X tr k sh ?s w" using log bf_stop_ok by (auto intro: sim_okI)
  obtain s1 w1 where f: "(if ge_pending (ss_gapEvents ?s) \<noteq> [] then simFlush io ?s w else (?s, w)) = (s1, w1)" by force
  have ok2: "sim_ok io view X tr k sh s1 w1 \<and> \<not> ss_died s1"
    using f ok1 simFlush_ok [OF ok1 _, of s1 w1] d by (auto split: if_splits)
  let ?w = "sendFhStats io (p_handle (ss_tp s1)) (tc_table (p_cfg (ss_tp s1))) [(''clockLagRows'', int (rc_correctedRows (ss_rowClock s1)))] w1"
  have "settles (view ?w) (view (snd (io_call io (p_handle (ss_tp s1)) ''1'' [] ?w)))" using con(2) by (simp add: ping_contract_def)
  with settles_trans [OF sendFhStats_settles [OF con(1)] this]
  have "s' = s1 \<and> settles (view w1) (view w')" using fin unfolding simFinish_def Let_def f by (auto split: if_splits)
  with ok2 show ?thesis by (auto intro: sim_ok_frame)
qed


section \<open>A run\<close>

text \<open>Three rows with a hole of two ids and a pending gap, as the command line asks for; the tickerplant is the one that dies.\<close>

definition sim_demo_args :: "string list" where
  "sim_demo_args = [''--port'', ''5010'', ''--rows'', ''3'', ''--gap-at'', ''1'', ''--gap-size'', ''2'', ''--backfill'', ''1'',
     ''--pending-gap'', ''7:9'', ''x'']"

definition sim_demo :: SimOptions where
  "sim_demo = (defaultSimOptions 5)\<lparr>so_port := 5010, so_rows := 3, so_gapAt := 1, so_gapSize := 2, so_backfill := True,
     so_pendFirst := 7, so_pendLast := 9\<rparr>"

lemmas sim_demo_explicit = sim_demo_def [unfolded defaultSimOptions_def DEFAULT_CLOCK_LAG_MS_def, simplified]

declare sim_demo_explicit [code]

lemma sim_demo_atoll:
  "atoll ''5010'' = 5010" "atoll ''3'' = 3" "atoll ''1'' = 1" "atoll ''2'' = 2" "atoll ''7:9'' = 7" "atoll ''9'' = 9"
  by (simp_all add: atoll_def c_str_def is_space_def digits_val_def digit_val_def lower_def)

lemma sim_demo_reads: "sim_args sim_demo_args 5 = Some sim_demo"
  by (simp add: sim_args_def sim_demo_args_def sim_option_def sim_demo_def defaultSimOptions_def sim_demo_atoll atoi_def to_int32_def)

definition sim_demo_page :: "BackfillRequest \<Rightarrow> BackfillPage" where
  "sim_demo_page rq = fst (fakeFetch 6 (\<lambda>_. 7) (br_fromId rq) (br_limit rq) \<lparr>fe_servedFrom = 1, fe_failFirst = 0\<rparr>)"

definition sim_demo_rd :: SimReadings where
  "sim_demo_rd = \<lparr>sr_eventNs = (\<lambda>_. 1), sr_recvNs = (\<lambda>i. i), sr_exchNs = (\<lambda>i. i),
     sr_pump = (\<lambda>i. (\<lparr>pe_thread = (\<lambda>_. if i = 2 then [sim_demo_page, sim_demo_page, sim_demo_page] else []),
        pe_fetch = (\<lambda>_ _ _ _. emptyBackfillPage), pe_jitter = (\<lambda>_. 0)\<rparr>, 1)),
     sr_drainStartMs = 0, sr_drain = []\<rparr>"

lemma sim_demo_run:
  "map_option (\<lambda>(c, s, w). (c, bf_queue (ss_backfill s), connected (ss_tp s), p_rowsUnresendable (ss_tp s))) (sim_run dying_io sim_demo_rd sim_demo dying_start) =
     Some (0, [], True, 0)"
  by code_simp


end
