(* ===== verification/Spec2Isabelle.thy ===== *)
theory Spec2Isabelle
  imports Quote_Loop Trade_Loop Feed_Config Handler_Memory Sim_Publisher
begin

text \<open>
  Verification of the C++ feed handlers of the repository (\<open>cpp/include\<close>, \<open>cpp/src\<close>).

  \<^bold>\<open>The program.\<close> Four programs read a market's stream from Binance and publish rows to a kdb+ tickerplant. A quote handler
  keeps an order book per symbol: it buffers depth events, asks a second thread for a REST snapshot, bridges the two
  by update ids, applies the events and publishes the best levels. A trade handler publishes every trade, checks that
  the trade ids follow each other, records a gap as an event and fetches what is missing from REST. Both register a
  session with the tickerplant, number their rows, and resend after a lost connection what was not logged.

  \<^bold>\<open>Theories\<close>, each with the file it models; definitions have the names of the code where Isabelle allows it, with a
  prefix where two classes share a name. A class is a record, a method a function that takes and returns it.
  \<^item> \<open>Prelude\<close>: lemmas on lists and maps, the 64-bit bounds, the contract of a bounded queue.
  \<^item> \<open>Doubles\<close>: \<open>double\<close> as infinities, NaN and rationals, with rounding to nearest even where the code rounds.
  \<^item> \<open>Market_Config\<close>: \<open>market_config.hpp\<close>.
  \<^item> \<open>Book_Side\<close>, \<open>Depth_Sequence\<close>, \<open>Order_Book\<close>, \<open>Order_Book_Exact\<close>, \<open>Order_Book_Machine\<close>: \<open>order_book_manager.hpp\<close>; the sorted
    sides, the sequencing rules of spot and futures, one symbol's state machine with its background refresh, the
    comparison with the exchange's book, and all states that events can reach.
  \<^item> \<open>Snapshot_Scheduler\<close>: \<open>snapshot_scheduler.hpp\<close>; token bucket, backoff, pauses.
  \<^item> \<open>Snapshot_Worker\<close>: \<open>snapshot_worker.hpp\<close>; the bounded queues and the thread as steps that interleave with the handler.
  \<^item> \<open>Json_Reader\<close>, \<open>Rest_Client\<close>: \<open>json_reader.hpp\<close>, \<open>rest_client.hpp\<close>.
  \<^item> \<open>K_Rows\<close>: \<open>quote_row.hpp\<close>, \<open>trade_row.hpp\<close> and the gap rows of \<open>trade_gap.hpp\<close>. \<open>Row_Clock\<close>: \<open>row_clock.hpp\<close>.
  \<^item> \<open>Tp_Publisher\<close>, \<open>Fh_Stats\<close>: \<open>tp_publisher.hpp\<close>, \<open>fh_stats.hpp\<close>; registration, publishing, the resend ring, reconnects.
  \<^item> \<open>K_Object\<close>: \<open>k_object.hpp\<close>; the owning and borrowing wrappers over a memory of reference-counted objects.
  \<^item> \<open>Tp_Memory\<close>, \<open>Handler_Memory\<close>: the publisher, the gap queue and the code that builds rows once more, now with pointers in the
    ring and the queue and every reference taken and given back where the code does; proved to refine the models on values.
  \<^item> \<open>Quote_Handler\<close>, \<open>Quote_Log\<close>, \<open>Quote_Run\<close>, \<open>Quote_Loop\<close>: \<open>quote_feed_handler.cpp\<close>; its methods, its relation to the log, its life,
    and the loops of \<open>run\<close> and \<open>runWebSocketLoop\<close> as a machine that leads such a life.
  \<^item> \<open>Trade_Gap\<close>, \<open>Trade_Backfill\<close>: \<open>trade_gap.hpp\<close>, \<open>trade_backfill.hpp\<close>; the id tracker, the event queue, pages and pump.
  \<^item> \<open>Trade_Handler\<close>, \<open>Trade_Log\<close>, \<open>Trade_Run\<close>, \<open>Trade_Loop\<close>: \<open>trade_feed_handler.cpp\<close>; the same for the trade handler.
  \<^item> \<open>Feed_Config\<close>: \<open>config.hpp\<close>, \<open>quote_fh_main_common.hpp\<close>, \<open>trade_fh_main.cpp\<close>, \<open>trade_fh_fut_main.cpp\<close>.
  \<^item> \<open>Sim_Publisher\<close>: \<open>tools/sim_trade_publisher.cpp\<close>; the test publisher built from the same classes.

  \<^bold>\<open>What is proved.\<close> For quotes: in every reachable state a valid quote shows exactly the exchange's best levels at the
  update id it carries; over a whole life of the handler this holds for the rows in the tickerplant, which also chain by
  update id; a gap invalidates the book; snapshots asked for before a reconnect are never applied; a wait for a
  snapshot is bounded. For trades: each id from the first expected to the newest live one is published once, declared
  lost once, or still open. For both: rows are numbered without a hole and all arrive, unless the counter of
  unresendable rows says so. The loops of both handlers lead only the lives these theorems speak of, and after a stop the
  quote handler's ends in six steps of its own. On the level of pointers nothing leaks and nothing is released
  twice, over any number of lost connections. The test publisher accounts for every id it was told to send. Below these: the rate limits (weight per minute, pauses, backoff windows), the worker's
  order and termination, the layouts of rows, the row clock, parsing, and what a loaded configuration guarantees.

  \<^bold>\<open>Interfaces\<close> are locales, each interpreted on the model where it is provided: \<open>bounded_fifo\<close> (the resend ring, the
  worker's queues, the buffer of depth events), \<open>tracked_side\<close> (a side that follows the exchange's), \<open>sequencing\<close> (the two
  rules), \<open>fp_rounding\<close> (rounding to double), \<open>json_accessor\<close> (the readers of \<open>JsonReader\<close>), \<open>request_service\<close> (the
  snapshot worker), \<open>backfill_client\<close> (what the backfill asks of its client: the trade handler and the test publisher) and
  \<open>quote_life\<close> (what every step of the quote handler's loops keeps).

  \<^bold>\<open>Parameters.\<close> Code outside the repository is an argument: the kdb+ IPC calls (\<open>TpIo\<close> with the contract \<open>tp_contract\<close>, and
  \<open>health_contract\<close>, \<open>state_contract\<close> for the other messages, \<open>ping_contract\<close> for the empty query of the test publisher, \<open>stop_contract\<close> for the flag \<open>running_\<close>), the memory of kdb+ objects (\<open>KMem\<close> with
  \<open>mem_contract\<close>; \<open>counted_mem\<close> is a concrete one that counts references), the JSON parser (\<open>json_parser\<close>), HTTP over TLS (\<open>net\<close>),
  files and environment. \<open>DyingTp\<close> in \<open>Tp_Publisher\<close> is a concrete tickerplant whose connections die; the witnesses run on it.
  Clocks, measured durations and random jitter are readings given to each step and are arbitrary.

  \<^bold>\<open>Bounds and fuel.\<close> The reconnect loop of \<open>connect\<close> may not return: it is a \<open>partial_function\<close> in \<open>option\<close>, and the theorems on
  a handler's life speak of the steps that returned. \<open>pump\<close> has the code's own bound of 100000 rounds, and
  \<open>pump_stops_for_a_reason\<close> shows that two are enough with the fetching thread. All other loops are total. Ids, counters
  and clocks are unbounded integers, except where a width matters: the fields of JSON messages are checked to fit 64
  bits, the null long is the 64-bit word, and \<open>stamp_in_range\<close> shows that the row clock's arithmetic does not overflow.

  \<^bold>\<open>Not modelled.\<close> The WebSocket and TLS set-up, socket options (\<open>socket_utils.hpp\<close>), log lines and their set-up (\<open>logger.hpp\<close>,
  \<open>row_clock_log.hpp\<close>) and the installation of signal handlers: pure I/O, which the loops see as events (a handshake, a
  message, an exception, the flag cleared). The q code of the tickerplant, which is the other side of \<open>tp_contract\<close>.
\<close>

section \<open>A program\<close>

text \<open>A quote program and its two files: the demonstration market of \<open>Quote_Run\<close>.\<close>

definition prog_market :: Json where
  "prog_market = JObject [(''schema'', JString ''spot_depth''), (''stream_suffix'', JString ''@depth@100ms''), (''tp_table'', JString ''quote_binance''),
     (''rest_host'', JString ''api.binance.com''), (''rest_path'', JString ''/api/v3/depth''),
     (''snapshot_limit'', JInt 1), (''snapshot_weight'', JInt 50), (''weight_limit_per_min'', JInt 6000)]"

definition prog_config :: Json where
  "prog_config = JObject [(''tickerplant'', JObject [(''host'', JString ''h'')]), (''market'', prog_market)]"

definition prog_shared :: Json where
  "prog_shared = JObject [(''symbols'', JArray [JString ''B'']), (''quote_depth'', JInt 1)]"

definition prog_parse :: json_parser where
  "prog_parse s = (if s = ''1'' then Inr prog_config else if s = ''2'' then Inr prog_shared else Inl [])"

definition prog_files :: "string \<Rightarrow> string option" where
  "prog_files p = (if p = ''q'' then Some ''1'' else if p = ''./shared.json'' then Some ''2'' else None)"

lemma prog_runs: "quote_main prog_parse prog_files None ''q'' None ''spot_depth'' = Runs [''b''] demo_market ''h'' 5010"
  by (simp add: quote_main_def load_config_def loadShared_def loadDepth_def loadClockLag_def loadTickerplant_def loadReconnect_def
      loadMarket_def loadBackfill_def loadLogging_def block_def opt_str_def opt_int_def opt_int64_def sharedPathFor_def dir_of_def
      c_str_def Let_def prog_parse_def prog_files_def prog_config_def prog_shared_def prog_market_def defaultFeedConfig_def demo_lower
      isInt_def isInt64_def MIN_QUOTE_DEPTH_def MAX_QUOTE_DEPTH_def buildQuoteMarket_def demo_market_def defaultQuoteMarketConfig_def)

text \<open>C7: From the configuration files to the tickerplant: when a quote program accepts its files and runs a handler, then
  its depth is between 1 and 50 levels, and over the handler's whole life the rows in the tickerplant are rows of quotes of
  its symbols, and every valid one shows exactly the exchange's best levels at its update id. Nothing is assumed of
  the configuration: what the handler needs, the program has checked.\<close>

theorem program_quotes_exact:
  assumes "quote_main parse files env defaultPath arg schema = Runs symbols m tpHost tpPort"
    and "h0 = newQuoteHandler symbols m tpHost tpPort startNs steadyNs"
    and "tp_contract io view (p_cfg (qh_tp h0))" "health_contract io view" "fresh_tp (view w0)"
    and "quote_run io parse' X ord h0 w0 h w" "p_rowsUnresendable (qh_tp h) = 0" "connected (qh_tp h)"
  shows "1 \<le> qm_depth m \<and> qm_depth m \<le> 50 \<and>
    (\<exists>G. list_all2 (is_row h) G (tv_logged (view w) @ tv_flight (view w)) \<and>
       (\<forall>x \<in> set G. fst x < numSymbols h \<and> exact_quote (book_cfg h) (X (fst x)) (snd x)))"
proof -
  note m = quote_main_ok [OF assms(1)]
  then have "market_ok m" by (simp add: market_ok_def)
  from quotes_exact [OF assms(3,4) this assms(5,2,6-8)] m show ?thesis by blast
qed

lemma program_quotes_exact_witness:
  "\<exists>m h w G. quote_main prog_parse prog_files None ''q'' None ''spot_depth'' = Runs [''b''] m ''h'' 5010 \<and>
     quote_run dying_io demo_parse (\<lambda>_. run_X) True (newQuoteHandler [''b''] m ''h'' 5010 1000 0) dying_start h w \<and> qh_fhSeqNo h = 1 \<and>
     list_all2 (is_row h) G (tv_logged (dw_view w) @ tv_flight (dw_view w)) \<and> qm_depth m \<le> 50"
proof -
  obtain h w where r: "demo_run h w" "qh_fhSeqNo h = 1" "connected (qh_tp h)" "p_rowsUnresendable (qh_tp h) = 0"
    using demo_run_s6 by blast
  from program_quotes_exact [OF prog_runs demo_h0_def demo_contracts(1,2,4) r(1,4,3)]
  obtain G where "list_all2 (is_row h) G (tv_logged (dw_view w) @ tv_flight (dw_view w))" "qm_depth demo_market \<le> 50" by blast
  with prog_runs r(1,2) show ?thesis unfolding demo_h0_def by blast
qed

end
